(* ===== verification/Prelude.thy ===== *)
theory Prelude
  imports Main "HOL-Library.Word" "HOL-Library.Monad_Syntax"
begin

text \<open>
  Shared vocabulary of the development: Go's machine-level types, errors as values, run-time
  panics as \<open>None\<close>, the slice expression \<open>xs[lo:hi]\<close> with its bounds check, and the list
  facts about equally sized chunks that the chunked buffer, its cursors and its readers share.

  Conventions used by every component theory.
  \<^item> A Go panic (slice or index out of range, nil dereference) is the value \<open>None\<close>; a
    computation that returns is \<open>Some\<close>.
  \<^item> An \<open>error\<close> result is a \<open>go_err option\<close>: \<open>None\<close> is Go's \<open>nil\<close>.
  \<^item> Offsets and counts that the code keeps in \<open>int\<close> or \<open>int64\<close> and lets go negative are
    \<open>int\<close>; lengths are \<open>nat\<close>.
\<close>

section \<open>Types\<close>

type_synonym byte = "8 word"

text \<open>A rune is an \<open>int32\<close>; only the order and equality of code points matter.\<close>

type_synonym rune = int

datatype go_err = EOF | Err string

section \<open>Collections of rewrite rules\<close>

named_theorems chunk_simps "lists of equally long chunks"
named_theorems slice_simps "Go slice expressions"
named_theorems buf_simps "the chunked buffer"
named_theorems cur_simps "buffer cursors"
named_theorems map_simps "map-backed containers"
named_theorems scan_simps "rune scanners"

section \<open>Slices\<close>

definition go_slice :: "'a list \<Rightarrow> int \<Rightarrow> int \<Rightarrow> 'a list option" where
  "go_slice xs lo hi =
     (if 0 \<le> lo \<and> lo \<le> hi \<and> hi \<le> int (length xs)
      then Some (take (nat hi - nat lo) (drop (nat lo) xs)) else None)"

definition go_index :: "'a list \<Rightarrow> int \<Rightarrow> 'a option" where
  "go_index xs i = (if 0 \<le> i \<and> i < int (length xs) then Some (xs ! nat i) else None)"

lemma slice_SomeI [slice_simps]:
  "0 \<le> lo \<Longrightarrow> lo \<le> hi \<Longrightarrow> hi \<le> int (length xs) \<Longrightarrow>
   go_slice xs lo hi = Some (take (nat hi - nat lo) (drop (nat lo) xs))"
  by (simp add: go_slice_def)

lemma slice_panics [slice_simps]:
  "\<not> (0 \<le> lo \<and> lo \<le> hi \<and> hi \<le> int (length xs)) \<Longrightarrow> go_slice xs lo hi = None"
  by (auto simp: go_slice_def)

lemma slice_nat [slice_simps]:
  "i \<le> j \<Longrightarrow> j \<le> length xs \<Longrightarrow> go_slice xs (int i) (int j) = Some (take (j - i) (drop i xs))"
  by (simp add: go_slice_def)

lemma length_slice: "go_slice xs lo hi = Some ys \<Longrightarrow> int (length ys) = hi - lo"
  by (auto simp: go_slice_def split: if_splits)

lemma index_nat [slice_simps]: "i < length xs \<Longrightarrow> go_index xs (int i) = Some (xs ! i)"
  by (simp add: go_index_def)

section \<open>Ranges\<close>

text \<open>The elements of a range: the reference definition for everything that takes offsets.\<close>

definition range_of :: "'a list \<Rightarrow> int \<Rightarrow> int \<Rightarrow> 'a list" where
  "range_of xs lo hi = take (nat (hi - lo)) (drop (nat lo) xs)"

lemma range_of_empty [simp]: "range_of xs lo lo = []"
  by (simp add: range_of_def)

lemma length_range_of:
  "0 \<le> lo \<Longrightarrow> lo \<le> hi \<Longrightarrow> hi \<le> int (length xs) \<Longrightarrow> length (range_of xs lo hi) = nat (hi - lo)"
  by (simp add: range_of_def)

lemma range_of_split:
  assumes "0 \<le> lo" "lo \<le> m" "m \<le> hi"
  shows "range_of xs lo hi = range_of xs lo m @ range_of xs m hi"
proof -
  have e: "nat (hi - lo) = nat (m - lo) + nat (hi - m)" "nat m = nat (m - lo) + nat lo"
    using assms by auto
  show ?thesis unfolding range_of_def e by (simp add: take_add)
qed

lemma slice_range_of:
  "0 \<le> lo \<Longrightarrow> lo \<le> hi \<Longrightarrow> hi \<le> int (length xs) \<Longrightarrow> go_slice xs lo hi = Some (range_of xs lo hi)"
  by (simp add: slice_SomeI range_of_def nat_diff_distrib)

section \<open>Lists of equally long chunks\<close>

definition uniform :: "nat \<Rightarrow> 'a list list \<Rightarrow> bool" where
  "uniform l cs \<longleftrightarrow> (\<forall>c \<in> set cs. length c = l)"

lemma uniform_simps [simp]:
  "uniform l []" "uniform l (c # cs) \<longleftrightarrow> length c = l \<and> uniform l cs"
  "uniform l (cs @ ds) \<longleftrightarrow> uniform l cs \<and> uniform l ds"
  by (auto simp: uniform_def)

lemma uniform_take [simp]: "uniform l cs \<Longrightarrow> uniform l (take n cs)"
  by (auto simp: uniform_def dest: in_set_takeD)

lemma uniform_drop [simp]: "uniform l cs \<Longrightarrow> uniform l (drop n cs)"
  by (auto simp: uniform_def dest: in_set_dropD)

lemma uniform_nth: "uniform l cs \<Longrightarrow> k < length cs \<Longrightarrow> length (cs ! k) = l"
  by (simp add: uniform_def)

lemma uniform_hd: "uniform l cs \<Longrightarrow> cs \<noteq> [] \<Longrightarrow> length (hd cs) = l"
  by (cases cs) auto

lemma length_concat_uniform [chunk_simps]: "uniform l cs \<Longrightarrow> length (concat cs) = l * length cs"
  by (induction cs) auto

lemma drop_concat_uniform [chunk_simps]:
  "uniform l cs \<Longrightarrow> drop (l * k) (concat cs) = concat (drop k cs)"
proof (induction k arbitrary: cs)
  case 0
  then show ?case by simp
next
  case (Suc k)
  then show ?case by (cases cs) auto
qed

lemma take_concat_uniform [chunk_simps]:
  "uniform l cs \<Longrightarrow> take (l * k) (concat cs) = concat (take k cs)"
proof (induction k arbitrary: cs)
  case 0
  then show ?case by simp
next
  case (Suc k)
  then show ?case by (cases cs) auto
qed

lemma div_chunk [chunk_simps]: "i < l \<Longrightarrow> (l * n + i) div l = (n::nat)"
  using div_mult_self4 [of l n i] by simp

lemma drop_concat_within:
  assumes "uniform l cs" "k < length cs" "i \<le> l"
  shows "drop (l * k + i) (concat cs) = drop i (cs ! k) @ concat (drop (Suc k) cs)"
proof -
  have "drop (l * k + i) (concat cs) = drop i (concat (drop k cs))"
    using assms(1) by (simp add: drop_concat_uniform add.commute flip: drop_drop)
  also have "drop k cs = (cs ! k) # drop (Suc k) cs"
    using assms(2) by (simp add: Cons_nth_drop_Suc)
  finally show ?thesis
    using assms by (simp add: uniform_nth)
qed

text \<open>A range inside one chunk.\<close>

lemma range_of_chunk:
  assumes "uniform l cs" "k < length cs" "0 \<le> i" "i \<le> j" "j \<le> int l"
  shows "range_of (concat cs @ t) (int (l * k) + i) (int (l * k) + j) = range_of (cs ! k) i j"
proof -
  have n: "nat (int (l * k) + i) = l * k + nat i" using assms(3) by linarith
  have "l * k + nat i \<le> l * Suc k" using assms(3-5) by simp
  also have "\<dots> \<le> l * length cs" using assms(2) by (intro mult_le_mono2) simp
  finally have "l * k + nat i \<le> length (concat cs)" using length_concat_uniform [OF assms(1)] by simp
  then have "drop (l * k + nat i) (concat cs @ t) = drop (nat i) (cs ! k) @ concat (drop (Suc k) cs) @ t"
    using drop_concat_within [OF assms(1,2), of "nat i"] assms(3-5) by simp
  moreover have "nat (int (l * k) + j - (int (l * k) + i)) = nat (j - i)" by simp
  moreover have "nat (j - i) \<le> length (drop (nat i) (cs ! k))"
    using assms uniform_nth [OF assms(1,2)] by simp
  ultimately show ?thesis unfolding range_of_def n by (simp only: take_append) simp
qed

end
