(* ===== verification/Buffer.thy ===== *)
theory Buffer
  imports Prelude
begin

text \<open>
  The chunked byte buffer of \<open>src/ioext/buffer.go\<close> (type \<open>Buffer\<close>): a list of full chunks,
  a fixed array that collects the bytes of the chunk being filled, and the limit bookkeeping
  (\<open>MaxLenToWrite\<close>, \<open>maxwrttnl\<close>, \<open>OnMaxWritten\<close>).  The abstraction \<open>contents\<close> forgets the
  chunking; the refinement lemmas say that every operation is the expected operation on byte
  sequences.

  Not represented: the mutex itself (only whether it is still allocated, which \<open>Close\<close> ends),
  and the field \<open>bufrs\<close>, a registry of readers that no code ever stores into.  Methods are
  modelled on a non-nil receiver.
\<close>

section \<open>State\<close>

record Buffer =
  buffer :: "byte list list"
  bytes :: "byte list"
  bytesi :: nat
  lck :: bool
  MaxLenToWrite :: int
  maxwrttnl :: int
  OnMaxWritten :: "(int \<Rightarrow> bool) option"

definition NewBuffer :: Buffer where
  "NewBuffer = \<lparr>buffer = [], bytes = replicate 8192 0, bytesi = 0, lck = True,
     MaxLenToWrite = - 1, maxwrttnl = - 1, OnMaxWritten = None\<rparr>"

definition BuffersLen :: "Buffer \<Rightarrow> nat" where
  "BuffersLen b = length (buffer b)"

definition Empty :: "Buffer \<Rightarrow> bool" where
  "Empty b \<longleftrightarrow> bytesi b = 0 \<and> length (buffer b) = 0"

definition Size :: "Buffer \<Rightarrow> int" where
  "Size b =
     (if Empty b then 0
      else (if 0 < length (buffer b) then int (length (buffer b)) * int (length (hd (buffer b))) else 0)
         + (if 0 < bytesi b then int (bytesi b) else 0))"

section \<open>Writing\<close>

text \<open>One \<open>copy\<close> into the array behind the write position, with the limit accounting.\<close>

definition storeBytes :: "Buffer \<Rightarrow> byte list \<Rightarrow> Buffer" where
  "storeBytes b src =
     (let cl = length src in
      if 0 < cl then
        b\<lparr>bytes := take (bytesi b) (bytes b) @ src @ drop (bytesi b + cl) (bytes b),
          bytesi := bytesi b + cl,
          maxwrttnl := (if MaxLenToWrite b > 0 then
                          (if maxwrttnl b < 0 then int cl else maxwrttnl b + int cl)
                        else maxwrttnl b)\<rparr>
      else b)"

text \<open>A filled array is appended as a chunk and the write position returns to its start.\<close>

definition flushChunk :: "Buffer \<Rightarrow> Buffer" where
  "flushChunk b =
     (if bytesi b = length (bytes b)
      then b\<lparr>buffer := buffer b @ [take (bytesi b) (bytes b)], bytesi := 0\<rparr>
      else b)"

text \<open>
  The loop of \<open>writeBytes\<close>: \<open>n\<close> bytes of \<open>p\<close> are already stored.  An array of capacity zero
  would make the loop run for ever, so the loop is a partial function; \<open>writeLoop_returns\<close>
  shows that it returns on every well-formed buffer.
\<close>

partial_function (option) writeLoop ::
  "Buffer \<Rightarrow> nat \<Rightarrow> byte list \<Rightarrow> nat \<Rightarrow> (nat \<times> Buffer) option" where
  "writeLoop b pl p n =
     (if n < pl then
        do {
          let room = length (bytes b) - bytesi b;
          let tl = (if pl - n \<ge> room then room else pl - n);
          src \<leftarrow> go_slice p (int n) (int (n + tl));
          writeLoop (flushChunk (storeBytes b src)) pl p (n + length src)
        }
      else Some (n, b))"

declare writeLoop.simps [code]

definition wrapupWrite :: "Buffer \<Rightarrow> Buffer" where
  "wrapupWrite b =
     (if MaxLenToWrite b > 0 \<and> maxwrttnl b \<ge> MaxLenToWrite b then
        (case OnMaxWritten b of
           Some f \<Rightarrow> (if f (maxwrttnl b) then b\<lparr>maxwrttnl := - 1\<rparr>
                      else b\<lparr>MaxLenToWrite := - 1, maxwrttnl := - 1\<rparr>)
         | None \<Rightarrow> b\<lparr>MaxLenToWrite := - 1, maxwrttnl := - 1\<rparr>)
      else b)"

definition writeBytes :: "Buffer \<Rightarrow> nat \<Rightarrow> byte list \<Rightarrow> (nat \<times> Buffer) option" where
  "writeBytes b pl p = do { (n, b') \<leftarrow> writeLoop b pl p 0; Some (n, wrapupWrite b') }"

text \<open>\<open>Write\<close> takes the lock, which panics once \<open>Close\<close> has released it.\<close>

definition Write :: "Buffer \<Rightarrow> byte list \<Rightarrow> (nat \<times> Buffer) option" where
  "Write b p =
     (if 0 < length p then
        (if lck b then do { (n, b') \<leftarrow> writeBytes b (length p) p; Some (n, wrapupWrite b') }
         else None)
      else Some (0, b))"

section \<open>Clearing, cloning, closing\<close>

definition Clear :: "Buffer \<Rightarrow> Buffer" where
  "Clear b =
     (if lck b then
        (let b1 = b\<lparr>buffer := [], bytesi := 0\<rparr> in
         if MaxLenToWrite b1 > 0 \<and> OnMaxWritten b1 = None
         then b1\<lparr>MaxLenToWrite := - 1, maxwrttnl := - 1\<rparr> else b1)
      else b)"

text \<open>\<open>onclose\<close> is the callback field \<open>OnClose\<close>, which may change the buffer.\<close>

definition Close :: "(Buffer \<Rightarrow> Buffer) option \<Rightarrow> Buffer \<Rightarrow> Buffer" where
  "Close onclose b =
     (if lck b then
        (let b1 = (case onclose of Some f \<Rightarrow> f b | None \<Rightarrow> b) in (Clear b1)\<lparr>lck := False\<rparr>)
      else b)"

text \<open>
  \<open>Clone\<close> returns the copy and the (possibly cleared) original.  The chunks are shared, which
  is sound because no code writes into a chunk after it has been appended.
\<close>

definition Clone :: "bool \<Rightarrow> Buffer \<Rightarrow> Buffer \<times> Buffer" where
  "Clone clear b =
     (if \<not> Empty b then
        (let c = NewBuffer\<lparr>buffer := buffer b\<rparr>;
             b1 = (if clear \<and> 0 < length (buffer b) then b\<lparr>buffer := []\<rparr> else b);
             c1 = (if 0 < bytesi b
                   then c\<lparr>bytes := (let k = min (length (bytes c)) (bytesi b) in
                                     take k (bytes b) @ drop k (bytes c)),
                         bytesi := bytesi b\<rparr>
                   else c)
         in (c1, if clear then Clear b1 else b1))
      else (NewBuffer, b))"

section \<open>Abstraction and invariant\<close>

definition contents :: "Buffer \<Rightarrow> byte list" where
  "contents b = concat (buffer b) @ take (bytesi b) (bytes b)"

definition buf_inv :: "Buffer \<Rightarrow> bool" where
  "buf_inv b \<longleftrightarrow> bytesi b < length (bytes b) \<and> uniform (length (bytes b)) (buffer b)"

text \<open>What every write leaves alone.\<close>

definition same_setup :: "Buffer \<Rightarrow> Buffer \<Rightarrow> bool" where
  "same_setup b b' \<longleftrightarrow> length (bytes b') = length (bytes b) \<and> lck b' = lck b \<and>
     OnMaxWritten b' = OnMaxWritten b"

text \<open>The byte count of the limit bookkeeping after \<open>k\<close> more bytes.\<close>

definition counted :: "Buffer \<Rightarrow> nat \<Rightarrow> int" where
  "counted b k =
     (if MaxLenToWrite b > 0 \<and> 0 < k
      then (if maxwrttnl b < 0 then 0 else maxwrttnl b) + int k else maxwrttnl b)"

lemma buf_inv_NewBuffer [simp]: "buf_inv NewBuffer"
  by (simp add: buf_inv_def NewBuffer_def)

lemma contents_NewBuffer [simp]: "contents NewBuffer = []"
  by (simp add: contents_def NewBuffer_def)

lemma lck_NewBuffer [simp]: "lck NewBuffer"
  by (simp add: NewBuffer_def)

lemma cap_NewBuffer [simp]: "length (bytes NewBuffer) = 8192"
  by (simp add: NewBuffer_def)

lemma same_setup_refl [simp]: "same_setup b b"
  by (simp add: same_setup_def)

lemma same_setup_trans: "same_setup a b \<Longrightarrow> same_setup b c \<Longrightarrow> same_setup a c"
  by (simp add: same_setup_def)

lemma Empty_contents [buf_simps]: "buf_inv b \<Longrightarrow> Empty b \<longleftrightarrow> contents b = []"
  by (cases "buffer b") (auto simp: Empty_def contents_def buf_inv_def)

lemma length_contents:
  "buf_inv b \<Longrightarrow> length (contents b) = length (bytes b) * length (buffer b) + bytesi b"
  by (simp add: contents_def buf_inv_def length_concat_uniform)

lemma Size_contents [buf_simps]: "buf_inv b \<Longrightarrow> Size b = int (length (contents b))"
  by (auto simp: Size_def Empty_def length_contents buf_inv_def uniform_hd)

section \<open>Writing appends\<close>

lemma storeBytes_props:
  assumes "bytesi b + length src \<le> length (bytes b)"
  shows "contents (storeBytes b src) = contents b @ src"
    and "length (bytes (storeBytes b src)) = length (bytes b)"
    and "bytesi (storeBytes b src) = bytesi b + length src"
    and "buffer (storeBytes b src) = buffer b"
    and "maxwrttnl (storeBytes b src) = counted b (length src)"
    and "MaxLenToWrite (storeBytes b src) = MaxLenToWrite b"
    and "same_setup b (storeBytes b src)"
  using assms by (auto simp: storeBytes_def contents_def counted_def same_setup_def Let_def)

lemma flushChunk_props:
  assumes "bytesi b \<le> length (bytes b)" "0 < length (bytes b)"
    and "uniform (length (bytes b)) (buffer b)"
  shows "contents (flushChunk b) = contents b"
    and "buf_inv (flushChunk b)"
    and "length (bytes (flushChunk b)) = length (bytes b)"
    and "maxwrttnl (flushChunk b) = maxwrttnl b"
    and "MaxLenToWrite (flushChunk b) = MaxLenToWrite b"
    and "same_setup b (flushChunk b)"
  using assms by (auto simp: flushChunk_def contents_def buf_inv_def same_setup_def)

text \<open>One round of the loop.\<close>

lemma write_round:
  assumes inv: "buf_inv b" and fits: "bytesi b + length src \<le> length (bytes b)"
  defines "b' \<equiv> flushChunk (storeBytes b src)"
  shows "contents b' = contents b @ src" "buf_inv b'" "same_setup b b'"
    "MaxLenToWrite b' = MaxLenToWrite b" "maxwrttnl b' = counted b (length src)"
proof -
  have u: "uniform (length (bytes (storeBytes b src))) (buffer (storeBytes b src))"
    and c: "bytesi (storeBytes b src) \<le> length (bytes (storeBytes b src))"
      "0 < length (bytes (storeBytes b src))"
    using inv fits by (auto simp: storeBytes_props buf_inv_def)
  note f = flushChunk_props [OF c u] and s = storeBytes_props [OF fits]
  show "contents b' = contents b @ src" "buf_inv b'" "MaxLenToWrite b' = MaxLenToWrite b"
    "maxwrttnl b' = counted b (length src)"
    using f s by (simp_all add: b'_def)
  show "same_setup b b'"
    using f(6) s(7) by (auto simp: b'_def intro: same_setup_trans)
qed

lemma counted_counted:
  "MaxLenToWrite b' = MaxLenToWrite b \<Longrightarrow> maxwrttnl b' = counted b j \<Longrightarrow>
   counted b' k = counted b (j + k)"
  by (auto simp: counted_def)

lemma writeLoop_returns:
  assumes "buf_inv b" "n \<le> length p"
  shows "\<exists>b'. writeLoop b (length p) p n = Some (length p, b') \<and>
     contents b' = contents b @ drop n p \<and> buf_inv b' \<and> same_setup b b' \<and>
     MaxLenToWrite b' = MaxLenToWrite b \<and> maxwrttnl b' = counted b (length p - n)"
  using assms
proof (induction "length p - n" arbitrary: b n rule: less_induct)
  case less
  show ?case
  proof (cases "n < length p")
    case False
    with less.prems show ?thesis
      by (subst writeLoop.simps) (auto simp: counted_def)
  next
    case True
    define k where "k = min (length (bytes b) - bytesi b) (length p - n)"
    define src where "src = take k (drop n p)"
    have k: "0 < k" "n + k \<le> length p" "bytesi b + k \<le> length (bytes b)"
      using True less.prems by (auto simp: k_def buf_inv_def)
    then have src: "length src = k" "go_slice p (int n) (int n + int k) = Some src"
      "drop n p = src @ drop (n + k) p"
      using slice_nat [of n "n + k" p]
      by (auto simp: src_def append_take_drop_id simp flip: drop_drop)
         (metis add.commute append_take_drop_id drop_drop)
    let ?b = "flushChunk (storeBytes b src)"
    have r: "bytesi b + length src \<le> length (bytes b)" using src k by simp
    note round = write_round [OF less.prems(1) r]
    have "writeLoop b (length p) p n = writeLoop ?b (length p) p (n + k)"
      using True src by (subst writeLoop.simps) (auto simp: k_def min_def Let_def)
    moreover have dec: "length p - (n + k) < length p - n" using True k by simp
    moreover obtain b' where "writeLoop ?b (length p) p (n + k) = Some (length p, b')"
      "contents b' = contents ?b @ drop (n + k) p" "buf_inv b'" "same_setup ?b b'"
      "MaxLenToWrite b' = MaxLenToWrite ?b" "maxwrttnl b' = counted ?b (length p - (n + k))"
      using less.hyps [OF dec round(2) k(2)] by blast
    moreover have "counted ?b (length p - (n + k)) = counted b (length p - n)"
      using counted_counted [of ?b b k] round(4,5) src(1) k by simp
    ultimately show ?thesis
      using round src by (auto intro: same_setup_trans)
  qed
qed

lemma wrapupWrite_props [simp]:
  "contents (wrapupWrite b) = contents b" "buf_inv (wrapupWrite b) = buf_inv b"
  "buffer (wrapupWrite b) = buffer b" "bytes (wrapupWrite b) = bytes b"
  "bytesi (wrapupWrite b) = bytesi b" "lck (wrapupWrite b) = lck b"
  "OnMaxWritten (wrapupWrite b) = OnMaxWritten b"
  by (auto simp: wrapupWrite_def contents_def buf_inv_def split: option.splits)

lemma same_setup_wrapupWrite [simp]: "same_setup b (wrapupWrite c) = same_setup b c"
  by (simp add: same_setup_def)

text \<open>Below the limit, or with no limit set: what a finished write establishes.\<close>

definition within_limit :: "Buffer \<Rightarrow> bool" where
  "within_limit b \<longleftrightarrow> MaxLenToWrite b > 0 \<longrightarrow> maxwrttnl b < MaxLenToWrite b"

lemma wrapupWrite_within_limit: "within_limit (wrapupWrite b)"
  by (auto simp: wrapupWrite_def within_limit_def split: option.splits)

lemma wrapupWrite_id: "within_limit b \<Longrightarrow> wrapupWrite b = b"
  by (auto simp: wrapupWrite_def within_limit_def)

lemma writeBytes_returns:
  assumes "buf_inv b"
  shows "\<exists>b'. writeBytes b (length p) p = Some (length p, b') \<and> contents b' = contents b @ p \<and>
     buf_inv b' \<and> same_setup b b' \<and> within_limit b'"
proof -
  from writeLoop_returns [OF assms, of 0 p] obtain b' where
    "writeLoop b (length p) p 0 = Some (length p, b')" "contents b' = contents b @ p"
    "buf_inv b'" "same_setup b b'" by auto
  then show ?thesis
    by (auto simp: writeBytes_def wrapupWrite_within_limit)
qed

lemma Write_returns:
  assumes "buf_inv b" "lck b"
  shows "\<exists>b'. Write b p = Some (length p, b') \<and> contents b' = contents b @ p \<and>
     buf_inv b' \<and> same_setup b b' \<and> lck b'"
proof (cases "p = []")
  case True
  with assms show ?thesis by (simp add: Write_def)
next
  case False
  from writeBytes_returns [OF assms(1), of p] obtain b' where
    "writeBytes b (length p) p = Some (length p, b')" "contents b' = contents b @ p"
    "buf_inv b'" "same_setup b b'" "within_limit b'" by blast
  with False assms show ?thesis
    by (auto simp: Write_def wrapupWrite_id same_setup_def)
qed

text \<open>A sequence of writes, as a client of the buffer issues them.\<close>

fun writeAll :: "Buffer \<Rightarrow> byte list list \<Rightarrow> Buffer option" where
  "writeAll b [] = Some b"
| "writeAll b (p # ps) = do { (n, b') \<leftarrow> Write b p; writeAll b' ps }"

lemma writeAll_returns:
  "buf_inv b \<Longrightarrow> lck b \<Longrightarrow>
   \<exists>b'. writeAll b ps = Some b' \<and> contents b' = contents b @ concat ps \<and> buf_inv b' \<and> lck b' \<and>
     same_setup b b'"
proof (induction ps arbitrary: b)
  case Nil
  then show ?case by simp
next
  case (Cons p ps)
  from Write_returns [OF Cons.prems, of p] obtain b1 where b1:
    "Write b p = Some (length p, b1)" "contents b1 = contents b @ p" "buf_inv b1" "lck b1"
    "same_setup b b1" by blast
  from Cons.IH [OF b1(3,4)] b1 show ?case
    by (auto intro: same_setup_trans)
qed

section \<open>Clearing, cloning, closing\<close>

lemma Clear_contents: "buf_inv b \<Longrightarrow> lck b \<Longrightarrow> contents (Clear b) = [] \<and> buf_inv (Clear b) \<and> lck (Clear b)"
  by (auto simp: Clear_def contents_def buf_inv_def Let_def)

lemma Clone_contents:
  assumes "buf_inv b" "length (bytes b) = 8192" "lck b"
  shows "contents (fst (Clone c b)) = contents b" "buf_inv (fst (Clone c b))"
    "contents (snd (Clone c b)) = (if c then [] else contents b)"
proof -
  have "Empty b \<Longrightarrow> contents b = []"
    using assms(1) by (simp add: Empty_contents)
  then show "contents (fst (Clone c b)) = contents b"
    using assms by (auto simp: Clone_def contents_def Let_def NewBuffer_def buf_inv_def min_def)
  show "buf_inv (fst (Clone c b))"
    using assms by (auto simp: Clone_def Let_def buf_inv_def NewBuffer_def)
  show "contents (snd (Clone c b)) = (if c then [] else contents b)"
    using assms \<open>Empty b \<Longrightarrow> contents b = []\<close>
    by (auto simp: Clone_def Clear_def contents_def Let_def)
qed

lemma Close_unlocked: "\<not> lck (Close f b)"
  by (auto simp: Close_def Let_def)

section \<open>The buffer as an io.Writer\<close>

text \<open>
  \<open>io.Writer\<close> in general: a state, and a \<open>Write\<close> that reports the number of bytes taken and an
  error.  The locale states what a lossless writer promises as long as the stream it receives
  is one it accepts: it takes every byte, in order, and reports a count that adds up over
  the calls.  Everything that pours bytes into a writer (\<open>WriteTo\<close>, \<open>WriteSubOffsetTo\<close>,
  \<open>SubString\<close>) is proved against it once.
\<close>

type_synonym 's put = "'s \<Rightarrow> byte list \<Rightarrow> (nat \<times> go_err option \<times> 's) option"

locale byte_sink =
  fixes put :: "'s put" and reported :: "byte list \<Rightarrow> int" and sunk :: "'s \<Rightarrow> byte list"
    and accepts :: "'s \<Rightarrow> byte list \<Rightarrow> bool"
  assumes put_appends: "accepts s (p @ q) \<Longrightarrow>
      \<exists>s' n. put s p = Some (n, None, s') \<and> int n = reported p \<and> sunk s' = sunk s @ p \<and> accepts s' q"
    and reported_append: "reported (p @ q) = reported p + reported q"

definition bufPut :: "Buffer put" where
  "bufPut b p = do { (n, b') \<leftarrow> Write b p; Some (n, None, b') }"

definition buf_ready :: "Buffer \<Rightarrow> bool" where
  "buf_ready b \<longleftrightarrow> buf_inv b \<and> lck b"

interpretation bufsink: byte_sink bufPut "\<lambda>p. int (length p)" contents "\<lambda>b p. buf_ready b"
proof
  fix b :: Buffer and p :: "byte list"
  assume "buf_ready b"
  then show "\<exists>b' n. bufPut b p = Some (n, None, b') \<and> int n = int (length p) \<and>
      contents b' = contents b @ p \<and> buf_ready b'"
    using Write_returns [of b p] by (auto simp: buf_ready_def bufPut_def)
qed simp

text \<open>The same with the capacity of the array on record.\<close>

definition usable :: "nat \<Rightarrow> Buffer \<Rightarrow> bool" where
  "usable n b \<longleftrightarrow> buf_inv b \<and> lck b \<and> length (bytes b) = n"

lemma usable_NewBuffer [simp]: "usable 8192 NewBuffer"
  by (simp add: usable_def)

lemma Write_usable:
  "usable n b \<Longrightarrow> \<exists>b'. Write b p = Some (length p, b') \<and> contents b' = contents b @ p \<and> usable n b'"
  using Write_returns [of b p] by (auto simp: usable_def same_setup_def)

lemma writeBytes_usable:
  "usable n b \<Longrightarrow> \<exists>b'. writeBytes b (length p) p = Some (length p, b') \<and> contents b' = contents b @ p \<and> usable n b'"
  using writeBytes_returns [of b p] by (auto simp: usable_def same_setup_def)

lemma Clear_usable: "usable n b \<Longrightarrow> usable n (Clear b) \<and> contents (Clear b) = []"
  using Clear_contents [of b] by (auto simp: usable_def Clear_def Let_def)

interpretation usablesink: byte_sink bufPut "\<lambda>p. int (length p)" contents "\<lambda>b p. usable n b" for n
proof
  fix b :: Buffer and p :: "byte list"
  assume "usable n b"
  then show "\<exists>b' k. bufPut b p = Some (k, None, b') \<and> int k = int (length p) \<and> contents b' = contents b @ p \<and> usable n b'"
    using Write_usable [of n b p] by (auto simp: bufPut_def)
qed simp

text \<open>The plainest writer of all, used as the reference point: append to a byte list.\<close>

definition listPut :: "byte list put" where
  "listPut s p = Some (length p, None, s @ p)"

interpretation listsink: byte_sink listPut "\<lambda>p. int (length p)" "\<lambda>s. s" "\<lambda>s p. True"
  by unfold_locales (simp_all add: listPut_def)

section \<open>Properties\<close>

text \<open>The contents determine the chunking: there is one well-formed way to hold a byte sequence.\<close>

lemma contents_canonical:
  assumes "buf_inv b" "buf_inv b'" "length (bytes b') = length (bytes b)" "contents b = contents b'"
  shows "buffer b = buffer b'" "bytesi b = bytesi b'"
proof -
  let ?l = "length (bytes b)"
  have inv: "bytesi b < ?l" "uniform ?l (buffer b)" "bytesi b' < ?l" "uniform ?l (buffer b')"
    using assms by (auto simp: buf_inv_def)
  have eq: "?l * length (buffer b) + bytesi b = ?l * length (buffer b') + bytesi b'"
    using length_contents [OF assms(1)] length_contents [OF assms(2)] assms(3,4) by simp
  have "(?l * length (buffer b) + bytesi b) div ?l = length (buffer b)"
    "(?l * length (buffer b') + bytesi b') div ?l = length (buffer b')"
    using inv by (simp_all only: div_chunk)
  with eq have n: "length (buffer b) = length (buffer b')" by simp
  with eq show "bytesi b = bytesi b'" by simp
  have "concat (buffer b) = concat (buffer b')"
    using assms(4) n length_concat_uniform [OF inv(2)] length_concat_uniform [OF inv(4)]
    by (simp add: contents_def)
  then show "buffer b = buffer b'"
    using n inv(2,4) by (intro concat_injective) (auto simp: uniform_def set_zip)
qed

text \<open>
  Claim C22: \<open>Write\<close> on a usable buffer always returns, reports every byte as written, appends
  exactly those bytes to the contents and keeps the buffer well-formed and usable.
\<close>

theorem Write_appends:
  assumes "buf_inv b" "lck b"
  shows "\<exists>b'. Write b p = Some (length p, b') \<and> contents b' = contents b @ p \<and> buf_inv b' \<and>
    lck b' \<and> Size b' = Size b + int (length p)"
  using Write_returns [OF assms, of p] assms by (auto simp: Size_contents)

theorem Write_appends_witness:
  "\<exists>b'. Write NewBuffer [1, 2, 3] = Some (3, b') \<and> contents b' = [1, 2, 3] \<and> buf_inv b' \<and> lck b' \<and>
    Size b' = 3"
  using Write_appends [of NewBuffer "[1, 2, 3]"] by (simp add: Size_contents eval_nat_numeral)

text \<open>
  Claim C27: how a byte sequence is cut into \<open>Write\<close> calls leaves no trace: two call sequences
  that write the same bytes end with the same chunks, the same fill of the array and the same
  \<open>Size\<close>.
\<close>

theorem writes_canonical:
  assumes "buf_inv b" "lck b" "concat ps = concat qs"
  shows "\<exists>b1 b2. writeAll b ps = Some b1 \<and> writeAll b qs = Some b2 \<and>
    contents b1 = contents b @ concat ps \<and> buffer b1 = buffer b2 \<and> bytesi b1 = bytesi b2 \<and>
    Size b1 = Size b2"
proof -
  from writeAll_returns [OF assms(1,2)] obtain b1 where
    1: "writeAll b ps = Some b1" "contents b1 = contents b @ concat ps" "buf_inv b1" "same_setup b b1" by blast
  from writeAll_returns [OF assms(1,2)] obtain b2 where
    2: "writeAll b qs = Some b2" "contents b2 = contents b @ concat qs" "buf_inv b2" "same_setup b b2" by blast
  have "length (bytes b2) = length (bytes b1)" using 1(4) 2(4) by (simp add: same_setup_def)
  from contents_canonical [OF 1(3) 2(3) this] 1 2 assms(3) show ?thesis
    by (auto simp: Size_contents)
qed

theorem writes_canonical_witness:
  "\<exists>b1 b2. writeAll NewBuffer [[1], [2, 3]] = Some b1 \<and> writeAll NewBuffer [[1, 2], [], [3]] = Some b2 \<and>
    contents b1 = [1, 2, 3] \<and> buffer b1 = buffer b2 \<and> bytesi b1 = bytesi b2 \<and> Size b1 = Size b2"
  using writes_canonical [of NewBuffer "[[1], [2, 3]]" "[[1, 2], [], [3]]"] by simp

text \<open>
  The limit.  With a limit set, a write adds its length to the running count; once
  the count reaches the limit the callback decides: the count restarts when it answers true,
  otherwise (or without a callback) the limit is switched off.  The bytes themselves are stored
  in every case.
\<close>

lemma Write_limit:
  assumes "buf_inv b" "lck b" "p \<noteq> []" "MaxLenToWrite b > 0"
  defines "sofar \<equiv> max 0 (maxwrttnl b) + int (length p)"
  shows "\<exists>b'. Write b p = Some (length p, b') \<and> contents b' = contents b @ p \<and>
    (if sofar < MaxLenToWrite b then maxwrttnl b' = sofar \<and> MaxLenToWrite b' = MaxLenToWrite b
     else maxwrttnl b' = - 1 \<and>
       MaxLenToWrite b' = (if \<exists>f. OnMaxWritten b = Some f \<and> f sofar then MaxLenToWrite b else - 1))"
proof -
  from writeLoop_returns [OF assms(1), of 0 p] obtain b1 where b1:
    "writeLoop b (length p) p 0 = Some (length p, b1)" "contents b1 = contents b @ p"
    "same_setup b b1" "MaxLenToWrite b1 = MaxLenToWrite b" "maxwrttnl b1 = counted b (length p)" by auto
  have "counted b (length p) = sofar"
    using assms(3,4) by (cases "maxwrttnl b < 0") (auto simp: counted_def sofar_def)
  then have "maxwrttnl b1 = sofar" using b1 by simp
  moreover have "Write b p = Some (length p, wrapupWrite b1)"
    using b1(1) assms(2,3) by (simp add: Write_def writeBytes_def wrapupWrite_id wrapupWrite_within_limit)
  moreover have "OnMaxWritten b1 = OnMaxWritten b" using b1(3) by (simp add: same_setup_def)
  ultimately show ?thesis
    using b1(2,4) assms(4)
    by (intro exI [of _ "wrapupWrite b1"])
       (cases "OnMaxWritten b"; simp; simp add: wrapupWrite_def)
qed

text \<open>
  \<open>Clone\<close> yields an equal, independent buffer; with \<open>clear\<close> set it moves the contents
  and leaves the original empty, otherwise the original keeps them.
\<close>

lemma Clone_copies:
  assumes "buf_inv b" "length (bytes b) = 8192" "lck b"
  shows "contents (fst (Clone c b)) = contents b \<and> buf_inv (fst (Clone c b)) \<and>
    Size (fst (Clone c b)) = Size b \<and> contents (snd (Clone c b)) = (if c then [] else contents b)"
  using Clone_contents [OF assms] assms(1) by (simp add: Size_contents)

text \<open>
  A closed buffer rejects data loudly: any non-empty \<open>Write\<close> after \<open>Close\<close>
  panics on the released lock, while a second \<open>Close\<close> changes nothing.
\<close>

lemma closed_rejects:
  assumes "p \<noteq> []"
  shows "Write (Close f b) p = None \<and> Close g (Close f b) = Close f b"
  using Close_unlocked [of f b] assms by (simp add: Write_def Close_def)

end
