(* ===== verification/BufferOutput.thy ===== *)
theory BufferOutput
  imports Buffer
begin

text \<open>
  Pouring a buffer, or a byte range of it, into a writer: \<open>internalBufferWriteToOffSet\<close>,
  \<open>WriteSubOffsetTo\<close> and \<open>WriteTo\<close> of \<open>src/ioext/buffer.go\<close>, and \<open>LastByte\<close>.  The lemmas hold
  for any lossless writer (locale \<open>byte_sink\<close>), in particular for another buffer.
\<close>

section \<open>The range writer\<close>

text \<open>The closure \<open>wrtbst\<close>: one call of the writer, adding to the running count.\<close>

definition wrtbst :: "'s put \<Rightarrow> 's \<times> int \<Rightarrow> byte list \<Rightarrow> ('s \<times> int \<times> go_err option) option" where
  "wrtbst put sn p = do { (wn, e, s') \<leftarrow> put (fst sn) p; Some (s', snd sn + int wn, e) }"

text \<open>
  The loop over the full chunks.  \<open>Inl\<close> is one of the early returns of the source, \<open>Inr\<close> the
  loop running to its end.
\<close>

fun chunkLoop :: "'s put \<Rightarrow> nat \<Rightarrow> int \<Rightarrow> int \<Rightarrow> nat \<Rightarrow> byte list list \<Rightarrow> 's \<times> int \<Rightarrow>
    (('s \<times> int \<times> go_err option) + ('s \<times> int)) option" where
  "chunkLoop put l stroffset endoffset btsn [] sn = Some (Inr sn)"
| "chunkLoop put l stroffset endoffset btsn (bts # cs) sn =
    (let btnbufoffset = int (l * btsn); btnbuffoffsetlen = int l * int (btsn + 1) in
     if btnbufoffset < endoffset then
       (if stroffset \<ge> btnbufoffset then
          (if stroffset < btnbufoffset + btnbuffoffsetlen then
             (if endoffset \<le> btnbuffoffsetlen then
                do { seg \<leftarrow> go_slice bts (stroffset - btnbufoffset) (endoffset - btnbufoffset);
                     r \<leftarrow> wrtbst put sn seg; Some (Inl r) }
              else
                do { seg \<leftarrow> go_slice bts (stroffset - btnbufoffset) (int (length bts));
                     (s', n', err) \<leftarrow> wrtbst put sn seg;
                     if err \<noteq> None then Some (Inl (s', n', err))
                     else chunkLoop put l stroffset endoffset (btsn + 1) cs (s', n') })
           else Some (Inl (fst sn, snd sn, None)))
        else
          (if endoffset \<le> btnbuffoffsetlen then
             do { seg \<leftarrow> go_slice bts 0 (endoffset - btnbufoffset);
                  r \<leftarrow> wrtbst put sn seg; Some (Inl r) }
           else
             do { (s', n', err) \<leftarrow> wrtbst put sn bts;
                  if err \<noteq> None then Some (Inl (s', n', err))
                  else chunkLoop put l stroffset endoffset (btsn + 1) cs (s', n') }))
     else Some (Inl (fst sn, snd sn, None)))"

text \<open>The part after the loop: the bytes of the chunk still being filled.\<close>

definition tailPart :: "'s put \<Rightarrow> Buffer \<Rightarrow> int \<Rightarrow> int \<Rightarrow> 's \<times> int \<Rightarrow>
    ('s \<times> int \<times> go_err option) option" where
  "tailPart put b stroffset endoffset sn =
    (if 0 < bytesi b then
       (let bts = take (bytesi b) (bytes b);
            btnbufoffset = (if 0 < length (buffer b)
                            then int (length (buffer b) * length (hd (buffer b))) else 0);
            btnbuffoffsetlen = btnbufoffset + int (bytesi b) in
        if btnbufoffset < endoffset then
          (if stroffset \<ge> btnbufoffset then
             (if stroffset < btnbufoffset + btnbuffoffsetlen then
                (if endoffset \<le> btnbuffoffsetlen then
                   do { seg \<leftarrow> go_slice bts (stroffset - btnbufoffset) (endoffset - btnbufoffset);
                        wrtbst put sn seg }
                 else
                   do { seg \<leftarrow> go_slice bts (stroffset - btnbufoffset) (int (length bts));
                        wrtbst put sn seg })
              else Some (fst sn, snd sn, None))
           else
             (if endoffset \<le> btnbuffoffsetlen then
                do { seg \<leftarrow> go_slice bts 0 (endoffset - btnbufoffset); wrtbst put sn seg }
              else wrtbst put sn bts))
        else Some (fst sn, snd sn, None))
     else Some (fst sn, snd sn, None))"

definition internalBufferWriteToOffSet ::
  "Buffer \<Rightarrow> 's put \<Rightarrow> 's \<Rightarrow> int \<Rightarrow> int \<Rightarrow> int \<Rightarrow> ('s \<times> int \<times> go_err option) option" where
  "internalBufferWriteToOffSet b put s stroffset endoffset maxoffset =
    (if stroffset \<ge> 0 \<and> stroffset < endoffset \<and> maxoffset > 0 \<and> maxoffset \<le> Size b then
       do {
         r \<leftarrow> chunkLoop put (if buffer b = [] then 0 else length (hd (buffer b)))
                stroffset endoffset 0 (buffer b) (s, 0);
         case r of Inl ret \<Rightarrow> Some ret | Inr sn \<Rightarrow> tailPart put b stroffset endoffset sn
       }
     else Some (s, 0, None))"

definition WriteSubOffsetTo :: "Buffer \<Rightarrow> 's put \<Rightarrow> 's \<Rightarrow> int list \<Rightarrow> ('s \<times> int \<times> go_err option) option" where
  "WriteSubOffsetTo b put s offsets =
    (if Size b > 0 \<and> 0 < length offsets then
       internalBufferWriteToOffSet b put s (offsets ! 0)
         (if length offsets = 1 then Size b else offsets ! 1) (Size b)
     else Some (s, 0, None))"

definition WriteTo :: "Buffer \<Rightarrow> 's put \<Rightarrow> 's \<Rightarrow> ('s \<times> int \<times> go_err option) option" where
  "WriteTo b put s =
    (if Size b > 0 then internalBufferWriteToOffSet b put s 0 (Size b) (Size b)
     else Some (s, 0, None))"

section \<open>What reaches the writer\<close>

lemma nat_less_offset: "nat (e - (int a + int c)) = nat e - (a + c)"
  by arith

context byte_sink
begin

lemma reported_Nil: "reported [] = 0"
  using reported_append [of "[]" "[]"] by simp

text \<open>The writer after receiving \<open>p\<close>: \<open>p\<close> appended, and ready for whatever was to follow.\<close>

definition received :: "'s \<Rightarrow> byte list \<Rightarrow> 's \<Rightarrow> bool" where
  "received s p s' \<longleftrightarrow> sunk s' = sunk s @ p \<and> (\<forall>q. accepts s (p @ q) \<longrightarrow> accepts s' q)"

lemma wrtbst_received:
  assumes "accepts s (p @ q)"
  obtains s' where "wrtbst put (s, n) p = Some (s', n + reported p, None)" "received s p s'"
proof -
  from put_appends [OF assms] obtain s' m where
    s': "put s p = Some (m, None, s')" "int m = reported p" "sunk s' = sunk s @ p"
    by blast
  then have "received s p s'"
    using put_appends [of s p] by (fastforce simp: received_def)
  with s' show thesis
    by (intro that [of s']) (auto simp: wrtbst_def)
qed

lemma received_Nil: "received s [] s"
  by (simp add: received_def)

lemma received_append: "received s p s' \<Longrightarrow> received s' q s'' \<Longrightarrow> received s (p @ q) s''"
  by (auto simp: received_def)

lemma received_accepts: "received s p s' \<Longrightarrow> accepts s (p @ q) \<Longrightarrow> accepts s' q"
  by (simp add: received_def)

text \<open>The chunks behind the start offset are written whole, the last one up to the end.\<close>

lemma chunkLoop_behind:
  assumes "uniform l cs" "0 < l" "0 \<le> str" "str < int l" "0 < k" "int (l * k) < e"
    and "accepts s (take (nat (e - int (l * k))) (concat cs) @ q)"
  shows "\<exists>s' seg. seg = take (nat (e - int (l * k))) (concat cs) \<and> received s seg s' \<and>
    chunkLoop put l str e k cs (s, n) =
      Some (if cs \<noteq> [] \<and> e \<le> int (l * (k + length cs))
            then Inl (s', n + reported seg, None) else Inr (s', n + reported seg))"
  using assms
proof (induction cs arbitrary: k s n)
  case Nil
  then show ?case by (auto simp: reported_Nil intro: received_Nil)
next
  case (Cons c cs)
  have "l \<le> l * k" using Cons.prems(5) by simp
  then have str: "str < int (l * k)" using Cons.prems(4) by linarith
  show ?case
  proof (cases "e \<le> int l * int (k + 1)")
    case True
    let ?seg = "take (nat (e - int (l * k))) c"
    have sl: "go_slice c 0 (e - int (l * k)) = Some ?seg"
      using True Cons.prems by (simp add: slice_SomeI algebra_simps)
    have ln: "nat (e - int (l * k)) \<le> length c"
      using True Cons.prems by (simp add: algebra_simps nat_le_iff)
    then have "accepts s (?seg @ q)" using Cons.prems(7) by simp
    then obtain s' where s': "wrtbst put (s, n) ?seg = Some (s', n + reported ?seg, None)"
      "received s ?seg s'" by (rule wrtbst_received)
    have "l * (k + 1) \<le> l * (k + length (c # cs))" by (intro mult_le_mono2) simp
    then have "e \<le> int (l * (k + length (c # cs)))"
      using True by (metis of_nat_le_iff of_nat_mult order_trans)
    with sl s' ln str True Cons.prems(6) show ?thesis
      by (intro exI [of _ s']) (simp add: Let_def algebra_simps)
  next
    case False
    have u: "uniform l cs" "length c = l" and e1: "int (l * (k + 1)) < e"
      using Cons.prems(1) False by (auto simp: algebra_simps)
    let ?seg = "take (nat (e - int (l * (k + 1)))) (concat cs)"
    have cut: "nat (e - int (l * k)) = length c + nat (e - int (l * (k + 1)))"
      using e1 u by (simp add: algebra_simps nat_add_distrib [symmetric])
    have whole: "take (nat (e - int (l * k))) (concat (c # cs)) = c @ ?seg"
      unfolding cut by simp
    have k1: "0 < k + 1" by simp
    have a: "accepts s (c @ (?seg @ q))" using Cons.prems(7) unfolding whole by simp
    then obtain s1 where s1: "wrtbst put (s, n) c = Some (s1, n + reported c, None)"
      "received s c s1" by (rule wrtbst_received)
    obtain s' where s': "received s1 ?seg s'"
      "chunkLoop put l str e (k + 1) cs (s1, n + reported c) =
        Some (if cs \<noteq> [] \<and> e \<le> int (l * (k + 1 + length cs))
            then Inl (s', n + reported c + reported ?seg, None)
            else Inr (s', n + reported c + reported ?seg))"
      using Cons.IH [OF u(1) Cons.prems(2-4) k1 e1 received_accepts [OF s1(2) a], of "n + reported c"]
      by blast
    have step: "chunkLoop put l str e k (c # cs) (s, n) =
        chunkLoop put l str e (k + 1) cs (s1, n + reported c)"
      using False str s1 Cons.prems(6) by (simp add: Let_def algebra_simps)
    have len: "k + length (c # cs) = k + 1 + length cs"
      "n + reported (c @ ?seg) = n + reported c + reported ?seg"
      by (simp_all add: reported_append)
    have nil: "cs = [] \<Longrightarrow> \<not> e \<le> int (l * (k + 1 + length cs))"
      using e1 by simp
    have "chunkLoop put l str e k (c # cs) (s, n) =
      Some (if c # cs \<noteq> [] \<and> e \<le> int (l * (k + length (c # cs)))
            then Inl (s', n + reported (c @ ?seg), None) else Inr (s', n + reported (c @ ?seg)))"
      unfolding step s'(2) len using nil by (cases "cs = []") simp_all
    with received_append [OF s1(2) s'(1)] show ?thesis
      unfolding whole by blast
  qed
qed

text \<open>The bytes still in the array.\<close>

abbreviation tail_of :: "Buffer \<Rightarrow> byte list" where
  "tail_of b \<equiv> take (bytesi b) (bytes b)"

lemma tailPart_only:
  assumes "buf_inv b" "0 \<le> str" "str < e" "buffer b = []"
    and "accepts s (range_of (contents b) str e @ q)"
  shows "\<exists>s'. received s (range_of (contents b) str e) s' \<and>
    tailPart put b str e (s, n) = Some (s', n + reported (range_of (contents b) str e), None)"
proof -
  let ?t = "tail_of b" and ?seg = "range_of (contents b) str e"
  have c: "contents b = ?t" "length ?t = bytesi b"
    using assms by (auto simp: contents_def buf_inv_def)
  obtain s' where s': "wrtbst put (s, n) ?seg = Some (s', n + reported ?seg, None)"
    "received s ?seg s'" using assms(5) by (rule wrtbst_received)
  show ?thesis
  proof (cases "str < int (bytesi b)")
    case False
    then have "?seg = []" using c assms by (simp add: range_of_def)
    with False assms show ?thesis
      by (auto simp: tailPart_def Let_def reported_Nil intro: received_Nil)
  next
    case True
    have "go_slice ?t str (if e \<le> int (bytesi b) then e else int (bytesi b)) = Some ?seg"
      using True assms c
      by (auto simp: slice_SomeI range_of_def nat_diff_distrib)
    with True s' c(2) assms show ?thesis
      by (intro exI [of _ s']) (auto simp: tailPart_def Let_def split: if_splits)
  qed
qed

lemma tailPart_behind:
  assumes "buf_inv b" "buffer b \<noteq> []" "str < int (length (bytes b))"
    and "int (length (bytes b) * length (buffer b)) < e"
    and "accepts s (take (nat (e - int (length (bytes b) * length (buffer b)))) (tail_of b) @ q)"
  shows "\<exists>s' seg. seg = take (nat (e - int (length (bytes b) * length (buffer b)))) (tail_of b) \<and>
    received s seg s' \<and> tailPart put b str e (s, n) = Some (s', n + reported seg, None)"
proof (cases "bytesi b = 0")
  case True
  with assms show ?thesis by (auto simp: tailPart_def reported_Nil intro: received_Nil)
next
  case False
  let ?B = "int (length (bytes b) * length (buffer b))"
  let ?seg = "take (nat (e - ?B)) (tail_of b)"
  have l: "length (hd (buffer b)) = length (bytes b)" "length (tail_of b) = bytesi b"
    using assms by (auto simp: buf_inv_def uniform_hd)
  have "length (bytes b) * 1 \<le> length (bytes b) * length (buffer b)"
    using assms(2) by (intro mult_le_mono2) (simp add: Suc_leI)
  then have str: "str < ?B" using assms(3) by linarith
  obtain s' where s': "wrtbst put (s, n) ?seg = Some (s', n + reported ?seg, None)"
    "received s ?seg s'" using assms(5) by (rule wrtbst_received)
  have "e \<le> ?B + int (bytesi b) \<Longrightarrow> go_slice (tail_of b) 0 (e - ?B) = Some ?seg"
    using assms(4) l by (simp add: slice_SomeI)
  moreover have "\<not> e \<le> ?B + int (bytesi b) \<Longrightarrow> ?seg = tail_of b" by simp
  ultimately show ?thesis
    using False str s' assms(2,4) l
    by (intro exI [of _ s'])
       (cases "e \<le> ?B + int (bytesi b)"; simp add: tailPart_def Let_def mult.commute)
qed

text \<open>A range within the first chunk is one write of a slice of that chunk.\<close>

lemma range_in_first:
  assumes inv: "buf_inv b" and b: "buffer b = c # cs"
    and r: "0 \<le> str" "str < e" "e \<le> int (length (bytes b))"
    and mx: "0 < mx" "mx \<le> Size b" and a: "accepts s (range_of (contents b) str e @ q)"
  shows "\<exists>s'. received s (range_of (contents b) str e) s' \<and>
    internalBufferWriteToOffSet b put s str e mx =
      Some (s', reported (range_of (contents b) str e), None)"
proof -
  let ?seg = "range_of (contents b) str e"
  have l: "length c = length (bytes b)" using inv b by (simp add: buf_inv_def)
  then have "?seg = take (nat e - nat str) (drop (nat str) c)"
    using r b by (simp add: range_of_def contents_def nat_diff_distrib)
  then have "go_slice c str e = Some ?seg" using r l by (simp add: slice_SomeI)
  moreover obtain s' where "wrtbst put (s, 0) ?seg = Some (s', 0 + reported ?seg, None)"
    "received s ?seg s'" using a by (rule wrtbst_received)
  ultimately show ?thesis
    using r mx b l
    by (intro exI [of _ s']) (simp add: internalBufferWriteToOffSet_def Let_def)
qed

lemma run_loop_then_tail:
  assumes "buffer b \<noteq> []" "uniform (length (bytes b)) (buffer b)"
    and "0 \<le> str" "str < e" "0 < mx" "mx \<le> Size b"
  shows "internalBufferWriteToOffSet b put s str e mx =
    (case chunkLoop put (length (bytes b)) str e 0 (buffer b) (s, 0) of None \<Rightarrow> None
     | Some (Inl ret) \<Rightarrow> Some ret | Some (Inr sn) \<Rightarrow> tailPart put b str e sn)"
  using assms uniform_hd [OF assms(2,1)]
  by (simp add: internalBufferWriteToOffSet_def bind_eq_None_conv del: chunkLoop.simps
           split: option.split sum.split)

text \<open>A range that starts in the first chunk and ends behind it.\<close>

lemma range_beyond_first:
  assumes inv: "buf_inv b" and b: "buffer b = c # cs"
    and r: "0 \<le> str" "str < int (length (bytes b))" "int (length (bytes b)) < e"
    and mx: "0 < mx" "mx \<le> Size b" and a: "accepts s (range_of (contents b) str e @ q)"
  shows "\<exists>s'. received s (range_of (contents b) str e) s' \<and>
    internalBufferWriteToOffSet b put s str e mx =
      Some (s', reported (range_of (contents b) str e), None)"
proof -
  let ?L = "length (bytes b)" and ?d = "drop (nat str) c"
  define seg where "seg = take (nat (e - int (?L * 1))) (concat cs)"
  define seg3 where "seg3 = take (nat (e - int (?L * length (buffer b)))) (tail_of b)"
  have u: "length c = ?L" "uniform ?L cs" "0 < ?L" "uniform ?L (buffer b)"
    using inv b by (auto simp: buf_inv_def)
  have lcs: "int (?L * length (buffer b)) = int ?L + int (length (concat cs))"
    using length_concat_uniform [OF u(2)] b by simp
  have rng: "range_of (contents b) str e = ?d @ seg @ seg3"
    using r u(1) unfolding seg_def seg3_def lcs
    by (simp add: range_of_def contents_def b nat_diff_distrib nat_less_offset)
  have a1: "accepts s (?d @ (seg @ seg3 @ q))" using a unfolding rng by simp
  then obtain s1 where s1: "wrtbst put (s, 0) ?d = Some (s1, 0 + reported ?d, None)"
    "received s ?d s1" by (rule wrtbst_received)
  have a2: "accepts s1 (seg @ (seg3 @ q))" using received_accepts [OF s1(2) a1] .
  obtain s2 where s2: "received s1 seg s2"
    "chunkLoop put ?L str e 1 cs (s1, reported ?d) =
        Some (if cs \<noteq> [] \<and> e \<le> int (?L * (1 + length cs))
          then Inl (s2, reported ?d + reported seg, None)
          else Inr (s2, reported ?d + reported seg))"
    using chunkLoop_behind [OF u(2,3) r(1,2) _ _ a2 [unfolded seg_def], of "reported ?d"] r(3)
    by (auto simp: seg_def)
  have loop: "chunkLoop put ?L str e 0 (buffer b) (s, 0) = chunkLoop put ?L str e 1 cs (s1, reported ?d)"
    using r u(1) s1 b by (simp add: Let_def slice_SomeI)
  have len: "int (?L * (1 + length cs)) = int (?L * length (buffer b))" using b by simp
  note run = run_loop_then_tail [OF _ u(4) r(1) _ mx, of e s]
  have a3: "accepts s2 (seg3 @ q)" using received_accepts [OF s2(1) a2] .
  show ?thesis
  proof (cases "cs \<noteq> [] \<and> e \<le> int (?L * (1 + length cs))")
    case True
    then have "seg3 = []" unfolding seg3_def len by simp
    moreover have "internalBufferWriteToOffSet b put s str e mx = Some (s2, reported ?d + reported seg, None)"
      using b r run unfolding loop s2(2) if_P [OF True] by simp
    ultimately show ?thesis
      using received_append [OF s1(2) s2(1)] unfolding rng by (auto simp: reported_append reported_Nil)
  next
    case False
    have e2: "int (?L * length (buffer b)) < e"
      using False r(3) b by (cases "cs = []") auto
    then obtain s3 where s3: "received s2 seg3 s3"
      "tailPart put b str e (s2, reported ?d + reported seg) =
        Some (s3, reported ?d + reported seg + reported seg3, None)"
      using tailPart_behind [OF inv _ r(2) e2 a3 [unfolded seg3_def]] b by (auto simp: seg3_def)
    have "internalBufferWriteToOffSet b put s str e mx =
        Some (s3, reported ?d + reported seg + reported seg3, None)"
      using b r run s3(2) unfolding loop s2(2) if_not_P [OF False] by simp
    then show ?thesis
      using received_append [OF s1(2) received_append [OF s2(1) s3(1)]] unfolding rng
      by (auto simp: reported_append)
  qed
qed

text \<open>A range whose start lies in the first chunk arrives exactly.\<close>

lemma range_received:
  assumes "buf_inv b" "0 \<le> str" "str < e" "0 < mx" "mx \<le> Size b"
    and "buffer b = [] \<or> str < int (length (bytes b))"
    and "accepts s (range_of (contents b) str e @ q)"
  shows "\<exists>s'. received s (range_of (contents b) str e) s' \<and>
    internalBufferWriteToOffSet b put s str e mx =
      Some (s', reported (range_of (contents b) str e), None)"
proof (cases "buffer b")
  case Nil
  from tailPart_only [OF assms(1-3) Nil assms(7), of 0] show ?thesis
    using assms Nil by (auto simp: internalBufferWriteToOffSet_def)
next
  case (Cons c cs)
  then show ?thesis
    using assms range_in_first [OF assms(1) Cons] range_beyond_first [OF assms(1) Cons]
    by (cases "e \<le> int (length (bytes b))") auto
qed

end

text \<open>
  A range that starts behind the first chunk is lost: already the first round of the loop sees
  that the offset is not in its chunk and returns.
\<close>

lemma range_behind_lost:
  assumes "buf_inv b" "buffer b \<noteq> []" "int (length (bytes b)) \<le> str"
  shows "internalBufferWriteToOffSet b put s str e mx = Some (s, 0, None)"
proof -
  obtain c cs where b: "buffer b = c # cs" using assms(2) by (cases "buffer b") auto
  then have "length c = length (bytes b)" using assms(1) by (simp add: buf_inv_def)
  with b assms(3) show ?thesis
    by (simp add: internalBufferWriteToOffSet_def Let_def)
qed

text \<open>Pouring one buffer into another.\<close>

lemma WriteTo_usable:
  assumes "usable m b" "usable n t"
  shows "\<exists>t'. WriteTo b bufPut t = Some (t', Size b, None) \<and> contents t' = contents t @ contents b \<and> usable n t'"
proof (cases "Size b > 0")
  case False
  then show ?thesis using assms by (auto simp: WriteTo_def Size_contents usable_def)
next
  case True
  have b: "buf_inv b" "0 < length (bytes b)" "range_of (contents b) 0 (Size b) = contents b"
    using assms by (auto simp: usable_def range_of_def Size_contents buf_inv_def)
  from usablesink.range_received [OF b(1) order_refl True True order_refl, where s = t and n = n] True assms b
  show ?thesis by (auto simp: WriteTo_def usablesink.received_def Size_contents)
qed

section \<open>Properties\<close>

text \<open>
  Claim C26: \<open>WriteTo\<close> pours the whole contents, in order and nothing else, into another
  buffer, whatever the chunking of either, and reports \<open>Size\<close> bytes.
\<close>

theorem WriteTo_copies:
  assumes "buf_inv b" "buf_ready t"
  shows "\<exists>t'. WriteTo b bufPut t = Some (t', Size b, None) \<and> contents t' = contents t @ contents b \<and>
    buf_ready t'"
proof (cases "Size b > 0")
  case False
  then show ?thesis using assms by (auto simp: WriteTo_def Size_contents)
next
  case True
  have "range_of (contents b) 0 (Size b) = contents b" "0 < length (bytes b)"
    using assms by (auto simp: range_of_def Size_contents buf_inv_def)
  with bufsink.range_received [OF assms(1) order_refl True True order_refl, where s = t] True assms
  show ?thesis
    by (auto simp: WriteTo_def bufsink.received_def Size_contents)
qed

theorem WriteTo_copies_witness:
  "\<exists>t'. WriteTo (NewBuffer\<lparr>bytes := 5 # 6 # replicate 8190 0, bytesi := 2\<rparr>) bufPut NewBuffer =
      Some (t', 2, None) \<and> contents t' = [5, 6] \<and> buf_ready t'"
  using WriteTo_copies [of "NewBuffer\<lparr>bytes := 5 # 6 # replicate 8190 0, bytesi := 2\<rparr>" NewBuffer]
  by (simp add: buf_ready_def buf_inv_def contents_def NewBuffer_def Size_def Empty_def)

text \<open>
  \<open>WriteSubOffsetTo\<close> delivers exactly the requested byte range and its length,
  for every range that starts within the first chunk (or in a buffer without full chunks), no
  matter how many chunks it spans.
\<close>

lemma WriteSubOffsetTo_range:
  assumes "buf_inv b" "0 \<le> lo" "lo < hi" "hi \<le> Size b"
    and "buffer b = [] \<or> lo < int (length (bytes b))"
  shows "WriteSubOffsetTo b listPut s [lo, hi] =
    Some (s @ take (nat (hi - lo)) (drop (nat lo) (contents b)), hi - lo, None)"
proof -
  have "0 < Size b" using assms by simp
  from listsink.range_received [OF assms(1-3) this order_refl assms(5), where s = s]
  obtain s' where "s' = s @ range_of (contents b) lo hi" "internalBufferWriteToOffSet b listPut s lo hi (Size b) =
      Some (s', int (length (range_of (contents b) lo hi)), None)"
    by (auto simp: listsink.received_def)
  then show ?thesis
    using assms \<open>0 < Size b\<close> by (simp add: WriteSubOffsetTo_def range_of_def Size_contents)
qed

text \<open>
  Defect: a requested range that starts behind the first chunk is dropped without an
  error.  Nothing reaches the writer although the range is not empty.
\<close>

lemma WriteSubOffsetTo_loses:
  assumes "buf_inv b" "buffer b \<noteq> []" "int (length (bytes b)) \<le> lo" "lo < hi" "hi \<le> Size b"
  shows "WriteSubOffsetTo b put s [lo, hi] = Some (s, 0, None) \<and> range_of (contents b) lo hi \<noteq> []"
proof -
  have "nat lo < length (contents b)" using assms Size_contents [OF assms(1)] by linarith
  then have "range_of (contents b) lo hi \<noteq> []" using assms(4) by (simp add: range_of_def)
  with range_behind_lost [OF assms(1-3)] assms show ?thesis
    by (simp add: WriteSubOffsetTo_def)
qed

end
