(* ===== verification/Runes.thy ===== *)
theory Runes
  imports Prelude
begin

text \<open>
  Runes and their UTF-8 encoding, as \<open>src/ioext/adhoc.go\<close> uses them: \<open>IsSpace\<close>, \<open>IsTxtPar\<close>,
  \<open>RunesToUTF8\<close> and \<open>RunesToBytes\<close>, over the functions \<open>utf8.RuneLen\<close>, \<open>utf8.EncodeRune\<close> and
  \<open>utf8.DecodeRune\<close> and \<open>unicode.IsSpace\<close> of Go's standard library.
\<close>

section \<open>The standard library's UTF-8\<close>

definition RuneError :: rune where
  "RuneError = 65533"

definition valid_rune :: "rune \<Rightarrow> bool" where
  "valid_rune r \<longleftrightarrow> (0 \<le> r \<and> r < 55296) \<or> (57343 < r \<and> r \<le> 1114111)"

definition RuneLen :: "rune \<Rightarrow> int" where
  "RuneLen r =
     (if r < 0 then - 1
      else if r \<le> 127 then 1
      else if r \<le> 2047 then 2
      else if 55296 \<le> r \<and> r \<le> 57343 then - 1
      else if r \<le> 65535 then 3
      else if r \<le> 1114111 then 4 else - 1)"

text \<open>A value that is no code point is encoded as \<open>RuneError\<close>.\<close>

definition utf8_bytes :: "rune \<Rightarrow> byte list" where
  "utf8_bytes r =
     (if r \<le> 127 then [word_of_int r]
      else if r \<le> 2047 then [word_of_int (192 + r div 64), word_of_int (128 + r mod 64)]
      else if r \<le> 65535 then
        [word_of_int (224 + r div 4096), word_of_int (128 + r div 64 mod 64),
         word_of_int (128 + r mod 64)]
      else
        [word_of_int (240 + r div 262144), word_of_int (128 + r div 4096 mod 64),
         word_of_int (128 + r div 64 mod 64), word_of_int (128 + r mod 64)])"

definition EncodeRune :: "rune \<Rightarrow> byte list" where
  "EncodeRune r = utf8_bytes (if valid_rune r then r else RuneError)"

definition is_cont :: "byte \<Rightarrow> bool" where
  "is_cont b \<longleftrightarrow> 128 \<le> uint b \<and> uint b \<le> 191"

text \<open>The first code point of a byte sequence and its width; \<open>(RuneError, 1)\<close> if there is none.\<close>

definition DecodeRune :: "byte list \<Rightarrow> rune \<times> nat" where
  "DecodeRune p =
     (case p of [] \<Rightarrow> (RuneError, 0)
      | b0 # q \<Rightarrow> let x = uint b0 in
        if x < 128 then (x, 1)
        else if 194 \<le> x \<and> x \<le> 223 then
          (case q of b1 # _ \<Rightarrow>
             if is_cont b1 then ((x - 192) * 64 + (uint b1 - 128), 2) else (RuneError, 1)
           | _ \<Rightarrow> (RuneError, 1))
        else if 224 \<le> x \<and> x \<le> 239 then
          (case q of b1 # b2 # _ \<Rightarrow>
             if (if x = 224 then 160 else 128) \<le> uint b1 \<and> uint b1 \<le> (if x = 237 then 159 else 191) \<and>
                is_cont b2
             then ((x - 224) * 4096 + (uint b1 - 128) * 64 + (uint b2 - 128), 3) else (RuneError, 1)
           | _ \<Rightarrow> (RuneError, 1))
        else if 240 \<le> x \<and> x \<le> 244 then
          (case q of b1 # b2 # b3 # _ \<Rightarrow>
             if (if x = 240 then 144 else 128) \<le> uint b1 \<and> uint b1 \<le> (if x = 244 then 143 else 191) \<and>
                is_cont b2 \<and> is_cont b3
             then ((x - 240) * 262144 + (uint b1 - 128) * 4096 + (uint b2 - 128) * 64 + (uint b3 - 128), 4)
             else (RuneError, 1)
           | _ \<Rightarrow> (RuneError, 1))
        else (RuneError, 1))"

definition unicode_IsSpace :: "rune \<Rightarrow> bool" where
  "unicode_IsSpace r \<longleftrightarrow>
     (if r \<le> 255 then r \<in> {9, 10, 11, 12, 13, 32, 133, 160}
      else r = 5760 \<or> (8192 \<le> r \<and> r \<le> 8202) \<or> r \<in> {8232, 8233, 8239, 8287, 12288})"

text \<open>\<open>io.RuneReader\<close>: a rune, its size in bytes and an error; \<open>None\<close> is a reader that panics or never returns.\<close>

type_synonym rune_result = "rune \<times> int \<times> go_err option"

type_synonym 'i rune_reader = "'i \<Rightarrow> (rune_result \<times> 'i) option"

section \<open>The package's own helpers\<close>

definition IsSpace :: "rune \<Rightarrow> bool" where
  "IsSpace r \<longleftrightarrow> r \<in> {9, 10, 11, 12, 13, 32} \<or> (r > 128 \<and> unicode_IsSpace r)"

definition IsTxtPar :: "rune \<Rightarrow> bool" where
  "IsTxtPar r \<longleftrightarrow> r \<in> {39, 34, 96}"

text \<open>
  \<open>RunesToUTF8\<close> first adds up the lengths, then encodes every rune into the room that is left:
  \<open>make\<close> panics on a negative size, and an encoding that does not fit panics too.
\<close>

fun encodeInto :: "int \<Rightarrow> rune list \<Rightarrow> byte list option" where
  "encodeInto room [] = Some (replicate (nat room) 0)"
| "encodeInto room (r # rs) =
     (let e = EncodeRune r in
      if int (length e) \<le> room then map_option ((@) e) (encodeInto (room - int (length e)) rs)
      else None)"

definition RunesToUTF8 :: "rune list \<Rightarrow> byte list option" where
  "RunesToUTF8 rs =
     (let size = sum_list (map RuneLen rs) in
      if size < 0 then None else encodeInto size rs)"

definition RunesToBytes :: "rune list \<Rightarrow> (byte list \<times> nat) option" where
  "RunesToBytes rs = map_option (\<lambda>bs. (bs, length rs)) (RunesToUTF8 rs)"

section \<open>Encoding round trip\<close>

text \<open>The reference encoding, without the size computation.\<close>

definition encode :: "rune list \<Rightarrow> byte list" where
  "encode rs = concat (map EncodeRune rs)"

lemma encode_simps [simp]:
  "encode [] = []" "encode (r # rs) = EncodeRune r @ encode rs" "encode (xs @ ys) = encode xs @ encode ys"
  by (simp_all add: encode_def)

lemma EncodeRune_valid: "valid_rune r \<Longrightarrow> EncodeRune r = utf8_bytes r"
  by (simp add: EncodeRune_def)

lemma length_EncodeRune: "valid_rune r \<Longrightarrow> int (length (EncodeRune r)) = RuneLen r"
  by (auto simp: EncodeRune_valid utf8_bytes_def RuneLen_def valid_rune_def)

lemma EncodeRune_nonempty [simp]: "EncodeRune r \<noteq> []"
  by (simp add: EncodeRune_def utf8_bytes_def)

lemma length_EncodeRune_le: "length (EncodeRune r) \<le> 4"
  by (simp add: EncodeRune_def utf8_bytes_def)

lemma length_encode: "\<forall>r \<in> set rs. valid_rune r \<Longrightarrow> int (length (encode rs)) = sum_list (map RuneLen rs)"
  by (induction rs) (auto simp: length_EncodeRune)

lemma encodeInto_valid:
  "\<forall>r \<in> set rs. valid_rune r \<Longrightarrow> encodeInto (int (length (encode rs))) rs = Some (encode rs)"
  by (induction rs) (auto simp: Let_def)

lemma RunesToUTF8_valid: "\<forall>r \<in> set rs. valid_rune r \<Longrightarrow> RunesToUTF8 rs = Some (encode rs)"
  using encodeInto_valid [of rs] length_encode [of rs] by (simp add: RunesToUTF8_def)

lemma uint_byte: "0 \<le> x \<Longrightarrow> x < 256 \<Longrightarrow> uint (word_of_int x :: byte) = x"
  by (simp add: uint_word_of_int)

lemma DecodeRune_1: "0 \<le> r \<Longrightarrow> r \<le> 127 \<Longrightarrow> DecodeRune (utf8_bytes r @ q) = (r, 1)"
  by (simp add: DecodeRune_def utf8_bytes_def uint_byte)

text \<open>Decoding of two, three and four bytes, by the values of the bytes.\<close>

lemma decode_two:
  "uint b0 = 192 + a \<Longrightarrow> uint b1 = 128 + c \<Longrightarrow> 2 \<le> a \<Longrightarrow> a \<le> 31 \<Longrightarrow> 0 \<le> c \<Longrightarrow> c < 64 \<Longrightarrow>
   DecodeRune ([b0, b1] @ q) = (a * 64 + c, 2)"
  by (simp add: DecodeRune_def is_cont_def)

lemma decode_three:
  "uint b0 = 224 + a \<Longrightarrow> uint b1 = 128 + c \<Longrightarrow> uint b2 = 128 + d \<Longrightarrow> 0 \<le> a \<Longrightarrow> a \<le> 15 \<Longrightarrow>
   0 \<le> c \<Longrightarrow> c < 64 \<Longrightarrow> 0 \<le> d \<Longrightarrow> d < 64 \<Longrightarrow> a = 0 \<longrightarrow> 32 \<le> c \<Longrightarrow> a = 13 \<longrightarrow> c < 32 \<Longrightarrow>
   DecodeRune ([b0, b1, b2] @ q) = (a * 4096 + c * 64 + d, 3)"
  by (auto simp: DecodeRune_def is_cont_def)

lemma decode_four:
  "uint b0 = 240 + a \<Longrightarrow> uint b1 = 128 + c \<Longrightarrow> uint b2 = 128 + d \<Longrightarrow> uint b3 = 128 + e \<Longrightarrow>
   0 \<le> a \<Longrightarrow> a \<le> 4 \<Longrightarrow> 0 \<le> c \<Longrightarrow> c < 64 \<Longrightarrow> 0 \<le> d \<Longrightarrow> d < 64 \<Longrightarrow> 0 \<le> e \<Longrightarrow> e < 64 \<Longrightarrow>
   a = 0 \<longrightarrow> 16 \<le> c \<Longrightarrow> a = 4 \<longrightarrow> c < 16 \<Longrightarrow>
   DecodeRune ([b0, b1, b2, b3] @ q) = (a * 262144 + c * 4096 + d * 64 + e, 4)"
  by (auto simp: DecodeRune_def is_cont_def)

lemma split64: "(r::int) div 4096 * 4096 + r div 64 mod 64 * 64 + r mod 64 = r"
proof -
  have "r div 4096 = r div 64 div 64" using zdiv_zmult2_eq [of 64 r 64] by simp
  then have "r div 4096 * 64 + r div 64 mod 64 = r div 64" by simp
  then show ?thesis using div_mult_mod_eq [of r 64] by linarith
qed

lemma split4096: "(r::int) div 262144 * 262144 + r div 4096 mod 64 * 4096 = r div 4096 * 4096"
proof -
  have "r div 262144 = r div 4096 div 64" using zdiv_zmult2_eq [of 64 r 4096] by simp
  then have "r div 262144 * 64 + r div 4096 mod 64 = r div 4096" by simp
  then show ?thesis by linarith
qed

lemma DecodeRune_2:
  assumes "127 < r" "r \<le> 2047"
  shows "DecodeRune (utf8_bytes r @ q) = (r, 2)"
proof -
  have d: "2 \<le> r div 64" "r div 64 \<le> 31" "0 \<le> r mod 64" "r mod 64 < 64" "r div 64 * 64 + r mod 64 = r"
    using assms by auto
  have "DecodeRune ([word_of_int (192 + r div 64), word_of_int (128 + r mod 64)] @ q) =
      (r div 64 * 64 + r mod 64, 2)"
    using d by (intro decode_two uint_byte) auto
  moreover have "utf8_bytes r = [word_of_int (192 + r div 64), word_of_int (128 + r mod 64)]"
    using assms by (simp add: utf8_bytes_def)
  ultimately show ?thesis using d(5) by (simp only:)
qed

lemma DecodeRune_3:
  assumes "2047 < r" "r \<le> 65535" "valid_rune r"
  shows "DecodeRune (utf8_bytes r @ q) = (r, 3)"
proof -
  define a c e where "a = r div 4096" and "c = r div 64 mod 64" and "e = r mod 64"
  have d: "0 \<le> a" "a \<le> 15" "0 \<le> c" "c < 64" "0 \<le> e" "e < 64" "a * 4096 + c * 64 + e = r"
    using assms split64 [of r] unfolding a_def c_def e_def by auto
  have x: "a = 0 \<longrightarrow> 32 \<le> c" using assms(1) d by linarith
  have y: "a = 13 \<longrightarrow> c < 32" using assms(3) d unfolding valid_rune_def by linarith
  have "DecodeRune ([word_of_int (224 + a), word_of_int (128 + c), word_of_int (128 + e)] @ q) =
      (a * 4096 + c * 64 + e, 3)"
    using d x y by (intro decode_three uint_byte) auto
  moreover have "utf8_bytes r = [word_of_int (224 + a), word_of_int (128 + c), word_of_int (128 + e)]"
    using assms by (simp add: utf8_bytes_def a_def c_def e_def)
  ultimately show ?thesis using d(7) by (simp only:)
qed

lemma DecodeRune_4:
  assumes "65535 < r" "r \<le> 1114111"
  shows "DecodeRune (utf8_bytes r @ q) = (r, 4)"
proof -
  define a c d e where "a = r div 262144" and "c = r div 4096 mod 64" and "d = r div 64 mod 64"
    and "e = r mod 64"
  have b: "0 \<le> a" "a \<le> 4" "0 \<le> c" "c < 64" "0 \<le> d" "d < 64" "0 \<le> e" "e < 64"
    using assms unfolding a_def c_def d_def e_def by auto
  have v: "a * 262144 + c * 4096 + d * 64 + e = r"
    using split64 [of r] split4096 [of r] unfolding a_def c_def d_def e_def by linarith
  have x: "a = 0 \<longrightarrow> 16 \<le> c" using assms(1) b v by linarith
  have y: "a = 4 \<longrightarrow> c < 16" using assms(2) b v by linarith
  have "DecodeRune ([word_of_int (240 + a), word_of_int (128 + c), word_of_int (128 + d),
      word_of_int (128 + e)] @ q) = (a * 262144 + c * 4096 + d * 64 + e, 4)"
    using b x y by (intro decode_four uint_byte) auto
  moreover have "utf8_bytes r = [word_of_int (240 + a), word_of_int (128 + c), word_of_int (128 + d),
      word_of_int (128 + e)]"
    using assms by (simp add: utf8_bytes_def a_def c_def d_def e_def)
  ultimately show ?thesis using v by (simp only:)
qed

lemma DecodeRune_EncodeRune:
  assumes "valid_rune r"
  shows "DecodeRune (EncodeRune r @ q) = (r, length (EncodeRune r))"
proof -
  have l: "int (length (EncodeRune r)) = RuneLen r" using assms by (rule length_EncodeRune)
  consider "0 \<le> r \<and> r \<le> 127" | "127 < r \<and> r \<le> 2047" | "2047 < r \<and> r \<le> 65535" | "65535 < r \<and> r \<le> 1114111"
    using assms unfolding valid_rune_def by linarith
  then show ?thesis
    by cases (use assms l in \<open>auto simp: EncodeRune_valid DecodeRune_1 DecodeRune_2 DecodeRune_3
        DecodeRune_4 RuneLen_def valid_rune_def\<close>)
qed

text \<open>An encoding that is cut short is recognised as incomplete.\<close>

lemma decode_cut_lead:
  "DecodeRune (b0 # q) = (RuneError, 1)"
  if "194 \<le> uint b0" "uint b0 \<le> 244"
    "length q < (if uint b0 \<le> 223 then 1 else if uint b0 \<le> 239 then 2 else 3)"
proof -
  consider "q = []" | c where "q = [c]" | c d where "q = [c, d]" | c d e f where "q = c # d # e # f"
    by (metis neq_Nil_conv)
  then show ?thesis using that by cases (simp_all add: DecodeRune_def Let_def split: if_splits)
qed

lemma EncodeRune_lead:
  assumes "valid_rune r" "1 < length (EncodeRune r)"
  shows "\<exists>b0 t. EncodeRune r = b0 # t \<and> 194 \<le> uint b0 \<and> uint b0 \<le> 244 \<and>
    length t = (if uint b0 \<le> 223 then 1 else if uint b0 \<le> 239 then 2 else 3)"
proof -
  have len: "int (length (EncodeRune r)) = RuneLen r" using assms(1) by (rule length_EncodeRune)
  consider "127 < r \<and> r \<le> 2047" | "2047 < r \<and> r \<le> 65535" | "65535 < r \<and> r \<le> 1114111"
    using assms len unfolding valid_rune_def RuneLen_def by (auto split: if_splits)
  then show ?thesis
  proof cases
    case 1
    define w where "w = (word_of_int (192 + r div 64) :: byte)"
    have a: "2 \<le> r div 64" "r div 64 \<le> 31" using 1 by auto
    have "uint w = 192 + r div 64" unfolding w_def using a by (intro uint_byte) auto
    moreover have "\<exists>t. EncodeRune r = w # t \<and> length t = 1"
      using 1 assms by (simp add: EncodeRune_valid utf8_bytes_def w_def)
    ultimately show ?thesis using a by (intro exI [of _ w]) auto
  next
    case 2
    define w where "w = (word_of_int (224 + r div 4096) :: byte)"
    have a: "0 \<le> r div 4096" "r div 4096 \<le> 15" using 2 by auto
    have "uint w = 224 + r div 4096" unfolding w_def using a by (intro uint_byte) auto
    moreover have "\<exists>t. EncodeRune r = w # t \<and> length t = 2"
      using 2 assms by (simp add: EncodeRune_valid utf8_bytes_def w_def)
    ultimately show ?thesis using a by (intro exI [of _ w]) auto
  next
    case 3
    define w where "w = (word_of_int (240 + r div 262144) :: byte)"
    have a: "0 \<le> r div 262144" "r div 262144 \<le> 4" using 3 by auto
    have "uint w = 240 + r div 262144" unfolding w_def using a by (intro uint_byte) auto
    moreover have "\<exists>t. EncodeRune r = w # t \<and> length t = 3"
      using 3 assms by (simp add: EncodeRune_valid utf8_bytes_def w_def)
    ultimately show ?thesis using a by (intro exI [of _ w]) auto
  qed
qed

lemma DecodeRune_cut:
  assumes "valid_rune r" "EncodeRune r = q @ t" "q \<noteq> []" "t \<noteq> []"
  shows "DecodeRune q = (RuneError, 1)"
proof -
  have "1 < length (EncodeRune r)" using assms(2-4) by (cases q; cases t) auto
  from EncodeRune_lead [OF assms(1) this] obtain b0 u where
    e: "EncodeRune r = b0 # u" "194 \<le> uint b0" "uint b0 \<le> 244"
      "length u = (if uint b0 \<le> 223 then 1 else if uint b0 \<le> 239 then 2 else 3)" by blast
  then obtain q' where q: "q = b0 # q'" "u = q' @ t" using assms(2,3) by (cases q) auto
  then have "length q' < length u" using assms(4) by simp
  then show ?thesis using decode_cut_lead [OF e(2,3)] unfolding q(1) e(4) by blast
qed

lemma encode_inj:
  "encode xs = encode ys \<Longrightarrow> \<forall>r \<in> set xs. valid_rune r \<Longrightarrow> \<forall>r \<in> set ys. valid_rune r \<Longrightarrow> xs = ys"
proof (induction xs arbitrary: ys)
  case Nil
  then show ?case by (cases ys) auto
next
  case (Cons x xs)
  then obtain y zs where ys: "ys = y # zs" by (cases ys) auto
  have "DecodeRune (EncodeRune x @ encode xs) = DecodeRune (EncodeRune y @ encode zs)"
    using Cons.prems ys by simp
  then have "x = y" using Cons.prems ys by (simp add: DecodeRune_EncodeRune)
  with Cons ys show ?case by auto
qed

text \<open>
  Reading runes off a byte sequence, as Go does when it ranges over a string or as
  \<open>bufio.Reader.ReadRune\<close> does: a byte that starts no rune counts as \<open>RuneError\<close> of width one.
\<close>

function decode_all :: "byte list \<Rightarrow> rune list" where
  "decode_all p = (if p = [] then [] else fst (DecodeRune p) # decode_all (drop (max 1 (snd (DecodeRune p))) p))"
  by pat_completeness auto
termination
  by (relation "measure length") auto

declare decode_all.simps [simp del]

lemma decode_all_encode: "\<forall>r \<in> set rs. valid_rune r \<Longrightarrow> decode_all (encode rs) = rs"
proof (induction rs)
  case Nil
  then show ?case by (simp add: decode_all.simps)
next
  case (Cons r rs)
  have "max 1 (length (EncodeRune r)) = length (EncodeRune r)"
    using EncodeRune_nonempty [of r] by (cases "EncodeRune r") auto
  with Cons show ?case
    by (subst decode_all.simps) (simp add: DecodeRune_EncodeRune)
qed

section \<open>Properties\<close>

text \<open>
  Claim C34: \<open>RunesToUTF8\<close> on code points never runs out of the room it computed, is
  injective, and decoding its result rune by rune gives the runes back.
\<close>

theorem RunesToUTF8_roundtrip:
  assumes "\<forall>r \<in> set rs. valid_rune r"
  shows "\<exists>bs. RunesToUTF8 rs = Some bs \<and> decode_all bs = rs \<and> int (length bs) = sum_list (map RuneLen rs)"
  using assms by (simp add: RunesToUTF8_valid decode_all_encode length_encode)

theorem RunesToUTF8_roundtrip_witness:
  "\<exists>bs. RunesToUTF8 [97, 233, 8364, 128512] = Some bs \<and> decode_all bs = [97, 233, 8364, 128512] \<and>
     length bs = 10"
  using RunesToUTF8_roundtrip [of "[97, 233, 8364, 128512]"] by (auto simp: valid_rune_def RuneLen_def)

end
