(* ===== verification/BufferText.thy ===== *)
theory BufferText
  imports BufferOutput Runes
begin

text \<open>
  Text in and out of a buffer: \<open>WriteRune\<close>, \<open>WriteRunes\<close>, \<open>SubString\<close>, \<open>String\<close> and \<open>LastByte\<close>
  of \<open>src/ioext/buffer.go\<close>.  \<open>SubString\<close> decodes byte by byte while the range writer pours the
  bytes into its callback; the callback is a second instance of the writer interface.
\<close>

section \<open>Writing runes\<close>

definition WriteRune :: "Buffer \<Rightarrow> rune \<Rightarrow> Buffer option" where
  "WriteRune b r =
     do { bs \<leftarrow> RunesToUTF8 [r];
          if 0 < length bs then map_option snd (Write b bs) else Some b }"

definition WriteRunes :: "Buffer \<Rightarrow> rune list \<Rightarrow> (nat \<times> Buffer) option" where
  "WriteRunes b p =
     (if 0 < length p then
        do { bs \<leftarrow> RunesToUTF8 p;
             b' \<leftarrow> (if 0 < length bs then map_option snd (Write b bs) else Some b);
             Some (length p, b') }
      else Some (0, b))"

lemma WriteRunes_returns:
  assumes "buf_inv b" "lck b" "\<forall>r \<in> set rs. valid_rune r"
  shows "\<exists>b'. WriteRunes b rs = Some (length rs, b') \<and> contents b' = contents b @ encode rs \<and>
    buf_inv b' \<and> lck b'"
  using Write_returns [OF assms(1,2), of "encode rs"] assms
  by (cases rs) (auto simp: WriteRunes_def RunesToUTF8_valid)

lemma WriteRunes_usable:
  assumes "usable n b" "\<forall>r \<in> set rs. valid_rune r"
  shows "\<exists>b'. WriteRunes b rs = Some (length rs, b') \<and> contents b' = contents b @ encode rs \<and> usable n b'"
  using Write_usable [OF assms(1), of "encode rs"] assms
  by (cases rs) (auto simp: WriteRunes_def RunesToUTF8_valid)

lemma WriteRune_returns:
  assumes "buf_inv b" "lck b" "valid_rune r"
  shows "\<exists>b'. WriteRune b r = Some b' \<and> contents b' = contents b @ EncodeRune r \<and>
    buf_inv b' \<and> lck b'"
  using Write_returns [OF assms(1,2), of "EncodeRune r"] assms
  by (auto simp: WriteRune_def RunesToUTF8_valid)

section \<open>Reading text back\<close>

text \<open>
  The variables of the callback of \<open>SubString\<close>: the string built so far, the runes not yet
  added to it, and the bytes \<open>runebts[:runebtsi]\<close> of the rune being collected.
\<close>

record SubStr =
  ss_s :: "rune list"
  ss_rns :: "rune list"
  ss_pend :: "byte list"

definition decodeByte :: "SubStr \<Rightarrow> byte \<Rightarrow> SubStr" where
  "decodeByte st b =
     (let pend = ss_pend st @ [b]; (r, rs) = DecodeRune pend in
      if \<not> (r = RuneError \<and> (rs = 0 \<or> rs = 1)) \<and> rs > 0 then
        (let rns = ss_rns st @ [r] in
         if length rns = 8192 then \<lparr>ss_s = ss_s st @ rns, ss_rns = [], ss_pend = []\<rparr>
         else st\<lparr>ss_rns := rns, ss_pend := []\<rparr>)
      else st\<lparr>ss_pend := pend\<rparr>)"

text \<open>The callback: four bytes that form no rune end the copy with \<open>io.EOF\<close>.\<close>

fun decodeBytes :: "SubStr \<Rightarrow> byte list \<Rightarrow> nat \<times> go_err option \<times> SubStr" where
  "decodeBytes st [] = (0, None, st)"
| "decodeBytes st (b # p) =
     (let st1 = decodeByte st b in
      if length (ss_pend st1) = 4 then (0, Some EOF, st1) else decodeBytes st1 p)"

definition subPut :: "SubStr put" where
  "subPut st p = Some (decodeBytes st p)"

definition SubString :: "Buffer \<Rightarrow> int list \<Rightarrow> (rune list \<times> go_err option) option" where
  "SubString b offset =
     (let offset = (if length offset = 1 then offset @ [Size b] else offset) in
      if 0 < length offset \<and> length offset mod 2 = 0 then
        do { (st, n, err) \<leftarrow> internalBufferWriteToOffSet b subPut
                 \<lparr>ss_s = [], ss_rns = [], ss_pend = []\<rparr> (offset ! 0) (offset ! 1) (offset ! 1);
             Some (if err = None then ss_s st @ ss_rns st else ss_s st, err) }
      else Some ([], None))"

definition String :: "Buffer \<Rightarrow> rune list option" where
  "String b =
     (if \<not> Empty b then
        do { (s, err) \<leftarrow> SubString b [0]; Some (if err \<noteq> None then [] else s) }
      else Some [])"

section \<open>The decoder as a writer\<close>

text \<open>The decoder accepts what completes its pending bytes to well-formed text.\<close>

definition ss_accepts :: "SubStr \<Rightarrow> byte list \<Rightarrow> bool" where
  "ss_accepts st p \<longleftrightarrow> (\<forall>r \<in> set (ss_s st @ ss_rns st). valid_rune r) \<and>
     (\<exists>rs. (\<forall>r \<in> set rs. valid_rune r) \<and> ss_pend st @ p = encode rs \<and>
        (rs \<noteq> [] \<longrightarrow> length (ss_pend st) < length (EncodeRune (hd rs))))"

definition ss_sunk :: "SubStr \<Rightarrow> byte list" where
  "ss_sunk st = encode (ss_s st @ ss_rns st) @ ss_pend st"

lemma decodeByte_step:
  assumes "ss_accepts st (b # p)"
  shows "ss_sunk (decodeByte st b) = ss_sunk st @ [b] \<and> ss_accepts (decodeByte st b) p \<and>
    length (ss_pend (decodeByte st b)) \<noteq> 4"
proof -
  from assms obtain rs where v: "\<forall>r \<in> set (ss_s st @ ss_rns st). valid_rune r"
    and rs: "\<forall>r \<in> set rs. valid_rune r" "ss_pend st @ b # p = encode rs"
      "rs \<noteq> [] \<longrightarrow> length (ss_pend st) < length (EncodeRune (hd rs))"
    by (auto simp: ss_accepts_def)
  then obtain r rs' where r: "rs = r # rs'" by (cases rs) auto
  let ?p = "ss_pend st @ [b]"
  have vr: "valid_rune r" and len: "length (ss_pend st) < length (EncodeRune r)"
    using rs r by auto
  have eq: "?p @ p = EncodeRune r @ encode rs'" using rs(2) r by simp
  show ?thesis
  proof (cases "length ?p = length (EncodeRune r)")
    case True
    then have e: "?p = EncodeRune r" "p = encode rs'" 
      using eq append_eq_append_conv [of ?p "EncodeRune r" p "encode rs'"] by blast+
    then have d: "DecodeRune ?p = (r, length ?p)"
      using DecodeRune_EncodeRune [OF vr, of "[]"] by simp
    have "\<not> (r = RuneError \<and> length ?p = 1)"
      using length_EncodeRune [OF vr] e(1) by (auto simp: RuneLen_def RuneError_def)
    with d v vr rs(1) r e show ?thesis
      by (auto simp: decodeByte_def ss_sunk_def ss_accepts_def Let_def intro!: exI [of _ rs'])
  next
    case False
    then have lt: "length ?p < length (EncodeRune r)" using len by simp
    from eq have cut: "EncodeRune r = ?p @ drop (length ?p) (EncodeRune r)"
      by (metis append_eq_append_conv_if append_take_drop_id lt nat_less_le)
    have "DecodeRune ?p = (RuneError, 1)"
      by (rule DecodeRune_cut [OF vr cut]) (use lt in auto)
    moreover have "length ?p \<noteq> 4" using lt length_EncodeRune_le [of r] by linarith
    ultimately show ?thesis
      using v vr rs r lt
      by (auto simp: decodeByte_def ss_sunk_def ss_accepts_def intro!: exI [of _ "r # rs'"])
  qed
qed

lemma decodeBytes_accepts:
  "ss_accepts st (p @ q) \<Longrightarrow>
   \<exists>st'. decodeBytes st p = (0, None, st') \<and> ss_sunk st' = ss_sunk st @ p \<and> ss_accepts st' q"
proof (induction p arbitrary: st)
  case Nil
  then show ?case by simp
next
  case (Cons b p)
  then have "ss_accepts st (b # (p @ q))" by simp
  from decodeByte_step [OF this] Cons.IH [of "decodeByte st b"] show ?case
    by (auto simp: Let_def)
qed

interpretation textsink: byte_sink subPut "\<lambda>p. 0" ss_sunk ss_accepts
  by unfold_locales (auto simp: subPut_def dest!: decodeBytes_accepts)

lemma ss_accepts_done:
  assumes "ss_accepts st []" "ss_sunk st = encode rs" "\<forall>r \<in> set rs. valid_rune r"
  shows "ss_s st @ ss_rns st = rs"
proof -
  from assms(1) obtain ts where t: "ss_pend st = encode ts"
    "ts \<noteq> [] \<longrightarrow> length (ss_pend st) < length (EncodeRune (hd ts))"
    and v: "\<forall>r \<in> set (ss_s st @ ss_rns st). valid_rune r"
    by (auto simp: ss_accepts_def)
  then have "ss_pend st = []" by (cases ts) auto
  with assms v show ?thesis
    by (intro encode_inj) (auto simp: ss_sunk_def)
qed

lemma SubString_text:
  assumes inv: "buf_inv b" and r: "0 \<le> lo" "lo < hi" "hi \<le> Size b"
    and first: "buffer b = [] \<or> lo < int (length (bytes b))"
    and enc: "range_of (contents b) lo hi = encode rs" "\<forall>r \<in> set rs. valid_rune r"
  shows "SubString b [lo, hi] = Some (rs, None)"
proof -
  let ?st = "\<lparr>ss_s = [], ss_rns = [], ss_pend = []\<rparr>"
  have acc: "ss_accepts ?st (range_of (contents b) lo hi @ [])"
    using enc by (auto simp: ss_accepts_def intro!: exI [of _ rs])
  have "0 < hi" using r by simp
  from textsink.range_received [OF inv r(1,2) this r(3) first acc] obtain st where
    st: "textsink.received ?st (range_of (contents b) lo hi) st"
      "internalBufferWriteToOffSet b subPut ?st lo hi hi = Some (st, 0, None)" by blast
  have "ss_s st @ ss_rns st = rs"
  proof (rule ss_accepts_done)
    show "ss_accepts st []" using textsink.received_accepts [OF st(1) acc] .
    show "ss_sunk st = encode rs"
      using st(1) enc by (simp add: textsink.received_def ss_sunk_def)
  qed fact
  with st(2) show ?thesis by (simp add: SubString_def)
qed

lemma String_text:
  assumes inv: "buf_inv b" and enc: "contents b = encode rs" "\<forall>r \<in> set rs. valid_rune r"
  shows "String b = Some rs"
proof (cases "rs = []")
  case True
  then show ?thesis using inv enc by (simp add: String_def Empty_contents)
next
  case False
  have ne: "contents b \<noteq> []" using False enc by (cases rs) auto
  then have pos: "0 < Size b" "Size b = int (length (contents b))"
    using inv by (auto simp: Size_contents)
  have first: "buffer b = [] \<or> 0 < int (length (bytes b))" using inv by (auto simp: buf_inv_def)
  have "range_of (contents b) 0 (Size b) = encode rs"
    using pos(2) enc by (simp add: range_of_def)
  then have "SubString b [0, Size b] = Some (rs, None)"
    by (rule SubString_text [OF inv order_refl pos(1) order_refl first _ enc(2)])
  then have "SubString b [0] = Some (rs, None)" by (simp add: SubString_def)
  then show ?thesis using ne inv by (simp add: String_def Empty_contents)
qed

section \<open>LastByte\<close>

text \<open>
  \<open>fnbt\<close> searches a segment from its end; with \<open>anybt\<close> (the source calls it \<open>empty\<close>) every byte counts, otherwise the first
  one that is no white space.  \<open>LastByte\<close> tries the array, then the chunks from the last to the
  first, and returns 0 when nothing was found.
\<close>

fun fnbt :: "bool \<Rightarrow> byte list \<Rightarrow> byte option" where
  "fnbt anybt [] = None"
| "fnbt anybt (x # xs) =
     (if anybt then Some x else if \<not> IsSpace (uint x) then Some x else fnbt anybt xs)"

fun fnChunks :: "bool \<Rightarrow> byte list list \<Rightarrow> byte option" where
  "fnChunks anybt [] = None"
| "fnChunks anybt (c # cs) =
     (case fnbt anybt (rev c) of Some x \<Rightarrow> Some x | None \<Rightarrow> fnChunks anybt cs)"

definition LastByte :: "Buffer \<Rightarrow> bool list \<Rightarrow> byte option" where
  "LastByte b noneempty =
     (if lck b then
        (let anybt = (length noneempty = 0 \<or> \<not> noneempty ! 0) in
         Some (case (if 0 < bytesi b then fnbt anybt (rev (take (bytesi b) (bytes b))) else None) of
                 Some x \<Rightarrow> x
               | None \<Rightarrow> (case fnChunks anybt (rev (buffer b)) of Some x \<Rightarrow> x | None \<Rightarrow> 0)))
      else None)"

lemma fnbt_find: "fnbt anybt xs = List.find (\<lambda>x. anybt \<or> \<not> IsSpace (uint x)) xs"
  by (induction xs) auto

lemma find_append: "List.find P (xs @ ys) = (case List.find P xs of Some x \<Rightarrow> Some x | None \<Rightarrow> List.find P ys)"
  by (induction xs) auto

lemma fnChunks_find: "fnChunks anybt cs = List.find (\<lambda>x. anybt \<or> \<not> IsSpace (uint x)) (concat (map rev cs))"
  by (induction cs) (auto simp: fnbt_find find_append split: option.splits)

lemma LastByte_find:
  assumes "lck b"
  shows "LastByte b ne = Some (case List.find
     (\<lambda>x. (length ne = 0 \<or> \<not> ne ! 0) \<or> \<not> IsSpace (uint x)) (rev (contents b)) of Some x \<Rightarrow> x | None \<Rightarrow> 0)"
proof -
  have "rev (contents b) = rev (take (bytesi b) (bytes b)) @ concat (map rev (rev (buffer b)))"
    by (simp add: contents_def rev_concat rev_map)
  with assms show ?thesis
    by (auto simp: LastByte_def Let_def fnbt_find fnChunks_find find_append split: option.splits)
qed

section \<open>Properties\<close>

text \<open>A sequence of text writes.\<close>

fun writeTexts :: "Buffer \<Rightarrow> rune list list \<Rightarrow> Buffer option" where
  "writeTexts b [] = Some b"
| "writeTexts b (t # ts) = do { (n, b') \<leftarrow> WriteRunes b t; writeTexts b' ts }"

lemma writeTexts_returns:
  "usable n b \<Longrightarrow> \<forall>r \<in> set (concat ts). valid_rune r \<Longrightarrow>
   \<exists>b'. writeTexts b ts = Some b' \<and> contents b' = contents b @ encode (concat ts) \<and> usable n b'"
proof (induction ts arbitrary: b)
  case Nil
  then show ?case by simp
next
  case (Cons t ts)
  then have "\<forall>r \<in> set t. valid_rune r" by simp
  from WriteRunes_usable [OF Cons.prems(1) this] obtain b1 where
    "WriteRunes b t = Some (length t, b1)" "contents b1 = contents b @ encode t" "usable n b1" by blast
  with Cons.IH [of b1] Cons.prems show ?case by auto
qed

text \<open>
  Claim C23: text round trip.  Runes written with \<open>WriteRunes\<close>, in any number of calls and
  across any number of chunk boundaries, come back unchanged from \<open>String\<close>.
\<close>

theorem String_roundtrip:
  assumes "\<forall>r \<in> set (concat ts). valid_rune r"
  shows "\<exists>b. writeTexts NewBuffer ts = Some b \<and> String b = Some (concat ts)"
  using writeTexts_returns [OF usable_NewBuffer assms] String_text [OF _ _ assms] by (auto simp: usable_def)

theorem String_roundtrip_witness:
  "\<exists>b. writeTexts NewBuffer [[72, 228], [8364]] = Some b \<and> String b = Some [72, 228, 8364]"
  using String_roundtrip [of "[[72, 228], [8364]]"] by (simp add: valid_rune_def)

text \<open>
  \<open>LastByte\<close> returns the last byte of the contents (with \<open>noneempty\<close> set: the last
  one that is no white space) and 0 when there is none, across the array and all chunks.
\<close>

lemma LastByte_last:
  assumes "lck b"
  shows "LastByte b ne =
    (let P = (\<lambda>x. ne = [] \<or> \<not> hd ne \<or> \<not> IsSpace (uint x)); xs = filter P (contents b) in
     Some (if xs = [] then 0 else last xs))"
proof -
  have f: "List.find P ys = (if filter P ys = [] then None else Some (hd (filter P ys)))"
    for P and ys :: "byte list" by (induction ys) auto
  have "ne ! 0 = hd ne" if "ne \<noteq> []" using that by (simp add: hd_conv_nth)
  then have P: "(\<lambda>x. (length ne = 0 \<or> \<not> ne ! 0) \<or> \<not> IsSpace (uint x)) =
      (\<lambda>x :: byte. ne = [] \<or> \<not> hd ne \<or> \<not> IsSpace (uint x))" by auto
  show ?thesis
    unfolding LastByte_find [OF assms] P Let_def f
    by (simp add: hd_rev flip: rev_filter)
qed

end
