(* ===== verification/Cursor.thy ===== *)
theory Cursor
  imports Buffer
begin

text \<open>
  The cursor of \<open>src/ioext/buffer.go\<close> (type \<open>bufferCursor\<close>) that walks a buffer segment by
  segment, forwards (\<open>asc\<close>) or backwards, between two offsets: \<open>reset\<close>, \<open>nextBytes\<close> and \<open>Read\<close>.
  A cursor holds slices of the buffer as it was at the last \<open>reset\<close>; the model copies them, so
  the lemmas speak about walks during which the buffer is not written.
\<close>

section \<open>State and operations\<close>

record bufferCursor =
  cbuffer :: "byte list list"
  cbytes :: "byte list"
  lastBytes :: "byte list"
  noMoreBytes :: bool
  fromOffset :: int
  toOffset :: int
  buffs :: int
  curOffset :: int
  lastOffset :: int
  asc :: bool

definition chunked_size :: "byte list list \<Rightarrow> int" where
  "chunked_size cs = (if 0 < length cs then int (length cs) * int (length (hd cs)) else 0)"

definition reset :: "Buffer \<Rightarrow> bool \<Rightarrow> int list \<Rightarrow> bufferCursor \<Rightarrow> bufferCursor" where
  "reset b up offsets c =
     (let size = chunked_size (buffer b) + int (length (take (bytesi b) (bytes b)));
          c1 = c\<lparr>buffs := size, cbuffer := buffer b, cbytes := take (bytesi b) (bytes b), asc := up,
                 curOffset := - 1, lastOffset := - 1, fromOffset := - 1, toOffset := - 1\<rparr> in
      if 0 < length offsets \<and> length offsets mod 2 = 0 \<and>
         offsets ! 0 \<ge> 0 \<and> offsets ! 1 > 0 \<and> offsets ! 0 < offsets ! 1 \<and> offsets ! 1 \<le> size
      then c1\<lparr>fromOffset := offsets ! 0, toOffset := offsets ! 1\<rparr>
      else c1)"

definition newBufferCursor :: "Buffer \<Rightarrow> bool \<Rightarrow> int list \<Rightarrow> bufferCursor" where
  "newBufferCursor b up offsets =
     reset b up offsets \<lparr>cbuffer = [], cbytes = [], lastBytes = [], noMoreBytes = False,
       fromOffset = - 1, toOffset = - 1, buffs = 0, curOffset = - 1, lastOffset = 0, asc = up\<rparr>"

text \<open>The two ways a step ends: forwards the start moves up, backwards the end moves down.\<close>

definition stepUp :: "bufferCursor \<Rightarrow> byte list \<Rightarrow> byte list \<times> bool \<times> bufferCursor" where
  "stepUp c bts =
     (let c1 = c\<lparr>curOffset := fromOffset c, fromOffset := fromOffset c + int (length bts)\<rparr>
      in (bts, fromOffset c1 \<ge> toOffset c1, c1))"

definition stepDown :: "bufferCursor \<Rightarrow> byte list \<Rightarrow> byte list \<times> bool \<times> bufferCursor" where
  "stepDown c bts =
     (let c1 = c\<lparr>curOffset := toOffset c - int (length bts), toOffset := toOffset c - int (length bts)\<rparr>
      in (bts, fromOffset c1 \<ge> toOffset c1, c1))"

definition nextUp :: "bufferCursor \<Rightarrow> (byte list \<times> bool \<times> bufferCursor) option" where
  "nextUp c =
     (let bufs = chunked_size (cbuffer c) in
      if fromOffset c < toOffset c then
        (if fromOffset c < bufs then
           do {
             let bl = int (length (hd (cbuffer c)));
             chunk \<leftarrow> go_index (cbuffer c) ((fromOffset c + 1) div bl);
             bts \<leftarrow> go_slice chunk (fromOffset c mod bl)
               (if toOffset c \<le> bl \<or> (toOffset c \<le> bufs \<and> toOffset c > bufs - bl)
                then bl - toOffset c mod bl else bl);
             Some (stepUp c bts)
           }
         else if fromOffset c < buffs c then
           do { bts \<leftarrow> go_slice (cbytes c) (fromOffset c - bufs) (toOffset c - bufs); Some (stepUp c bts) }
         else Some ([], fromOffset c \<ge> toOffset c, c))
      else Some ([], fromOffset c \<ge> toOffset c, c))"

definition nextDown :: "bufferCursor \<Rightarrow> (byte list \<times> bool \<times> bufferCursor) option" where
  "nextDown c =
     (let bufs = chunked_size (cbuffer c) in
      if toOffset c > fromOffset c then
        (if toOffset c \<le> bufs then
           do {
             let bl = int (length (hd (cbuffer c)));
             bts \<leftarrow> (if toOffset c < bl then go_slice (hd (cbuffer c)) (fromOffset c) (toOffset c)
                      else do {
                        let bfi = toOffset c div bl;
                        let bmi = toOffset c - bl * (bfi - 1);
                        chunk \<leftarrow> go_index (cbuffer c) (bfi - 1);
                        if fromOffset c \<ge> (bfi - 1) * bl then go_slice chunk (fromOffset c mod bl) bmi
                        else go_slice chunk 0 bmi
                      });
             Some (stepDown c bts)
           }
         else
           do {
             bts \<leftarrow> (if fromOffset c > bufs then go_slice (cbytes c) (fromOffset c - bufs) (toOffset c - bufs)
                      else go_slice (cbytes c) 0 (toOffset c - bufs));
             Some (stepDown c bts)
           })
      else Some ([], True, c))"

definition nextBytes :: "bufferCursor \<Rightarrow> (byte list \<times> bool \<times> bufferCursor) option" where
  "nextBytes c =
     (if (0 < length (cbuffer c) \<or> 0 < length (cbytes c)) \<and> fromOffset c \<ge> 0
      then (if asc c then nextUp c else nextDown c)
      else Some ([], True, c))"

text \<open>
  \<open>Read\<close>: \<open>acc\<close> is what has been copied into \<open>p\<close> so far.  Each round copies at least one byte
  or ends, so the loop terminates.
\<close>

function curRead :: "bufferCursor \<Rightarrow> nat \<Rightarrow> byte list \<Rightarrow>
    (byte list \<times> go_err option \<times> bufferCursor) option" where
  "curRead c pl acc =
     (if length acc < pl then
        do {
          c1 \<leftarrow> (if lastBytes c = [] then
                   do { (bts, nomore, c') \<leftarrow> nextBytes c; Some (c'\<lparr>lastBytes := bts, noMoreBytes := nomore\<rparr>) }
                 else Some c);
          if lastBytes c1 = [] then Some (acc, Some EOF, c1)
          else curRead (c1\<lparr>lastBytes := drop (pl - length acc) (lastBytes c1)\<rparr>) pl
                 (acc @ take (pl - length acc) (lastBytes c1))
        }
      else Some (acc, None, c))"
  by pat_completeness auto
termination
proof (relation "measure (\<lambda>(c, pl, acc). pl - length acc)", goal_cases)
  case (2 c pl acc c1)
  from 2(3) have "lastBytes c1 \<noteq> []" .
  then have "0 < min (length (lastBytes c1)) (pl - length acc)" using 2(1) by simp
  then have "pl - (length acc + min (length (lastBytes c1)) (pl - length acc)) < pl - length acc"
    using 2(1) by arith
  then show ?case by simp
qed simp

declare curRead.simps [simp del]

section \<open>Walking forwards\<close>

text \<open>
  A cursor on the whole rest of a buffer.  \<open>aligned\<close> excludes the start offsets that the code
  attributes to the wrong chunk: the last byte of a chunk.
\<close>

definition aligned :: "Buffer \<Rightarrow> int \<Rightarrow> bool" where
  "aligned b f \<longleftrightarrow> f < chunked_size (buffer b) \<longrightarrow>
     f mod int (length (bytes b)) \<noteq> int (length (bytes b)) - 1"

definition snapshot :: "Buffer \<Rightarrow> bufferCursor \<Rightarrow> bool" where
  "snapshot b c \<longleftrightarrow> cbuffer c = buffer b \<and> cbytes c = take (bytesi b) (bytes b) \<and> buffs c = Size b"

definition walks_up :: "Buffer \<Rightarrow> bufferCursor \<Rightarrow> bool" where
  "walks_up b c \<longleftrightarrow> snapshot b c \<and> asc c \<and> toOffset c = Size b \<and> 0 \<le> fromOffset c \<and>
     fromOffset c \<le> Size b \<and> aligned b (fromOffset c)"

text \<open>What the cursor has still to deliver.\<close>

definition ahead :: "Buffer \<Rightarrow> bufferCursor \<Rightarrow> byte list" where
  "ahead b c = drop (nat (fromOffset c)) (contents b)"

lemma chunked_size_uniform: "uniform l cs \<Longrightarrow> chunked_size cs = int (l * length cs)"
  by (cases cs) (auto simp: chunked_size_def algebra_simps)

lemma chunked_size_inv: "buf_inv b \<Longrightarrow> chunked_size (buffer b) = int (length (bytes b) * length (buffer b))"
  unfolding buf_inv_def by (blast intro: chunked_size_uniform)

lemma Size_split: "buf_inv b \<Longrightarrow> Size b = chunked_size (buffer b) + int (bytesi b)"
  by (simp add: Size_contents length_contents chunked_size_inv)

lemma reset_snapshot: "buf_inv b \<Longrightarrow> snapshot b (reset b up offs c)"
  by (auto simp: snapshot_def reset_def Let_def Size_split buf_inv_def)

lemma reset_range:
  assumes "buf_inv b" "0 \<le> lo" "lo < hi" "hi \<le> Size b"
  shows "fromOffset (reset b up [lo, hi] c) = lo" "toOffset (reset b up [lo, hi] c) = hi"
    "asc (reset b up [lo, hi] c) = up" "curOffset (reset b up [lo, hi] c) = - 1"
  using assms Size_split [OF assms(1)] by (auto simp: reset_def Let_def buf_inv_def)

lemma reset_walks_up:
  assumes "buf_inv b" "0 \<le> lo" "lo < Size b" "aligned b lo"
  shows "walks_up b (reset b True [lo, Size b] c)" "ahead b (reset b True [lo, Size b] c) = drop (nat lo) (contents b)"
  using assms reset_snapshot [of b True "[lo, Size b]" c] reset_range [OF assms(1-3), of True c]
  by (auto simp: walks_up_def ahead_def)

text \<open>One step inside the full chunks.\<close>

lemma nextUp_chunk:
  assumes inv: "buf_inv b" "2 \<le> length (bytes b)" and w: "walks_up b c"
    and f: "fromOffset c < chunked_size (buffer b)"
  defines "l \<equiv> length (bytes b)" and "k \<equiv> nat (fromOffset c) div length (bytes b)"
    and "i \<equiv> nat (fromOffset c) mod length (bytes b)"
  shows "nextUp c = Some (stepUp c (drop i (buffer b ! k)))" "k < length (buffer b)" "i < l"
    "fromOffset c = int (l * k + i)"
proof -
  let ?f = "fromOffset c"
  have u: "uniform l (buffer b)" and l: "2 \<le> l" using inv by (auto simp: buf_inv_def l_def)
  have f0: "0 \<le> ?f" "toOffset c = Size b" "cbuffer c = buffer b" "?f \<le> Size b"
    using w by (auto simp: walks_up_def snapshot_def)
  show fi: "fromOffset c = int (l * k + i)" and i: "i < l"
    using f0 l by (auto simp: k_def i_def l_def intro!: mod_less_divisor)
  have "l * k + i < l * length (buffer b)"
    using f fi u by (metis chunked_size_uniform of_nat_less_iff)
  then show k: "k < length (buffer b)"
    by (metis add_lessD1 mult_less_cancel1)
  have ne: "buffer b \<noteq> []" using k by auto
  have hd: "length (hd (buffer b)) = l" and ck: "length (buffer b ! k) = l"
    using uniform_hd [OF u ne] uniform_nth [OF u k] by simp_all
  have m: "?f mod int l = int i" unfolding fi using i by (simp flip: of_nat_mod)
  have "i \<noteq> l - 1"
    using w f fi i l unfolding walks_up_def aligned_def l_def [symmetric] by (auto simp flip: of_nat_mod)
  then have "i + 1 < l" using i by simp
  then have "(Suc i + k * l) div l = k" using div_mult_self1 [of l "Suc i" k] by simp
  then have "int (Suc i + k * l) div int l = int k" by (metis zdiv_int)
  moreover have "?f + 1 = int (Suc i + k * l)" unfolding fi by simp
  ultimately have "(?f + 1) div int l = int k" by (simp only:)
  moreover have "(if toOffset c \<le> int l \<or> (toOffset c \<le> chunked_size (buffer b) \<and>
      toOffset c > chunked_size (buffer b) - int l) then int l - toOffset c mod int l else int l) = int l"
  proof -
    have "l \<le> l * length (buffer b)" using ne by (cases "buffer b") auto
    then have le: "int l \<le> chunked_size (buffer b)" unfolding chunked_size_uniform [OF u] by linarith
    then have "toOffset c \<le> int l \<or> toOffset c \<le> chunked_size (buffer b) \<Longrightarrow>
        toOffset c = chunked_size (buffer b)"
      using f0(2) Size_split [OF inv(1)] by auto
    then show ?thesis using chunked_size_uniform [OF u] by auto
  qed
  moreover have "?f < Size b" using f Size_split [OF inv(1)] by simp
  ultimately show "nextUp c = Some (stepUp c (drop i (buffer b ! k)))"
    using f f0 hd ck k i m by (simp add: nextUp_def Let_def index_nat slice_nat)
qed

lemma stepUp_walks:
  assumes inv: "buf_inv b"
  assumes "walks_up b c" "fromOffset c + int (length bts) \<le> Size b"
    and "aligned b (fromOffset c + int (length bts))"
    and "ahead b c = bts @ drop (nat (fromOffset c) + length bts) (contents b)" "bts \<noteq> []"
    and "stepUp c bts = (bts', nomore, c')"
  shows "bts' = bts" "walks_up b c'" "ahead b c = bts @ ahead b c'" "fromOffset c < fromOffset c'"
    "nomore \<longleftrightarrow> ahead b c' = []" "curOffset c' = fromOffset c" "lastBytes c' = lastBytes c"
    "lastOffset c' = lastOffset c"
proof -
  have "0 \<le> fromOffset c" "toOffset c = Size b" using assms(2) by (auto simp: walks_up_def)
  then show "bts' = bts" "walks_up b c'" "ahead b c = bts @ ahead b c'" "fromOffset c < fromOffset c'"
    "curOffset c' = fromOffset c" "lastBytes c' = lastBytes c" "lastOffset c' = lastOffset c"
    "nomore \<longleftrightarrow> ahead b c' = []"
    using assms Size_contents [OF inv]
    by (auto simp: stepUp_def Let_def walks_up_def snapshot_def ahead_def nat_add_distrib)
qed

text \<open>A step that takes a proper prefix of what is ahead and stays aligned.\<close>

definition advances :: "Buffer \<Rightarrow> bufferCursor \<Rightarrow> byte list \<Rightarrow> bool" where
  "advances b c bts \<longleftrightarrow> nextUp c = Some (stepUp c bts) \<and> bts \<noteq> [] \<and>
     fromOffset c + int (length bts) \<le> Size b \<and> aligned b (fromOffset c + int (length bts)) \<and>
     ahead b c = bts @ drop (nat (fromOffset c) + length bts) (contents b)"

lemma advances_in_chunks:
  assumes inv: "buf_inv b" "2 \<le> length (bytes b)" and w: "walks_up b c"
    and f: "fromOffset c < chunked_size (buffer b)"
  shows "\<exists>bts. advances b c bts \<and> fromOffset c + int (length bts) = int (length (bytes b) * Suc (nat (fromOffset c) div length (bytes b)))"
proof -
  let ?f = "fromOffset c" and ?l = "length (bytes b)"
  define k i where "k = nat ?f div ?l" and "i = nat ?f mod ?l"
  note c = nextUp_chunk [OF inv w f, folded k_def i_def]
  let ?bts = "drop i (buffer b ! k)"
  have u: "uniform ?l (buffer b)" using inv by (simp add: buf_inv_def)
  have ck: "length (buffer b ! k) = ?l" using uniform_nth [OF u c(2)] .
  have nf: "nat ?f = ?l * k + i" using c(4) by (metis nat_int)
  have e: "?f + int (length ?bts) = int (?l * Suc k)" using ck c(3,4) by simp
  have le: "?l * Suc k \<le> ?l * length (buffer b)" using c(2) by (intro mult_le_mono2) simp
  have "?l * k + i < ?l * Suc k" using c(3) by simp
  then have "?l * k + i \<le> length (concat (buffer b))"
    using le unfolding length_concat_uniform [OF u] by linarith
  then have "drop (nat ?f) (contents b) =
      ?bts @ concat (drop (Suc k) (buffer b)) @ take (bytesi b) (bytes b)"
    using drop_concat_within [OF u c(2), of i] c(3) by (simp add: contents_def nf)
  moreover from this have "drop (nat ?f + length ?bts) (contents b) =
      concat (drop (Suc k) (buffer b)) @ take (bytesi b) (bytes b)"
    by (metis append_eq_conv_conj drop_drop add.commute)
  moreover have "int (?l * Suc k) \<le> Size b" "int (?l * Suc k) mod int ?l \<noteq> int ?l - 1"
    using le Size_split [OF inv(1)] chunked_size_uniform [OF u] inv(2) by (simp_all flip: of_nat_mult)
  ultimately have "advances b c ?bts"
    using c(1,3) ck unfolding advances_def aligned_def ahead_def e by auto
  then show ?thesis using e k_def by blast
qed

lemma advances_in_tail:
  assumes inv: "buf_inv b" and w: "walks_up b c"
    and f: "chunked_size (buffer b) \<le> fromOffset c" "fromOffset c < Size b"
  shows "\<exists>bts. advances b c bts \<and> fromOffset c + int (length bts) = Size b"
proof -
  let ?f = "fromOffset c"
  define j where "j = nat (?f - chunked_size (buffer b))"
  let ?bts = "drop j (take (bytesi b) (bytes b))"
  have w': "0 \<le> ?f" "toOffset c = Size b" "snapshot b c" using w by (auto simp: walks_up_def)
  have j: "j < bytesi b" "?f = chunked_size (buffer b) + int j" "length (take (bytesi b) (bytes b)) = bytesi b"
    using f Size_split [OF inv] inv by (auto simp: j_def buf_inv_def)
  have "nextUp c = Some (stepUp c ?bts)"
    using f w' j Size_split [OF inv] by (simp add: nextUp_def Let_def snapshot_def slice_nat)
  moreover have "length (concat (buffer b)) = nat (chunked_size (buffer b))"
    using length_concat_uniform [of "length (bytes b)" "buffer b"] inv chunked_size_inv [OF inv]
    by (simp add: buf_inv_def nat_mult_distrib)
  then have "drop (nat ?f) (contents b) = ?bts"
    using j(2) chunked_size_inv [OF inv] by (simp add: contents_def nat_add_distrib)
  ultimately have "advances b c ?bts"
    using j Size_split [OF inv] Size_contents [OF inv] w'(1)
    unfolding advances_def by (auto simp: ahead_def aligned_def nat_add_distrib)
  moreover have "?f + int (length ?bts) = Size b" using j Size_split [OF inv] by simp
  ultimately show ?thesis by blast
qed

text \<open>Where a forward step ends: at the next chunk boundary, or at the end of the buffer.\<close>

definition next_up :: "Buffer \<Rightarrow> int \<Rightarrow> int" where
  "next_up b f = (if f < chunked_size (buffer b)
     then int (length (bytes b) * Suc (nat f div length (bytes b))) else Size b)"

lemma nextBytes_up:
  assumes inv: "buf_inv b" "2 \<le> length (bytes b)" and w: "walks_up b c" and more: "ahead b c \<noteq> []"
  obtains bts c' where "nextBytes c = Some (bts, ahead b c' = [], c')" "bts \<noteq> []" "walks_up b c'"
    "ahead b c = bts @ ahead b c'" "curOffset c' = fromOffset c" "lastBytes c' = lastBytes c"
    "lastOffset c' = lastOffset c" "fromOffset c < fromOffset c'" "fromOffset c' = next_up b (fromOffset c)"
proof -
  have f: "0 \<le> fromOffset c" "asc c" "snapshot b c" using w by (auto simp: walks_up_def)
  have lt: "fromOffset c < Size b" using more f(1) inv by (auto simp: ahead_def Size_contents)
  then have "contents b \<noteq> []" using inv f(1) by (auto simp: Size_contents)
  then have nb: "nextBytes c = nextUp c"
    using f by (auto simp: nextBytes_def snapshot_def contents_def)
  obtain bts where bts: "nextUp c = Some (stepUp c bts)" "bts \<noteq> []"
      "fromOffset c + int (length bts) \<le> Size b" "aligned b (fromOffset c + int (length bts))"
      "ahead b c = bts @ drop (nat (fromOffset c) + length bts) (contents b)"
      "fromOffset c + int (length bts) = next_up b (fromOffset c)"
    using advances_in_chunks [OF inv w] advances_in_tail [OF inv(1) w _ lt]
    unfolding advances_def next_up_def by (cases "fromOffset c < chunked_size (buffer b)") force+
  obtain bts' nomore c' where st: "stepUp c bts = (bts', nomore, c')" by (cases "stepUp c bts")
  note s = stepUp_walks [OF inv(1) w bts(3,4,5,2) st]
  show thesis
    by (rule that [of bts c']) (use nb bts(1,2,6) st s in \<open>auto simp: stepUp_def Let_def\<close>)
qed

lemma nextBytes_up_done:
  assumes "buf_inv b" "walks_up b c" "ahead b c = []"
  shows "nextBytes c = Some ([], True, c)"
  using assms by (auto simp: nextBytes_def nextUp_def walks_up_def ahead_def Size_contents Let_def)

section \<open>Reading through a cursor\<close>

text \<open>\<open>Read\<close> hands out what is left of the current segment and then what is ahead.\<close>

definition unread :: "Buffer \<Rightarrow> bufferCursor \<Rightarrow> byte list" where
  "unread b c = lastBytes c @ ahead b c"

lemma walks_up_lastBytes [simp]:
  "walks_up b (c\<lparr>lastBytes := x\<rparr>) = walks_up b c" "walks_up b (c\<lparr>noMoreBytes := y\<rparr>) = walks_up b c"
  "ahead b (c\<lparr>lastBytes := x\<rparr>) = ahead b c" "ahead b (c\<lparr>noMoreBytes := y\<rparr>) = ahead b c"
  by (simp_all add: walks_up_def snapshot_def ahead_def)

lemma refill:
  assumes "buf_inv b" "2 \<le> length (bytes b)" "walks_up b c"
  obtains c1 where "(if lastBytes c = [] then
      do { (bts, nomore, c') \<leftarrow> nextBytes c; Some (c'\<lparr>lastBytes := bts, noMoreBytes := nomore\<rparr>) }
      else Some c) = Some c1"
    "walks_up b c1" "unread b c1 = unread b c" "lastBytes c1 = [] \<longrightarrow> unread b c = []"
proof (cases "lastBytes c = []")
  case False
  with assms(3) show thesis by (intro that [of c]) auto
next
  case True
  show thesis
  proof (cases "ahead b c = []")
    case fin: True
    show thesis
      by (rule that [of "c\<lparr>lastBytes := [], noMoreBytes := True\<rparr>"])
         (use True fin nextBytes_up_done [OF assms(1,3) fin] assms(3) in \<open>auto simp: unread_def\<close>)
  next
    case more: False
    from nextBytes_up [OF assms more] obtain bts c' where
      n: "nextBytes c = Some (bts, ahead b c' = [], c')" "bts \<noteq> []" "walks_up b c'"
        "ahead b c = bts @ ahead b c'" .
    show thesis
      by (rule that [of "c'\<lparr>lastBytes := bts, noMoreBytes := (ahead b c' = [])\<rparr>"])
         (use True n in \<open>auto simp: unread_def\<close>)
  qed
qed

lemma curRead_returns:
  assumes "buf_inv b" "2 \<le> length (bytes b)" "walks_up b c" "length acc \<le> pl"
  shows "\<exists>c'. curRead c pl acc = Some (acc @ take (pl - length acc) (unread b c),
      if length (unread b c) < pl - length acc then Some EOF else None, c') \<and>
    walks_up b c' \<and> unread b c' = drop (pl - length acc) (unread b c)"
  using assms
proof (induction c pl acc rule: curRead.induct)
  case (1 c pl acc)
  show ?case
  proof (cases "length acc < pl")
    case False
    with "1.prems" show ?thesis by (subst curRead.simps) auto
  next
    case True
    from refill [OF "1.prems"(1-3)] obtain c1 where c1:
      "(if lastBytes c = [] then
        do { (bts, nomore, c') \<leftarrow> nextBytes c; Some (c'\<lparr>lastBytes := bts, noMoreBytes := nomore\<rparr>) }
        else Some c) = Some c1" "walks_up b c1" "unread b c1 = unread b c"
      "lastBytes c1 = [] \<longrightarrow> unread b c = []" .
    show ?thesis
    proof (cases "lastBytes c1 = []")
      case nil: True
      then have "unread b c = []" "unread b c1 = []" using c1 by auto
      with nil True c1(1,2) show ?thesis by (subst curRead.simps) (simp add: unread_def)
    next
      case False
      let ?k = "pl - length acc"
      let ?c = "c1\<lparr>lastBytes := drop ?k (lastBytes c1)\<rparr>" and ?a = "acc @ take ?k (lastBytes c1)"
      have step: "curRead c pl acc = curRead ?c pl ?a"
        using True False c1(1) by (subst curRead.simps) simp
      have le: "length ?a \<le> pl" using True by simp
      have un: "unread b c = lastBytes c1 @ ahead b c1" "unread b ?c = drop ?k (lastBytes c1) @ ahead b c1"
        using c1(3) by (simp_all add: unread_def)
      from "1.IH" [OF True c1(1) False "1.prems"(1,2) _ le] c1(2) un show ?thesis
        unfolding step
        by (cases "length (lastBytes c1) \<le> ?k") (auto simp: min_def)
    qed
  qed
qed

section \<open>Walking backwards\<close>

text \<open>
  A cursor whose end is where a backward walk can be: in the array, or at a chunk boundary.
  Any start offset will do.
\<close>

definition walks_down :: "Buffer \<Rightarrow> bufferCursor \<Rightarrow> bool" where
  "walks_down b c \<longleftrightarrow> snapshot b c \<and> \<not> asc c \<and> 0 \<le> fromOffset c \<and> fromOffset c \<le> toOffset c \<and>
     toOffset c \<le> Size b \<and>
     (fromOffset c = toOffset c \<or> chunked_size (buffer b) \<le> toOffset c \<or>
      int (length (bytes b)) dvd toOffset c)"

definition before :: "Buffer \<Rightarrow> bufferCursor \<Rightarrow> byte list" where
  "before b c = range_of (contents b) (fromOffset c) (toOffset c)"

text \<open>One step: the segment from \<open>s\<close>, which is the start of the walk or a chunk boundary.\<close>

definition retreats :: "Buffer \<Rightarrow> bufferCursor \<Rightarrow> int \<Rightarrow> bool" where
  "retreats b c s \<longleftrightarrow> fromOffset c \<le> s \<and> s < toOffset c \<and>
     (s = fromOffset c \<or> int (length (bytes b)) dvd s) \<and>
     nextDown c = Some (stepDown c (range_of (contents b) s (toOffset c)))"

lemma retreats_in_tail:
  assumes inv: "buf_inv b" and w: "walks_down b c" "fromOffset c < toOffset c"
    and t: "chunked_size (buffer b) < toOffset c"
  shows "retreats b c (max (fromOffset c) (chunked_size (buffer b)))"
proof -
  let ?B = "chunked_size (buffer b)" and ?t = "take (bytesi b) (bytes b)"
  let ?s = "max (fromOffset c) ?B"
  have d: "snapshot b c" "0 \<le> fromOffset c" "toOffset c \<le> Size b" using w by (auto simp: walks_down_def)
  have B: "0 \<le> ?B" "int (length ?t) = Size b - ?B" "length (concat (buffer b)) = nat ?B"
    using inv Size_split [OF inv] chunked_size_inv [OF inv]
    by (auto simp: buf_inv_def length_concat_uniform nat_mult_distrib)
  have "range_of (contents b) ?s (toOffset c) = range_of ?t (?s - ?B) (toOffset c - ?B)"
    using B by (simp add: range_of_def contents_def nat_diff_distrib)
  moreover have "go_slice ?t (?s - ?B) (toOffset c - ?B) = Some (range_of ?t (?s - ?B) (toOffset c - ?B))"
    using w t d B by (intro slice_range_of) auto
  moreover have "int (length (bytes b)) dvd ?B" using chunked_size_inv [OF inv] by simp
  ultimately show ?thesis
    using w t d by (auto simp: retreats_def nextDown_def snapshot_def max_def Let_def)
qed

lemma retreats_in_chunks:
  assumes inv: "buf_inv b" and w: "walks_down b c" "fromOffset c < toOffset c"
    and t: "toOffset c \<le> chunked_size (buffer b)"
  shows "retreats b c (max (fromOffset c) (toOffset c - int (length (bytes b))))"
proof -
  define l where "l = length (bytes b)"
  let ?f = "fromOffset c" and ?s = "max (fromOffset c) (toOffset c - int l)"
  have u: "uniform l (buffer b)" "0 < l" using inv by (auto simp: buf_inv_def l_def)
  have B: "chunked_size (buffer b) = int (l * length (buffer b))" using chunked_size_inv [OF inv] by (simp add: l_def)
  have "int l dvd int (l * length (buffer b))" by simp
  moreover have "chunked_size (buffer b) \<le> toOffset c \<or> int l dvd toOffset c"
    using w by (auto simp: walks_down_def l_def)
  ultimately have dv: "int l dvd toOffset c" using t unfolding B by (metis order_antisym)
  have d: "cbuffer c = buffer b" "0 \<le> ?f" using w by (auto simp: walks_down_def snapshot_def)
  from dv obtain z where z: "toOffset c = int l * z" by (rule dvdE)
  moreover have "0 \<le> int l * z" using z d(2) w(2) by linarith
  then have "0 \<le> z" using u(2) by (simp add: zero_le_mult_iff)
  ultimately obtain m where m: "toOffset c = int (l * m)" by (metis nat_0_le of_nat_mult)
  have "l * m \<le> l * length (buffer b)" using t unfolding m B of_nat_le_iff .
  then have mb: "m \<le> length (buffer b)" using u(2) by simp
  obtain k where k: "m = Suc k" using w d(2) m by (cases m) auto
  have kb: "k < length (buffer b)" "buffer b \<noteq> []" using mb k by auto
  have hd: "length (hd (buffer b)) = l" "length (buffer b ! k) = l"
    using uniform_hd [OF u(1) kb(2)] uniform_nth [OF u(1) kb(1)] by simp_all
  define q where "q = int (l * k)"
  have to: "toOffset c = q + int l" "0 \<le> q" "int l * int k = q"
    using m k by (simp_all add: q_def)
  let ?i = "max (?f - q) 0"
  have s: "?s = q + ?i" using to(1,2) by simp
  have dv: "toOffset c div int l = int k + 1" using m k u(2) by simp
  have md: "?f mod int l = ?f - q" if "q \<le> ?f"
    using mod_mult_self2 [of "?f - q" "int l" "int k"] that w(2) to by simp
  have "range_of (contents b) ?s (toOffset c) = range_of (buffer b ! k) ?i (int l)"
    using range_of_chunk [OF u(1) kb(1), of ?i "int l", folded q_def] w(2) to s
    by (simp add: contents_def)
  moreover have sl: "go_slice (buffer b ! k) ?i (int l) = Some (range_of (buffer b ! k) ?i (int l))"
    using hd w(2) to by (intro slice_range_of) auto
  have "nextDown c = Some (stepDown c (range_of (buffer b ! k) ?i (int l)))"
    using w(2) t d(1) hd(1) kb(1) to dv md sl
    by (cases "q \<le> ?f") (auto simp: nextDown_def Let_def index_nat max_def mult.commute)
  moreover have "int l dvd q" unfolding q_def by simp
  ultimately show ?thesis
    using w(2) to(1,2) u(2) s unfolding retreats_def l_def [symmetric] by (auto simp: max_def)
qed

text \<open>Where a backward step ends: at the previous chunk boundary, or at the start of the walk.\<close>

definition next_down :: "Buffer \<Rightarrow> int \<Rightarrow> int \<Rightarrow> int" where
  "next_down b f t = max f (if chunked_size (buffer b) < t then chunked_size (buffer b)
     else t - int (length (bytes b)))"

lemma nextBytes_down:
  assumes inv: "buf_inv b" and w: "walks_down b c" and more: "before b c \<noteq> []"
  obtains bts c' where "nextBytes c = Some (bts, before b c' = [], c')" "bts \<noteq> []" "walks_down b c'"
    "before b c = before b c' @ bts" "curOffset c' = toOffset c'" "lastBytes c' = lastBytes c"
    "lastOffset c' = lastOffset c" "toOffset c' < toOffset c" "fromOffset c' = fromOffset c"
    "toOffset c' = next_down b (fromOffset c) (toOffset c)"
proof -
  have d: "0 \<le> fromOffset c" "fromOffset c \<le> toOffset c" "toOffset c \<le> Size b" "snapshot b c" "\<not> asc c"
    using w by (auto simp: walks_down_def)
  have lt: "fromOffset c < toOffset c" using more d(2) by (cases "fromOffset c = toOffset c") (auto simp: before_def)
  then have "contents b \<noteq> []" using inv d by (auto simp: Size_contents)
  then have nb: "nextBytes c = nextDown c"
    using d by (auto simp: nextBytes_def snapshot_def contents_def)
  obtain s where s: "fromOffset c \<le> s" "s < toOffset c" "s = fromOffset c \<or> int (length (bytes b)) dvd s"
    "nextDown c = Some (stepDown c (range_of (contents b) s (toOffset c)))"
    "s = next_down b (fromOffset c) (toOffset c)"
  proof -
    have "retreats b c (next_down b (fromOffset c) (toOffset c))"
      using retreats_in_tail [OF inv w lt] retreats_in_chunks [OF inv w lt]
      by (cases "chunked_size (buffer b) < toOffset c") (simp_all add: next_down_def)
    then show thesis using that unfolding retreats_def by blast
  qed
  let ?bts = "range_of (contents b) s (toOffset c)" and ?c = "c\<lparr>curOffset := s, toOffset := s\<rparr>"
  have len: "int (length ?bts) = toOffset c - s"
    using s d Size_contents [OF inv] by (simp add: length_range_of)
  then have sd: "stepDown c ?bts = (?bts, s \<le> fromOffset c, ?c)"
    by (simp add: stepDown_def Let_def)
  have ne: "?bts \<noteq> []" using len s(2) by auto
  have e: "(s \<le> fromOffset c) = (before b ?c = [])"
    using s(1,2) d Size_contents [OF inv] length_range_of [of "fromOffset c" s "contents b"]
    by (cases "s = fromOffset c") (auto simp: before_def)
  have "before b c = before b ?c @ ?bts"
    using s(1,2) d range_of_split [of "fromOffset c" s "toOffset c" "contents b"] by (simp add: before_def)
  moreover have "walks_down b ?c"
    using w s(1-3) by (auto simp: walks_down_def snapshot_def)
  ultimately show thesis
    using nb s(2,4) ne e by (intro that [of ?bts ?c]) (simp_all add: sd s(5) [symmetric])
qed

lemma nextBytes_down_done:
  assumes "buf_inv b" "walks_down b c" "before b c = []"
  shows "nextBytes c = Some ([], True, c)"
proof -
  have "0 \<le> fromOffset c" "fromOffset c \<le> toOffset c" "toOffset c \<le> Size b" "\<not> asc c"
    using assms(2) by (auto simp: walks_down_def)
  moreover from this have "fromOffset c = toOffset c"
    using assms(3) length_range_of [of "fromOffset c" "toOffset c" "contents b"] Size_contents [OF assms(1)]
    by (auto simp: before_def)
  ultimately show ?thesis by (simp add: nextBytes_def nextDown_def Let_def)
qed

lemma reset_walks_down:
  assumes "buf_inv b" "0 \<le> lo" "lo < Size b"
  shows "walks_down b (reset b False [lo, Size b] c)"
    "before b (reset b False [lo, Size b] c) = drop (nat lo) (contents b)"
  using assms reset_snapshot [of b False "[lo, Size b]" c] reset_range [OF assms, of False c] Size_split [OF assms(1)]
  by (auto simp: walks_down_def before_def range_of_def Size_contents)

section \<open>Properties\<close>

text \<open>The walk as its clients do it: call \<open>nextBytes\<close> until it reports that there is no more.\<close>

fun walk :: "nat \<Rightarrow> bufferCursor \<Rightarrow> byte list list option" where
  "walk 0 c = Some []"
| "walk (Suc n) c =
     do { (bts, nomore, c') \<leftarrow> nextBytes c;
          if nomore then Some [bts] else do { rest \<leftarrow> walk n c'; Some (bts # rest) } }"


lemma walk_down:
  "buf_inv b \<Longrightarrow> walks_down b c \<Longrightarrow> length (before b c) < n \<Longrightarrow>
   \<exists>segs. walk n c = Some segs \<and> concat (rev segs) = before b c"
proof (induction n arbitrary: c)
  case 0
  then show ?case by simp
next
  case (Suc n)
  show ?case
  proof (cases "before b c = []")
    case True
    then show ?thesis using Suc.prems nextBytes_down_done by simp
  next
    case False
    from nextBytes_down [OF Suc.prems(1,2) this] obtain bts c' where
      n: "nextBytes c = Some (bts, before b c' = [], c')" "bts \<noteq> []" "walks_down b c'"
        "before b c = before b c' @ bts" .
    moreover have "length (before b c') < n" using Suc.prems(3) n(2,4) by (cases bts) auto
    ultimately show ?thesis using Suc.IH [OF Suc.prems(1), of c'] by (cases "before b c' = []") auto
  qed
qed

text \<open>A cursor just opened.\<close>

lemma reset_lastBytes: "lastBytes (reset b up offs c) = lastBytes c"
  by (simp add: reset_def Let_def)

lemma new_walks_up:
  assumes "buf_inv b" "0 \<le> lo" "lo < Size b" "aligned b lo"
  shows "walks_up b (newBufferCursor b True [lo, Size b])"
    "ahead b (newBufferCursor b True [lo, Size b]) = drop (nat lo) (contents b)"
    "unread b (newBufferCursor b True [lo, Size b]) = drop (nat lo) (contents b)"
  unfolding newBufferCursor_def unread_def
  using reset_walks_up [OF assms] by (simp_all add: reset_lastBytes)

lemma new_walks_down:
  assumes "buf_inv b" "0 \<le> lo" "lo < Size b"
  shows "walks_down b (newBufferCursor b False [lo, Size b])"
    "before b (newBufferCursor b False [lo, Size b]) = drop (nat lo) (contents b)"
  unfolding newBufferCursor_def using reset_walks_down [OF assms] by simp_all

lemma length_rest: "buf_inv b \<Longrightarrow> 0 \<le> lo \<Longrightarrow> lo < Size b \<Longrightarrow> length (drop (nat lo) (contents b)) < Suc (nat (Size b - lo))"
  by (simp add: Size_contents)



text \<open>
  A backward walk from the end of a buffer down to any offset terminates and
  delivers the same bytes, last segment first.
\<close>

lemma backward_walk_complete:
  assumes "buf_inv b" "0 \<le> lo" "lo < Size b"
  shows "\<exists>segs. walk (Suc (nat (Size b - lo))) (newBufferCursor b False [lo, Size b]) = Some segs \<and>
    concat (rev segs) = drop (nat lo) (contents b)"
  using walk_down [OF assms(1) new_walks_down(1) [OF assms]] length_rest [OF assms]
  unfolding new_walks_down(2) [OF assms] by blast

text \<open>
  Claim C28: \<open>Read\<close> through a forward cursor that runs to the end of the buffer fills \<open>p\<close> with the next unread bytes, returns \<open>io.EOF\<close> exactly when
  fewer than \<open>len(p)\<close> were left, and leaves the rest unread.  The position of the cursor must not be the last byte of a full chunk (where the code
  computes the index of the next chunk and panics if there is none, \<open>misaligned_start_panics\<close>), and the array of the buffer has at least two bytes.  Cursors over a range that ends
  before the end of the buffer are not covered (\<open>short_range_wrong_length\<close>).
\<close>

theorem curRead_fills:
  assumes "buf_inv b" "2 \<le> length (bytes b)" "walks_up b c"
  shows "\<exists>c'. curRead c pl [] = Some (take pl (unread b c),
      if length (unread b c) < pl then Some EOF else None, c') \<and>
    walks_up b c' \<and> unread b c' = drop pl (unread b c)"
  using curRead_returns [OF assms, of "[]" pl] by simp

theorem curRead_fills_witness:
  "\<exists>c'. curRead (newBufferCursor (NewBuffer\<lparr>bytes := 5 # 6 # replicate 8190 0, bytesi := 2\<rparr>) True [0, 2]) 4 [] =
     Some ([5, 6], Some EOF, c')"
proof -
  let ?b = "NewBuffer\<lparr>bytes := 5 # 6 # replicate 8190 0, bytesi := 2\<rparr>" and ?c0 = "newBufferCursor
    (NewBuffer\<lparr>bytes := 5 # 6 # replicate 8190 0, bytesi := 2\<rparr>) True [0, 2]"
  have b: "buf_inv ?b" "2 \<le> length (bytes ?b)" "Size ?b = 2" "aligned ?b 0" "contents ?b = [5, 6]"
    by (simp_all add: buf_inv_def NewBuffer_def Size_def Empty_def aligned_def chunked_size_def contents_def)
  have w: "walks_up ?b ?c0" "unread ?b ?c0 = [5, 6]"
    using new_walks_up [OF b(1) order_refl _ b(4)] by (simp_all add: b(3,5))
  show ?thesis using curRead_fills [OF b(1,2) w(1), of 4] w(2) by auto
qed

text \<open>
  Defect: a walk that starts at the last byte of the only chunk reads behind the
  chunk list: the chunk index is computed from \<open>fromOffset + 1\<close>.
\<close>

lemma misaligned_start_panics:
  assumes "buf_inv b" "length (buffer b) = 1" "lo = int (length (bytes b)) - 1" "lo < Size b"
  shows "nextBytes (newBufferCursor b True [lo, Size b]) = None"
proof -
  let ?c = "newBufferCursor b True [lo, Size b]"
  have l: "0 < length (bytes b)" "0 \<le> lo" using assms by (auto simp: buf_inv_def)
  have c: "cbuffer ?c = buffer b" "fromOffset ?c = lo" "toOffset ?c = Size b" "asc ?c"
    unfolding newBufferCursor_def
    using reset_snapshot [OF assms(1)] reset_range [OF assms(1) l(2) assms(4) order_refl]
    by (auto simp: snapshot_def)
  obtain x where x: "buffer b = [x]" "length x = length (bytes b)"
    using assms(1,2) by (cases "buffer b") (auto simp: buf_inv_def)
  show ?thesis
    using c l x assms(3,4) by (simp add: nextBytes_def nextUp_def chunked_size_def Let_def go_index_def)
qed

text \<open>
  Defect: a forward range that ends inside the first chunk yields the wrong number of
  bytes: the end of the slice is computed as the chunk length minus the end offset.
\<close>

lemma short_range_wrong_length:
  assumes "buf_inv b" "buffer b \<noteq> []" "0 < hi" "hi < int (length (bytes b))"
  shows "\<exists>bts nomore c'. nextBytes (newBufferCursor b True [0, hi]) = Some (bts, nomore, c') \<and>
    int (length bts) = int (length (bytes b)) - hi"
proof -
  let ?c = "newBufferCursor b True [0, hi]"
  obtain x xs where x: "buffer b = x # xs" "length x = length (bytes b)" "uniform (length (bytes b)) xs"
    using assms(1,2) by (cases "buffer b") (auto simp: buf_inv_def)
  have B: "chunked_size (buffer b) = int (length (bytes b) * Suc (length xs))"
    using chunked_size_inv [OF assms(1)] x(1) by simp
  then have le: "int (length (bytes b)) \<le> chunked_size (buffer b)" by (simp add: algebra_simps)
  then have "hi \<le> Size b" using assms(4) Size_split [OF assms(1)] by simp
  then have c: "cbuffer ?c = buffer b" "fromOffset ?c = 0" "toOffset ?c = hi" "asc ?c"
    unfolding newBufferCursor_def
    using reset_snapshot [OF assms(1)] reset_range [OF assms(1) order_refl assms(3)]
    by (auto simp: snapshot_def)
  have "(0 + 1) div int (length (bytes b)) = 0" using assms(3,4) by simp
  then show ?thesis
    using c x assms(3,4) le
    by (auto simp: nextBytes_def nextUp_def stepUp_def Let_def go_index_def slice_SomeI)
qed

end
