(* ===== verification/Search.thy ===== *)
theory Search
  imports Cursor "HOL-Library.Sublist"
begin

text \<open>
  Searching a buffer for a byte pattern: \<open>checkbytes\<close>, the six \<open>found...\<close> scanners, and
  \<open>Contains\<close>, \<open>HasPrefix\<close>, \<open>HasSuffix\<close>, \<open>IndexOf\<close> and \<open>LastIndexOf\<close> of
  \<open>src/ioext/buffer.go\<close>.  A scanner consumes a walk segment by segment and keeps, across the
  segments, how much of the pattern it has matched.

  The callback \<open>OnFound\<close> of the source sets one variable of its caller; here a search returns
  whether, and with which offset, the callback was called.
\<close>

section \<open>Scanner state\<close>

record checkbytes =
  bufcur :: bufferCursor
  testbts :: "byte list"
  testbtsl :: nat
  testbtsi :: nat
  prvb :: byte
  dne :: bool

definition newCheckBytes :: "bufferCursor \<Rightarrow> byte list \<Rightarrow> checkbytes" where
  "newCheckBytes c t = \<lparr>bufcur = c, testbts = t, testbtsl = length t, testbtsi = 0, prvb = 0, dne = False\<rparr>"

text \<open>The condition with which the forward scanners notice that a partial match broke off.\<close>

definition broken :: "checkbytes \<Rightarrow> byte \<Rightarrow> bool option" where
  "broken k bt =
     (if testbtsi k > 0 then
        do { p \<leftarrow> go_index (testbts k) (int (testbtsi k) - 1);
             if p = prvb k then do { c \<leftarrow> go_index (testbts k) (int (testbtsi k)); Some (c \<noteq> bt) }
             else Some False }
      else Some False)"

text \<open>A byte that continues the match: complete at offset \<open>off\<close>, or one byte further.\<close>

definition advance :: "checkbytes \<Rightarrow> byte \<Rightarrow> int \<Rightarrow> bool \<times> checkbytes" where
  "advance k bt off =
     (let k1 = k\<lparr>testbtsi := testbtsi k + 1\<rparr> in
      if testbtsi k1 = testbtsl k1
      then (True, k1\<lparr>bufcur := (bufcur k1)\<lparr>lastOffset := off\<rparr>, dne := True\<rparr>)
      else (False, k1\<lparr>prvb := bt\<rparr>))"

section \<open>The scanners\<close>

text \<open>
  The loops over the bytes of a segment; \<open>bn\<close> counts the bytes already passed.  The backward
  scanners visit the segment from its end.
\<close>

fun containsScan :: "checkbytes \<Rightarrow> nat \<Rightarrow> byte list \<Rightarrow> (bool \<times> checkbytes) option" where
  "containsScan k bn [] = Some (False, k)"
| "containsScan k bn (bt # bts) =
     do {
       brk \<leftarrow> broken k bt;
       let k1 = (if brk then k\<lparr>testbtsi := 0\<rparr> else k);
       c \<leftarrow> go_index (testbts k1) (int (testbtsi k1));
       if c = bt then
         (let (fin, k2) = advance k1 bt (curOffset (bufcur k1) + int bn - int (testbtsl k1)) in
          if fin then Some (True, k2) else containsScan k2 (bn + 1) bts)
       else containsScan (k1\<lparr>testbtsi := 0, prvb := bt\<rparr>) (bn + 1) bts
     }"

definition foundContains :: "checkbytes \<Rightarrow> byte list \<Rightarrow> (bool \<times> checkbytes) option" where
  "foundContains k bts = containsScan k 0 bts"

fun indexScan :: "checkbytes \<Rightarrow> nat \<Rightarrow> byte list \<Rightarrow> (bool \<times> checkbytes) option" where
  "indexScan k bn [] = Some (False, k)"
| "indexScan k bn (bt # bts) =
     do {
       brk \<leftarrow> broken k bt;
       let k1 = (if brk then k\<lparr>testbtsi := 0, prvb := 0\<rparr> else k);
       c \<leftarrow> go_index (testbts k1) (int (testbtsi k1));
       if c = bt then
         (let (fin, k2) = advance k1 bt (curOffset (bufcur k1) + int bn - int (testbtsl k1)) in
          if fin then Some (True, k2) else indexScan k2 (bn + 1) bts)
       else indexScan (k1\<lparr>testbtsi := 0, prvb := bt\<rparr>) (bn + 1) bts
     }"

definition foundIndexOf :: "checkbytes \<Rightarrow> byte list \<Rightarrow> (bool \<times> checkbytes) option" where
  "foundIndexOf k bts = indexScan k 0 bts"

fun prefixScan :: "checkbytes \<Rightarrow> nat \<Rightarrow> byte list \<Rightarrow> (bool \<times> checkbytes) option" where
  "prefixScan k bn [] = Some (False, k)"
| "prefixScan k bn (bt # bts) =
     do {
       brk \<leftarrow> broken k bt;
       if brk then Some (True, k\<lparr>testbtsi := 0\<rparr>)
       else do {
         c \<leftarrow> go_index (testbts k) (int (testbtsi k));
         if c = bt then
           (let (fin, k2) = advance k bt (curOffset (bufcur k) + int bn - int (testbtsl k)) in
            if fin then Some (True, k2) else prefixScan k2 (bn + 1) bts)
         else Some (True, k)
       }
     }"

definition foundPrefix :: "checkbytes \<Rightarrow> byte list \<Rightarrow> (bool \<times> checkbytes) option" where
  "foundPrefix k bts = prefixScan k 0 bts"

fun reverseScan :: "checkbytes \<Rightarrow> nat \<Rightarrow> nat \<Rightarrow> byte list \<Rightarrow> (bool \<times> checkbytes) option" where
  "reverseScan k btsl bi [] = Some (False, k)"
| "reverseScan k btsl bi (bt # bts) =
     do {
       c \<leftarrow> go_index (testbts k) (int (testbtsl k) - int (testbtsi k + 1));
       if c = bt then
         (let (fin, k2) = advance k bt (curOffset (bufcur k) + (int btsl - int (bi + 1))) in
          if fin then Some (True, k2) else reverseScan k2 btsl (bi + 1) bts)
       else reverseScan (k\<lparr>testbtsi := 0, prvb := bt\<rparr>) btsl (bi + 1) bts
     }"

definition foundContainsReverse :: "checkbytes \<Rightarrow> byte list \<Rightarrow> (bool \<times> checkbytes) option" where
  "foundContainsReverse k bts = reverseScan k (length bts) 0 (rev bts)"

definition foundLastIndexOf :: "checkbytes \<Rightarrow> byte list \<Rightarrow> (bool \<times> checkbytes) option" where
  "foundLastIndexOf k bts = reverseScan k (length bts) 0 (rev bts)"

fun suffixScan :: "checkbytes \<Rightarrow> nat \<Rightarrow> nat \<Rightarrow> byte list \<Rightarrow> (bool \<times> checkbytes) option" where
  "suffixScan k btsl btn [] = Some (False, k)"
| "suffixScan k btsl btn (bt # bts) =
     do {
       c \<leftarrow> go_index (testbts k) (int (testbtsl k) - int (testbtsi k + 1));
       if c = bt then
         (let (fin, k2) = advance k bt (curOffset (bufcur k) + (int btsl - int (btn + 1)) - int (testbtsl k)) in
          if fin then Some (True, k2) else suffixScan k2 btsl (btn + 1) bts)
       else Some (True, k)
     }"

definition foundSuffix :: "checkbytes \<Rightarrow> byte list \<Rightarrow> (bool \<times> checkbytes) option" where
  "foundSuffix k bts = suffixScan k (length bts) 0 (rev bts)"

section \<open>The search loops\<close>

text \<open>
  \<open>foundMatch\<close> takes the next segment and hands it to the scanner.  The result says whether to
  stop, and with which offset \<open>OnFound\<close> was called, if it was.
\<close>

type_synonym scanner = "checkbytes \<Rightarrow> byte list \<Rightarrow> (bool \<times> checkbytes) option"

definition foundMatch :: "scanner \<Rightarrow> checkbytes \<Rightarrow> (bool \<times> int option \<times> checkbytes) option" where
  "foundMatch FM k =
     do {
       (bts, lastbts, c) \<leftarrow> nextBytes (bufcur k);
       let k1 = k\<lparr>bufcur := c\<rparr>;
       (fnd, call, k2) \<leftarrow>
         (if 0 < length bts then
            do { (f, k2) \<leftarrow> FM k1 bts;
                 Some (f, if f \<and> dne k2 then Some (lastOffset (bufcur k2)) else None, k2) }
          else Some (False, None, k1));
       Some (fnd \<or> lastbts, call, k2)
     }"

partial_function (option) searchLoop :: "scanner \<Rightarrow> checkbytes \<Rightarrow> int option option" where
  "searchLoop FM k =
     do { (fnd, call, k') \<leftarrow> foundMatch FM k; if fnd then Some call else searchLoop FM k' }"

declare searchLoop.simps [code]

text \<open>\<open>Contains\<close> alternates a forward and a backward walk.\<close>

partial_function (option) containsLoop :: "checkbytes \<Rightarrow> checkbytes \<Rightarrow> int option option" where
  "containsLoop k kb =
     do {
       (fnd, call, k') \<leftarrow> foundMatch foundContains k;
       if fnd then Some call
       else do {
         (fndb, callb, kb') \<leftarrow> foundMatch foundContainsReverse kb;
         if fndb then Some callb else containsLoop k' kb'
       }
     }"

declare containsLoop.simps [code]

definition default_offsets :: "Buffer \<Rightarrow> int list \<Rightarrow> int list" where
  "default_offsets b offsets = (if length offsets = 0 then [0, Size b] else offsets)"

definition internalContainsBytes :: "Buffer \<Rightarrow> byte list \<Rightarrow> int list \<Rightarrow> bool option" where
  "internalContainsBytes b t offsets =
     (if 0 < length t \<and> Size b > 0 then
        (let offs = default_offsets b offsets in
         map_option (\<lambda>call. call \<noteq> None)
           (containsLoop (newCheckBytes (newBufferCursor b True offs) t)
                         (newCheckBytes (newBufferCursor b False offs) t)))
      else Some False)"

definition internalHasPrefixBytes :: "Buffer \<Rightarrow> byte list \<Rightarrow> int list \<Rightarrow> bool option" where
  "internalHasPrefixBytes b t offsets =
     (if 0 < length t \<and> Size b > 0 then
        map_option (\<lambda>call. call \<noteq> None)
          (searchLoop foundPrefix (newCheckBytes (newBufferCursor b True (default_offsets b offsets)) t))
      else Some False)"

definition internalHasSuffixBytes :: "Buffer \<Rightarrow> byte list \<Rightarrow> int list \<Rightarrow> bool option" where
  "internalHasSuffixBytes b t offsets =
     (if 0 < length t \<and> Size b > 0 then
        map_option (\<lambda>call. call \<noteq> None)
          (searchLoop foundSuffix (newCheckBytes (newBufferCursor b False (default_offsets b offsets)) t))
      else Some False)"

definition internalIndexOfBytes :: "Buffer \<Rightarrow> byte list \<Rightarrow> int list \<Rightarrow> int option" where
  "internalIndexOfBytes b t offsets =
     (if 0 < length t \<and> Size b > 0 then
        map_option (\<lambda>call. case call of Some i \<Rightarrow> i | None \<Rightarrow> - 1)
          (searchLoop foundIndexOf (newCheckBytes (newBufferCursor b True (default_offsets b offsets)) t))
      else Some (- 1))"

definition internalLastIndexOfBytes :: "Buffer \<Rightarrow> byte list \<Rightarrow> int list \<Rightarrow> int option" where
  "internalLastIndexOfBytes b t offsets =
     (if 0 < length t \<and> Size b > 0 then
        map_option (\<lambda>call. case call of Some i \<Rightarrow> i | None \<Rightarrow> - 1)
          (searchLoop foundLastIndexOf (newCheckBytes (newBufferCursor b False (default_offsets b offsets)) t))
      else Some (- 1))"

text \<open>The exported methods.\<close>

definition ContainsBytes :: "Buffer \<Rightarrow> byte list \<Rightarrow> bool option" where
  "ContainsBytes b t = internalContainsBytes b t []"

definition HasPrefixBytes :: "Buffer \<Rightarrow> byte list \<Rightarrow> bool option" where
  "HasPrefixBytes b t = internalHasPrefixBytes b t []"

definition HasSuffixBytes :: "Buffer \<Rightarrow> byte list \<Rightarrow> bool option" where
  "HasSuffixBytes b t =
     (if 0 < length t \<and> Size b > 0 then internalHasSuffixBytes b t [] else Some False)"

definition IndexOfBytes :: "Buffer \<Rightarrow> byte list \<Rightarrow> int option" where
  "IndexOfBytes b t = internalIndexOfBytes b t []"

definition LastIndexOfBytes :: "Buffer \<Rightarrow> byte list \<Rightarrow> int option" where
  "LastIndexOfBytes b t = internalLastIndexOfBytes b t []"

text \<open>The string variants; a string is given by its UTF-8 bytes.\<close>

definition Contains :: "Buffer \<Rightarrow> byte list \<Rightarrow> bool option" where
  "Contains b s = (if s \<noteq> [] then ContainsBytes b s else Some False)"

definition HasPrefix :: "Buffer \<Rightarrow> byte list \<Rightarrow> bool option" where
  "HasPrefix b s = (if s \<noteq> [] then HasPrefixBytes b s else Some False)"

definition HasSuffix :: "Buffer \<Rightarrow> byte list \<Rightarrow> bool option" where
  "HasSuffix b s = (if s \<noteq> [] then HasSuffixBytes b s else Some False)"

definition IndexOf :: "Buffer \<Rightarrow> byte list \<Rightarrow> int option" where
  "IndexOf b s = (if s \<noteq> [] then IndexOfBytes b s else Some 0)"

definition LastIndexOf :: "Buffer \<Rightarrow> byte list \<Rightarrow> int option" where
  "LastIndexOf b s = (if s \<noteq> [] then LastIndexOfBytes b s else Some 0)"

text \<open>
  \<open>ContainsAny\<close> first removes empty strings; after a removal the next element moves up and is
  not looked at, so of two adjacent empty strings the second stays.
\<close>

fun dropEmpty :: "byte list list \<Rightarrow> byte list list" where
  "dropEmpty [] = []"
| "dropEmpty [t] = (if t = [] then [] else [t])"
| "dropEmpty (t # u # ts) = (if t = [] then u # dropEmpty ts else t # dropEmpty (u # ts))"

fun collectFound :: "(byte list \<Rightarrow> bool option) \<Rightarrow> byte list list \<Rightarrow> byte list list option" where
  "collectFound P [] = Some []"
| "collectFound P (t # ts) =
     do { f \<leftarrow> P t; rest \<leftarrow> collectFound P ts; Some (if f then t # rest else rest) }"

definition ContainsAny :: "Buffer \<Rightarrow> byte list list \<Rightarrow> (bool \<times> byte list list) option" where
  "ContainsAny b ts =
     do { found \<leftarrow> collectFound (ContainsBytes b) (dropEmpty ts); Some (found \<noteq> [], found) }"

definition ContainsAnyBytes :: "Buffer \<Rightarrow> byte list list \<Rightarrow> (bool \<times> byte list list) option" where
  "ContainsAnyBytes b ts =
     do { found \<leftarrow> collectFound (\<lambda>t. if 0 < length t then internalContainsBytes b t [] else Some False) ts;
          Some (found \<noteq> [], found) }"

section \<open>Searching a whole buffer\<close>

text \<open>
  What a search needs of its scanner.  \<open>pend seen k\<close>: the scanner has consumed \<open>seen\<close> without
  reaching a verdict.  \<open>verdict xs call\<close>: \<open>call\<close> is an acceptable outcome of the search of
  \<open>xs\<close>.  A scanner may decide early, then the verdict has to hold however the data goes on.
\<close>

definition outcome :: "checkbytes \<Rightarrow> int option" where
  "outcome k = (if dne k then Some (lastOffset (bufcur k)) else None)"

text \<open>The two ways a scan of a segment ends: with a verdict \<open>V\<close>, or pending with \<open>P\<close>.\<close>

definition scanned :: "(bool \<times> checkbytes) option \<Rightarrow> bufferCursor \<Rightarrow> (checkbytes \<Rightarrow> bool) \<Rightarrow> (checkbytes \<Rightarrow> bool) \<Rightarrow> bool" where
  "scanned r c V P \<longleftrightarrow> (\<exists>f k'. r = Some (f, k') \<and> (\<exists>off. bufcur k' = c\<lparr>lastOffset := off\<rparr>) \<and> (if f then V k' else P k'))"

lemma scanned_stop: "r = Some (True, k') \<Longrightarrow> \<exists>off. bufcur k' = c\<lparr>lastOffset := off\<rparr> \<Longrightarrow> V k' \<Longrightarrow> scanned r c V P"
  by (auto simp: scanned_def)

lemma same_cursor: "\<exists>off. c = c\<lparr>lastOffset := off\<rparr>" for c :: bufferCursor
  by (rule exI [of _ "lastOffset c"]) simp

lemma scanned_go: "r = Some (False, k') \<Longrightarrow> bufcur k' = c \<Longrightarrow> P k' \<Longrightarrow> scanned r c V P"
  unfolding scanned_def using same_cursor [of c] by (intro exI [of _ False] exI [of _ k']) simp

lemma scanned_mono: "scanned r c V P \<Longrightarrow> (\<And>k. V k \<Longrightarrow> V' k) \<Longrightarrow> (\<And>k. P k \<Longrightarrow> P' k) \<Longrightarrow> scanned r c V' P'"
  unfolding scanned_def by metis

locale forward_scan =
  fixes FM :: scanner and pend :: "byte list \<Rightarrow> checkbytes \<Rightarrow> bool"
    and verdict :: "byte list \<Rightarrow> int option \<Rightarrow> bool"
  assumes scan: "pend seen k \<Longrightarrow> bts \<noteq> [] \<Longrightarrow> curOffset (bufcur k) = int (length seen) \<Longrightarrow>
      scanned (FM k bts) (bufcur k) (\<lambda>k'. \<forall>rest. verdict (seen @ bts @ rest) (outcome k')) (pend (seen @ bts))"
    and exhausted: "pend xs k \<Longrightarrow> verdict xs None"
    and pend_cursor: "pend seen k \<Longrightarrow> pend seen (k\<lparr>bufcur := c\<rparr>)"

locale backward_scan =
  fixes FM :: scanner and pend :: "byte list \<Rightarrow> checkbytes \<Rightarrow> bool"
    and verdict :: "byte list \<Rightarrow> int option \<Rightarrow> bool"
  assumes scan: "pend seen k \<Longrightarrow> bts \<noteq> [] \<Longrightarrow> curOffset (bufcur k) = int (length rest) \<Longrightarrow>
      scanned (FM k bts) (bufcur k) (\<lambda>k'. verdict (rest @ bts @ seen) (outcome k')) (pend (bts @ seen))"
    and exhausted: "pend xs k \<Longrightarrow> verdict xs None"
    and pend_cursor: "pend seen k \<Longrightarrow> pend seen (k\<lparr>bufcur := c\<rparr>)"

lemma walks_up_lastOffset [simp]:
  "walks_up b (c\<lparr>lastOffset := x\<rparr>) = walks_up b c" "ahead b (c\<lparr>lastOffset := x\<rparr>) = ahead b c"
  by (simp_all add: walks_up_def snapshot_def ahead_def)

lemma walks_down_lastOffset [simp]:
  "walks_down b (c\<lparr>lastOffset := x\<rparr>) = walks_down b c" "before b (c\<lparr>lastOffset := x\<rparr>) = before b c"
  by (simp_all add: walks_down_def snapshot_def before_def)

text \<open>A search in progress: what has been seen, and what the walk still has ahead.\<close>

context forward_scan
begin

definition searching :: "Buffer \<Rightarrow> byte list \<Rightarrow> checkbytes \<Rightarrow> bool" where
  "searching b seen k \<longleftrightarrow> walks_up b (bufcur k) \<and> pend seen k \<and> contents b = seen @ ahead b (bufcur k) \<and>
     fromOffset (bufcur k) = int (length seen)"

lemma foundMatch_step:
  assumes inv: "buf_inv b" "2 \<le> length (bytes b)" and s: "searching b seen k" and more: "ahead b (bufcur k) \<noteq> []"
  obtains (stop) call k' where "foundMatch FM k = Some (True, call, k')" "verdict (contents b) call"
  | (go) k' bts where "foundMatch FM k = Some (False, None, k')" "bts \<noteq> []" "searching b (seen @ bts) k'"
      "ahead b (bufcur k') \<noteq> []" "length (ahead b (bufcur k')) < length (ahead b (bufcur k))"
      "fromOffset (bufcur k') = next_up b (fromOffset (bufcur k))"
proof -
  have s': "walks_up b (bufcur k)" "pend seen k" "contents b = seen @ ahead b (bufcur k)"
    "fromOffset (bufcur k) = int (length seen)" using s by (auto simp: searching_def)
  from nextBytes_up [OF inv s'(1) more] obtain bts c where
    n: "nextBytes (bufcur k) = Some (bts, ahead b c = [], c)" "bts \<noteq> []" "walks_up b c"
      "ahead b (bufcur k) = bts @ ahead b c" "curOffset c = fromOffset (bufcur k)"
      "fromOffset c = next_up b (fromOffset (bufcur k))" by metis
  let ?k = "k\<lparr>bufcur := c\<rparr>"
  have "curOffset (bufcur ?k) = int (length seen)" using n(5) s'(4) by simp
  from scan [OF pend_cursor [OF s'(2)] n(2) this] obtain f k' off where
    k': "FM ?k bts = Some (f, k')" "bufcur k' = c\<lparr>lastOffset := off\<rparr>"
      "if f then \<forall>rest. verdict (seen @ bts @ rest) (outcome k') else pend (seen @ bts) k'" by (auto simp: scanned_def)
  have fm: "foundMatch FM k = Some (f \<or> ahead b c = [], if f then outcome k' else None, k')"
    using n(1,2) k'(1) by (auto simp: foundMatch_def outcome_def)
  have all: "contents b = seen @ bts @ ahead b c" using s'(3) n(4) by simp
  show thesis
  proof (cases "f \<or> ahead b c = []")
    case True
    have "verdict (contents b) (if f then outcome k' else None)"
      using True k'(3) exhausted [of "seen @ bts" k'] all by (auto split: if_splits)
    then show thesis using fm True stop by simp
  next
    case False
    then have p: "pend (seen @ bts) k'" "ahead b c \<noteq> []" using k'(3) by auto
    have fo: "fromOffset c = int (length (seen @ bts))"
    proof -
      have "0 \<le> fromOffset c" "nat (fromOffset c) + length (ahead b c) = length (contents b)"
        using n(3) p(2) by (auto simp: walks_up_def ahead_def)
      then show ?thesis using all by simp
    qed
    have "searching b (seen @ bts) k'"
      using p n(3) k'(2) all fo by (simp add: searching_def)
    then show thesis
      using fm False p(2) n(2,4,6) k'(2) by (intro go [of k' bts]) auto
  qed
qed

lemma searchLoop_verdict:
  "buf_inv b \<Longrightarrow> 2 \<le> length (bytes b) \<Longrightarrow> searching b seen k \<Longrightarrow> ahead b (bufcur k) \<noteq> [] \<Longrightarrow>
   \<exists>call. searchLoop FM k = Some call \<and> verdict (contents b) call"
proof (induction "length (ahead b (bufcur k))" arbitrary: seen k rule: less_induct)
  case less
  from less.prems show ?case
  proof (cases rule: foundMatch_step)
    case (stop call k')
    then show ?thesis by (subst searchLoop.simps) simp
  next
    case (go k' bts)
    from less.hyps [OF go(5) less.prems(1,2) go(3,4)] go(1) show ?thesis
      by (subst searchLoop.simps) simp
  qed
qed

lemma search_verdict:
  assumes "buf_inv b" "2 \<le> length (bytes b)" "Size b > 0"
    and "pend [] (newCheckBytes (newBufferCursor b True [0, Size b]) t)"
  shows "searching b [] (newCheckBytes (newBufferCursor b True [0, Size b]) t)"
    and "\<exists>call. searchLoop FM (newCheckBytes (newBufferCursor b True [0, Size b]) t) = Some call \<and>
      verdict (contents b) call"
proof -
  have a: "aligned b 0" using assms(2) by (simp add: aligned_def)
  note w = new_walks_up [OF assms(1) order_refl assms(3) a]
  have "fromOffset (newBufferCursor b True [0, Size b]) = 0"
    unfolding newBufferCursor_def by (rule reset_range(1) [OF assms(1) order_refl assms(3) order_refl])
  then show s: "searching b [] (newCheckBytes (newBufferCursor b True [0, Size b]) t)"
    using w assms(4) by (simp add: searching_def newCheckBytes_def)
  have "ahead b (bufcur (newCheckBytes (newBufferCursor b True [0, Size b]) t)) \<noteq> []"
    using w(2) assms by (auto simp: newCheckBytes_def Size_contents)
  then show "\<exists>call. searchLoop FM (newCheckBytes (newBufferCursor b True [0, Size b]) t) = Some call \<and>
      verdict (contents b) call"
    by (rule searchLoop_verdict [OF assms(1,2) s])
qed

end

context backward_scan
begin

definition searching :: "Buffer \<Rightarrow> byte list \<Rightarrow> checkbytes \<Rightarrow> bool" where
  "searching b seen k \<longleftrightarrow> walks_down b (bufcur k) \<and> pend seen k \<and> contents b = before b (bufcur k) @ seen \<and>
     fromOffset (bufcur k) = 0"

lemma foundMatch_step:
  assumes inv: "buf_inv b" and s: "searching b seen k" and more: "before b (bufcur k) \<noteq> []"
  obtains (stop) call k' where "foundMatch FM k = Some (True, call, k')" "verdict (contents b) call"
      "next_down b 0 (toOffset (bufcur k)) = 0 \<or> (\<exists>c bts. FM (k\<lparr>bufcur := c\<rparr>) bts = Some (True, k') \<and> call = outcome k')"
  | (go) k' bts where "foundMatch FM k = Some (False, None, k')" "bts \<noteq> []" "searching b (bts @ seen) k'"
      "before b (bufcur k') \<noteq> []" "length (before b (bufcur k')) < length (before b (bufcur k))"
      "toOffset (bufcur k') = next_down b 0 (toOffset (bufcur k))"
proof -
  have s': "walks_down b (bufcur k)" "pend seen k" "contents b = before b (bufcur k) @ seen"
    "fromOffset (bufcur k) = 0" using s by (auto simp: searching_def)
  from nextBytes_down [OF inv s'(1) more] obtain bts c where
    n: "nextBytes (bufcur k) = Some (bts, before b c = [], c)" "bts \<noteq> []" "walks_down b c"
      "before b (bufcur k) = before b c @ bts" "curOffset c = toOffset c"
      "fromOffset c = 0" "toOffset c = next_down b 0 (toOffset (bufcur k))" using s'(4) by metis
  let ?k = "k\<lparr>bufcur := c\<rparr>"
  have "0 \<le> toOffset c" "toOffset c \<le> Size b" using n(3,6) by (auto simp: walks_down_def)
  then have "curOffset (bufcur ?k) = int (length (before b c))"
    using n(5,6) Size_contents [OF inv] by (simp add: before_def length_range_of)
  from scan [OF pend_cursor [OF s'(2)] n(2) this] obtain f k' off where
    k': "FM ?k bts = Some (f, k')" "bufcur k' = c\<lparr>lastOffset := off\<rparr>"
      "if f then verdict (before b c @ bts @ seen) (outcome k') else pend (bts @ seen) k'" by (auto simp: scanned_def)
  have fm: "foundMatch FM k = Some (f \<or> before b c = [], if f then outcome k' else None, k')"
    using n(1,2) k'(1) by (auto simp: foundMatch_def outcome_def)
  have all: "contents b = before b c @ bts @ seen" using s'(3) n(4) by simp
  show thesis
  proof (cases "f \<or> before b c = []")
    case True
    have "verdict (contents b) (if f then outcome k' else None)"
      using True k'(3) exhausted [of "bts @ seen" k'] all by (auto split: if_splits)
    moreover have "before b c = [] \<longrightarrow> toOffset c = 0"
      using n(6) \<open>0 \<le> toOffset c\<close> \<open>toOffset c \<le> Size b\<close> Size_contents [OF inv]
      by (auto simp: before_def range_of_def)
    ultimately show thesis using fm True k'(1) n(7) by (intro stop [of "if f then outcome k' else None" k']) auto
  next
    case False
    then have p: "pend (bts @ seen) k'" "before b c \<noteq> []" using k'(3) by auto
    have "searching b (bts @ seen) k'"
      using p n(3,6) k'(2) all by (simp add: searching_def)
    then show thesis
      using fm False p(2) n(2,4,7) k'(2) by (intro go [of k' bts]) auto
  qed
qed

lemma searchLoop_verdict:
  "buf_inv b \<Longrightarrow> searching b seen k \<Longrightarrow> before b (bufcur k) \<noteq> [] \<Longrightarrow>
   \<exists>call. searchLoop FM k = Some call \<and> verdict (contents b) call"
proof (induction "length (before b (bufcur k))" arbitrary: seen k rule: less_induct)
  case less
  from less.prems show ?case
  proof (cases rule: foundMatch_step)
    case (stop call k')
    then show ?thesis by (subst searchLoop.simps) simp
  next
    case (go k' bts)
    from less.hyps [OF go(5) less.prems(1) go(3,4)] go(1) show ?thesis
      by (subst searchLoop.simps) simp
  qed
qed

lemma search_verdict:
  assumes "buf_inv b" "Size b > 0"
    and "pend [] (newCheckBytes (newBufferCursor b False [0, Size b]) t)"
  shows "searching b [] (newCheckBytes (newBufferCursor b False [0, Size b]) t)"
    and "\<exists>call. searchLoop FM (newCheckBytes (newBufferCursor b False [0, Size b]) t) = Some call \<and>
      verdict (contents b) call"
proof -
  note w = new_walks_down [OF assms(1) order_refl assms(2)]
  have "fromOffset (newBufferCursor b False [0, Size b]) = 0"
    unfolding newBufferCursor_def by (rule reset_range(1) [OF assms(1) order_refl assms(2) order_refl])
  then show s: "searching b [] (newCheckBytes (newBufferCursor b False [0, Size b]) t)"
    using w assms(3) by (simp add: searching_def newCheckBytes_def)
  have "before b (bufcur (newCheckBytes (newBufferCursor b False [0, Size b]) t)) \<noteq> []"
    using w(2) assms by (auto simp: newCheckBytes_def Size_contents)
  then show "\<exists>call. searchLoop FM (newCheckBytes (newBufferCursor b False [0, Size b]) t) = Some call \<and>
      verdict (contents b) call"
    by (rule searchLoop_verdict [OF assms(1) s])
qed

end

section \<open>What the scanners recognise\<close>

text \<open>A scanner that has matched the first \<open>i\<close> bytes of the pattern \<open>t\<close>.\<close>

definition matching :: "byte list \<Rightarrow> checkbytes \<Rightarrow> nat \<Rightarrow> bool" where
  "matching t k i \<longleftrightarrow> testbts k = t \<and> testbtsl k = length t \<and> testbtsi k = i \<and> i < length t \<and> \<not> dne k \<and>
     (0 < i \<longrightarrow> prvb k = t ! (i - 1))"

lemma matching_new: "t \<noteq> [] \<Longrightarrow> matching t (newCheckBytes c t) 0"
  by (simp add: matching_def newCheckBytes_def)

lemma matching_cursor [simp]: "matching t (k\<lparr>bufcur := c\<rparr>) i = matching t k i"
  by (simp add: matching_def)

text \<open>The forward step of the code: on a mismatch it only tries to start afresh.\<close>

definition delta :: "byte list \<Rightarrow> nat \<Rightarrow> byte \<Rightarrow> nat" where
  "delta t i b = (if t ! i = b then i + 1 else if t ! 0 = b then 1 else 0)"

lemma delta_le: "i < length t \<Longrightarrow> delta t i b \<le> length t"
  by (auto simp: delta_def)

lemma broken_matching: "matching t k i \<Longrightarrow> broken k b = Some (0 < i \<and> t ! i \<noteq> b)"
  by (auto simp: broken_def matching_def go_index_def nat_diff_distrib)

lemma advance_matching:
  assumes "matching t k i" "t ! i = b"
  shows "advance k b off = (i + 1 = length t,
    if i + 1 = length t then k\<lparr>testbtsi := i + 1, bufcur := (bufcur k)\<lparr>lastOffset := off\<rparr>, dne := True\<rparr>
    else k\<lparr>testbtsi := i + 1, prvb := b\<rparr>)"
  using assms by (auto simp: advance_def matching_def Let_def)

text \<open>
  \<open>t\<close> is recognised reliably when its first byte does not occur in it again: then a broken match
  cannot overlap the next one.
\<close>

definition lead_unique :: "byte list \<Rightarrow> bool" where
  "lead_unique t \<longleftrightarrow> hd t \<notin> set (tl t)"

lemma suffix_snoc_iff: "suffix (xs @ [x]) (ys @ [y]) \<longleftrightarrow> x = y \<and> suffix xs ys"
  by (auto simp: suffix_def)

lemma take_Suc_last: "i < length t \<Longrightarrow> take (Suc i) t = take i t @ [t ! i]"
  by (rule take_Suc_conv_app_nth)

lemma delta_suffix:
  assumes "suffix (take i t) seen" "i < length t"
  shows "suffix (take (delta t i b) t) (seen @ [b])"
proof -
  have "take (i + 1) t = take i t @ [t ! i]" "take 1 t = [] @ [t ! 0]"
    using assms(2) take_Suc_last [of i t] take_Suc_last [of 0 t] by (cases t; simp)+
  then show ?thesis using assms(1) unfolding delta_def by (simp only: suffix_snoc_iff split: if_split) simp
qed

text \<open>No longer prefix of the pattern ends here.\<close>

definition longest :: "byte list \<Rightarrow> byte list \<Rightarrow> nat \<Rightarrow> bool" where
  "longest t seen i \<longleftrightarrow> (\<forall>j \<le> length t. suffix (take j t) seen \<longrightarrow> j \<le> i)"

lemma overlap_lead:
  assumes "suffix (take j t) (take i t)" "0 < j" "j < i" "i \<le> length t"
  shows "\<not> lead_unique t"
proof -
  from assms(1) obtain z where z: "take i t = z @ take j t" by (auto simp: suffix_def)
  have len: "length z = i - j" using arg_cong [OF z, of length] assms by simp
  have "take j t ! 0 = take i t ! (i - j)" using len assms unfolding z by (simp add: nth_append)
  then have "t ! 0 = t ! (i - j)" using assms by simp
  moreover have "t ! (i - j) \<in> set (tl t)"
    using assms by (cases t) (auto simp: nth_Cons' intro!: nth_mem)
  ultimately show ?thesis
    using assms by (cases t) (auto simp: lead_unique_def)
qed

lemma delta_longest:
  assumes "suffix (take i t) seen" "i < length t" "lead_unique t" "longest t seen i"
  shows "longest t (seen @ [b]) (delta t i b)"
  unfolding longest_def
proof (intro allI impI)
  fix j assume j: "j \<le> length t" "suffix (take j t) (seen @ [b])"
  show "j \<le> delta t i b"
  proof (cases j)
    case 0
    then show ?thesis by simp
  next
    case (Suc j')
    then have j': "suffix (take j' t) seen" "t ! j' = b" "j' < length t"
      using j take_Suc_last [of j' t] by (auto simp: suffix_snoc_iff)
    then have le: "j' \<le> i" using assms(4) by (simp add: longest_def)
    show ?thesis
    proof (cases "j' = i \<or> j' = 0")
      case True
      then show ?thesis using j'(2) Suc by (auto simp: delta_def)
    next
      case False
      then have "suffix (take j' t) (take i t)"
        using suffix_length_suffix [OF j'(1) assms(1)] le j'(3) assms(2) by simp
      then have "\<not> lead_unique t" using False le assms(2) by (intro overlap_lead [of j' t i]) auto
      then show ?thesis using assms(3) by simp
    qed
  qed
qed

lemma occurs_snoc: "sublist t (xs @ [x]) \<Longrightarrow> sublist t xs \<or> suffix t (xs @ [x])"
  by (auto simp: sublist_altdef' prefix_snoc)

text \<open>What a forward search may answer: the position in front of an occurrence.\<close>

definition one_before :: "byte list \<Rightarrow> byte list \<Rightarrow> int option \<Rightarrow> bool" where
  "one_before t xs call \<longleftrightarrow> (case call of
     Some i \<Rightarrow> (\<exists>p q. xs = p @ t @ q \<and> i = int (length p) - 1 \<and>
       (lead_unique t \<longrightarrow> (\<forall>p' q'. xs = p' @ t @ q' \<longrightarrow> length p \<le> length p')))
   | None \<Rightarrow> lead_unique t \<longrightarrow> \<not> sublist t xs)"

definition fwd_pend :: "byte list \<Rightarrow> byte list \<Rightarrow> checkbytes \<Rightarrow> bool" where
  "fwd_pend t seen k \<longleftrightarrow> (\<exists>i. matching t k i \<and> suffix (take i t) seen \<and>
     (lead_unique t \<longrightarrow> longest t seen i \<and> \<not> sublist t seen))"

lemma first_occurrence:
  assumes "\<not> sublist t ys" "ys @ [y] = p @ t" "ys @ [y] @ rest = p' @ t @ q'"
  shows "length p \<le> length p'"
proof (rule ccontr)
  assume lt: "\<not> length p \<le> length p'"
  have l: "length ys + 1 = length p + length t" using arg_cong [OF assms(2), of length] by simp
  then have le: "length p' + length t \<le> length ys" using lt by simp
  have "take (length p' + length t) (ys @ [y] @ rest) = p' @ t" unfolding assms(3) by simp
  then have "take (length p' + length t) ys = p' @ t" using le by simp
  then have "ys = p' @ t @ drop (length p' + length t) ys" by (metis append_take_drop_id append.assoc)
  then show False using assms(1) by (metis sublist_def)
qed

locale naive_scanner =
  fixes scan :: "checkbytes \<Rightarrow> nat \<Rightarrow> byte list \<Rightarrow> (bool \<times> checkbytes) option"
  assumes scan_nil: "scan k bn [] = Some (False, k)"
    and scan_hit: "matching t k i \<Longrightarrow> delta t i b = length t \<Longrightarrow>
      \<exists>k'. scan k bn (b # bs) = Some (True, k') \<and> dne k' \<and>
        bufcur k' = (bufcur k)\<lparr>lastOffset := curOffset (bufcur k) + int bn - int (length t)\<rparr>"
    and scan_step: "matching t k i \<Longrightarrow> delta t i b < length t \<Longrightarrow>
      \<exists>k'. scan k bn (b # bs) = scan k' (bn + 1) bs \<and> bufcur k' = bufcur k \<and> matching t k' (delta t i b)"

context naive_scanner
begin

lemma scan_run:
  "fwd_pend t seen k \<Longrightarrow> curOffset (bufcur k) + int bn = int (length seen) \<Longrightarrow>
   scanned (scan k bn bts) (bufcur k) (\<lambda>k'. \<forall>rest. one_before t (seen @ bts @ rest) (outcome k')) (fwd_pend t (seen @ bts))"
proof (induction bts arbitrary: seen k bn)
  case Nil
  then show ?case by (intro scanned_go [of _ k]) (simp_all add: scan_nil)
next
  case (Cons b bs)
  from Cons.prems(1) obtain i where i: "matching t k i" "suffix (take i t) seen"
    "lead_unique t \<longrightarrow> longest t seen i \<and> \<not> sublist t seen" by (auto simp: fwd_pend_def)
  have il: "i < length t" using i(1) by (simp add: matching_def)
  let ?j = "delta t i b"
  have suf: "suffix (take ?j t) (seen @ [b])" using delta_suffix [OF i(2) il] .
  have lng: "lead_unique t \<longrightarrow> longest t (seen @ [b]) ?j" using delta_longest [OF i(2) il] i(3) by blast
  show ?case
  proof (cases "?j = length t")
    case True
    then obtain p where p: "seen @ [b] = p @ t" using suf by (auto simp: suffix_def)
    from scan_hit [OF i(1) True] obtain k' where k': "scan k bn (b # bs) = Some (True, k')" "dne k'"
      "bufcur k' = (bufcur k)\<lparr>lastOffset := curOffset (bufcur k) + int bn - int (length t)\<rparr>" by blast
    have "length seen + 1 = length p + length t" using arg_cong [OF p, of length] by simp
    then have out: "outcome k' = Some (int (length p) - 1)" using k'(2,3) Cons.prems(2) by (simp add: outcome_def)
    have "one_before t (seen @ (b # bs) @ rest) (Some (int (length p) - 1))" for rest
    proof -
      have "seen @ (b # bs) @ rest = p @ t @ bs @ rest" using p by (metis append.assoc append_Cons append_Nil)
      moreover have "lead_unique t \<longrightarrow> (\<forall>p' q'. seen @ (b # bs) @ rest = p' @ t @ q' \<longrightarrow> length p \<le> length p')"
        using first_occurrence [OF _ p, of "bs @ rest"] i(3) by simp
      ultimately show ?thesis unfolding one_before_def option.case by blast
    qed
    with out k' show ?thesis by (intro scanned_stop [of _ k']) auto
  next
    case False
    then have lt: "?j < length t" using delta_le [OF il, of b] by simp
    from scan_step [OF i(1) lt] obtain k' where k': "scan k bn (b # bs) = scan k' (bn + 1) bs"
      "bufcur k' = bufcur k" "matching t k' ?j" by blast
    have "lead_unique t \<longrightarrow> \<not> sublist t (seen @ [b])"
      using i(3) lng lt occurs_snoc [of t seen b] by (force simp: longest_def)
    then have "fwd_pend t (seen @ [b]) k'" using k'(3) suf lng by (auto simp: fwd_pend_def)
    from Cons.IH [OF this, of "bn + 1"] k'(1,2) Cons.prems(2) show ?thesis by simp
  qed
qed

end

sublocale naive_scanner \<subseteq> fwd: forward_scan "\<lambda>k. scan k 0" "fwd_pend t" "one_before t" for t
proof
  fix seen k and bts :: "byte list"
  assume "fwd_pend t seen k" "curOffset (bufcur k) = int (length seen)"
  then show "scanned (scan k 0 bts) (bufcur k) (\<lambda>k'. \<forall>rest. one_before t (seen @ bts @ rest) (outcome k')) (fwd_pend t (seen @ bts))"
    by (intro scan_run) auto
qed (auto simp: fwd_pend_def one_before_def)

text \<open>Both forward scanners are of this kind.\<close>

lemma matching_index: "matching t k i \<Longrightarrow> go_index (testbts k) (int (testbtsi k)) = Some (t ! i)"
  by (simp add: matching_def go_index_def)

lemma matching_len: "matching t k i \<Longrightarrow> testbtsl k = length t"
  by (simp add: matching_def)

lemma delta_hit: "delta t i b = length t \<Longrightarrow> i < length t \<Longrightarrow> t ! i = b \<and> i + 1 = length t"
  by (auto simp: delta_def split: if_splits)

interpretation contains: naive_scanner containsScan
proof
  show "\<exists>k'. containsScan k bn (b # bs) = Some (True, k') \<and> dne k' \<and>
        bufcur k' = (bufcur k)\<lparr>lastOffset := curOffset (bufcur k) + int bn - int (length t)\<rparr>"
    if m: "matching t k i" and d: "delta t i b = length t" for t k i b bn bs
  proof -
    have "t ! i = b" "i + 1 = length t" using delta_hit [OF d] m by (auto simp: matching_def)
    with m show ?thesis
      by (simp add: broken_matching [OF m] advance_matching [OF m] matching_index [OF m] matching_len [OF m])
  qed
next
  show "\<exists>k'. containsScan k bn (b # bs) = containsScan k' (bn + 1) bs \<and> bufcur k' = bufcur k \<and> matching t k' (delta t i b)"
    if m: "matching t k i" and d: "delta t i b < length t" for t k i b bn bs
  proof (cases "t ! i = b")
    case True
    then have "containsScan k bn (b # bs) = containsScan (k\<lparr>testbtsi := i + 1, prvb := b\<rparr>) (bn + 1) bs" "delta t i b = i + 1"
      using d by (auto simp: broken_matching [OF m] advance_matching [OF m] matching_index [OF m] delta_def)
    then show ?thesis using m d True by (auto simp: matching_def)
  next
    case False
    let ?k0 = "if 0 < i then k\<lparr>testbtsi := 0\<rparr> else k"
    have m0: "matching t ?k0 0" using m False by (auto simp: matching_def)
    have lt: "t ! 0 = b \<Longrightarrow> 1 < length t" using False d by (simp add: delta_def)
    let ?k' = "if t ! 0 = b then ?k0\<lparr>testbtsi := 0 + 1, prvb := b\<rparr> else ?k0\<lparr>testbtsi := 0, prvb := b\<rparr>"
    have "containsScan k bn (b # bs) = containsScan ?k' (bn + 1) bs"
      using False lt matching_index [OF m0] advance_matching [OF m0]
      by (cases "t ! 0 = b") (simp_all add: broken_matching [OF m] Let_def split del: if_split)
    moreover have "bufcur ?k' = bufcur k" "matching t ?k' (delta t i b)"
      using False m lt by (auto simp: matching_def delta_def)
    ultimately show ?thesis by blast
  qed
qed simp

interpretation index: naive_scanner indexScan
proof
  show "\<exists>k'. indexScan k bn (b # bs) = Some (True, k') \<and> dne k' \<and>
        bufcur k' = (bufcur k)\<lparr>lastOffset := curOffset (bufcur k) + int bn - int (length t)\<rparr>"
    if m: "matching t k i" and d: "delta t i b = length t" for t k i b bn bs
  proof -
    have "t ! i = b" "i + 1 = length t" using delta_hit [OF d] m by (auto simp: matching_def)
    with m show ?thesis
      by (simp add: broken_matching [OF m] advance_matching [OF m] matching_index [OF m] matching_len [OF m])
  qed
next
  show "\<exists>k'. indexScan k bn (b # bs) = indexScan k' (bn + 1) bs \<and> bufcur k' = bufcur k \<and> matching t k' (delta t i b)"
    if m: "matching t k i" and d: "delta t i b < length t" for t k i b bn bs
  proof (cases "t ! i = b")
    case True
    then have "indexScan k bn (b # bs) = indexScan (k\<lparr>testbtsi := i + 1, prvb := b\<rparr>) (bn + 1) bs" "delta t i b = i + 1"
      using d by (auto simp: broken_matching [OF m] advance_matching [OF m] matching_index [OF m] delta_def)
    then show ?thesis using m d True by (auto simp: matching_def)
  next
    case False
    let ?k0 = "if 0 < i then k\<lparr>testbtsi := 0, prvb := 0\<rparr> else k"
    have m0: "matching t ?k0 0" using m False by (auto simp: matching_def)
    have lt: "t ! 0 = b \<Longrightarrow> 1 < length t" using False d by (simp add: delta_def)
    let ?k' = "if t ! 0 = b then ?k0\<lparr>testbtsi := 0 + 1, prvb := b\<rparr> else ?k0\<lparr>testbtsi := 0, prvb := b\<rparr>"
    have "indexScan k bn (b # bs) = indexScan ?k' (bn + 1) bs"
      using False lt matching_index [OF m0] advance_matching [OF m0]
      by (cases "t ! 0 = b") (simp_all add: broken_matching [OF m] Let_def split del: if_split)
    moreover have "bufcur ?k' = bufcur k" "matching t ?k' (delta t i b)"
      using False m lt by (auto simp: matching_def delta_def)
    ultimately show ?thesis by blast
  qed
qed simp


text \<open>The prefix scanner: everything seen so far has matched.\<close>

definition pre_pend :: "byte list \<Rightarrow> byte list \<Rightarrow> checkbytes \<Rightarrow> bool" where
  "pre_pend t seen k \<longleftrightarrow> matching t k (length seen) \<and> prefix seen t"

definition is_prefix :: "byte list \<Rightarrow> byte list \<Rightarrow> int option \<Rightarrow> bool" where
  "is_prefix t xs call \<longleftrightarrow> (call \<noteq> None \<longleftrightarrow> prefix t xs)"

lemma prefix_next: "prefix seen t \<Longrightarrow> length seen < length t \<Longrightarrow> prefix (seen @ [t ! length seen]) t"
  by (auto simp: prefix_def nth_append) (metis neq_Nil_conv nth_Cons_0 append_Cons append_Nil)

lemma prefixScan_run:
  "pre_pend t seen k \<Longrightarrow>
   scanned (prefixScan k bn bts) (bufcur k) (\<lambda>k'. \<forall>rest. is_prefix t (seen @ bts @ rest) (outcome k')) (pre_pend t (seen @ bts))"
proof (induction bts arbitrary: seen k bn)
  case Nil
  then show ?case by (intro scanned_go [of _ k]) simp_all
next
  case (Cons b bs)
  let ?i = "length seen"
  have m: "matching t k ?i" and pr: "prefix seen t" and il: "?i < length t"
    using Cons.prems by (auto simp: pre_pend_def matching_def)
  then have nxt: "prefix (seen @ [t ! ?i]) t" by (intro prefix_next)
  note sc = broken_matching [OF m] advance_matching [OF m] matching_index [OF m]
  show ?case
  proof (cases "t ! ?i = b")
    case False
    have no: "\<not> prefix t (seen @ (b # bs) @ rest)" for rest
    proof
      assume "prefix t (seen @ (b # bs) @ rest)"
      then obtain z where "seen @ (b # bs) @ rest = t @ z" by (auto simp: prefix_def)
      then have "t ! ?i = (seen @ (b # bs) @ rest) ! ?i" using il by (metis nth_append)
      then show False using False by simp
    qed
    let ?k = "if 0 < ?i then k\<lparr>testbtsi := 0\<rparr> else k"
    have "\<not> dne ?k" "\<exists>off. bufcur ?k = (bufcur k)\<lparr>lastOffset := off\<rparr>"
      using m same_cursor [of "bufcur k"] by (auto simp: matching_def)
    moreover have "prefixScan k bn (b # bs) = Some (True, ?k)" using False by (cases seen) (simp_all add: sc)
    ultimately show ?thesis using no by (intro scanned_stop [of _ ?k]) (simp_all add: is_prefix_def outcome_def)
  next
    case True
    show ?thesis
    proof (cases "?i + 1 = length t")
      case last: True
      then have "length (seen @ [b]) = length t" by simp
      moreover obtain z where "t = (seen @ [b]) @ z" using nxt True by (auto simp: prefix_def)
      ultimately have "seen @ [b] = t" by (metis append_eq_conv_conj append_self_conv length_append same_append_eq take_all_iff order_refl)
      then have pf: "prefix t (seen @ (b # bs) @ rest)" for rest by (metis append.assoc append_Cons append_Nil prefixI)
      obtain k' where "prefixScan k bn (b # bs) = Some (True, k')" "dne k'"
        "\<exists>off. bufcur k' = (bufcur k)\<lparr>lastOffset := off\<rparr>" using True last by (auto simp: sc)
      then show ?thesis using pf by (intro scanned_stop [of _ k']) (simp_all add: is_prefix_def outcome_def)
    next
      case False
      let ?k = "k\<lparr>testbtsi := ?i + 1, prvb := b\<rparr>"
      have "pre_pend t (seen @ [b]) ?k"
        using m nxt True False il by (auto simp: pre_pend_def matching_def)
      from Cons.IH [OF this, of "bn + 1"] True False show ?thesis by (simp add: sc)
    qed
  qed
qed

interpretation prefixes: forward_scan foundPrefix "pre_pend t" "is_prefix t" for t
proof
  show "pre_pend t xs k \<Longrightarrow> is_prefix t xs None" for xs k
    by (auto simp: pre_pend_def is_prefix_def matching_def dest: prefix_length_le)
qed (simp_all add: foundPrefix_def prefixScan_run, simp add: pre_pend_def)

text \<open>The backward scanners count matched bytes from the end of the pattern.\<close>

definition counting :: "byte list \<Rightarrow> checkbytes \<Rightarrow> nat \<Rightarrow> bool" where
  "counting t k i \<longleftrightarrow> testbts k = t \<and> testbtsl k = length t \<and> testbtsi k = i \<and> i < length t \<and> \<not> dne k"

lemma counting_new: "t \<noteq> [] \<Longrightarrow> counting t (newCheckBytes c t) 0"
  by (simp add: counting_def newCheckBytes_def)

lemma counting_index:
  "counting t k i \<Longrightarrow> go_index (testbts k) (int (testbtsl k) - int (testbtsi k + 1)) = Some (t ! (length t - Suc i))"
proof -
  assume "counting t k i"
  then have k: "testbts k = t" "testbtsl k = length t" "testbtsi k = i" "i < length t" by (auto simp: counting_def)
  have e: "int (length t) - int (i + 1) = int (length t - Suc i)" using k(4) by simp
  show ?thesis unfolding k(1-3) e using k(4) by (intro index_nat) simp
qed

lemma counting_len: "counting t k i \<Longrightarrow> testbtsl k = length t"
  by (simp add: counting_def)

lemma advance_counting:
  assumes "counting t k i"
  shows "advance k b off = (i + 1 = length t,
    if i + 1 = length t then k\<lparr>testbtsi := i + 1, bufcur := (bufcur k)\<lparr>lastOffset := off\<rparr>, dne := True\<rparr>
    else k\<lparr>testbtsi := i + 1, prvb := b\<rparr>)"
  using assms by (auto simp: advance_def counting_def Let_def)

lemma drop_back: "i < length t \<Longrightarrow> drop (length t - Suc i) t = t ! (length t - Suc i) # drop (length t - i) t"
  using Cons_nth_drop_Suc [of "length t - Suc i" t] Suc_diff_Suc [of i "length t"] by simp

definition rev_pend :: "byte list \<Rightarrow> byte list \<Rightarrow> checkbytes \<Rightarrow> bool" where
  "rev_pend t seen k \<longleftrightarrow> (\<exists>i. counting t k i \<and> prefix (drop (length t - i) t) seen \<and>
     (length t = 1 \<longrightarrow> hd t \<notin> set seen))"

text \<open>What a backward search may answer: an occurrence; the last one if the pattern is one byte.\<close>

definition occurrence :: "byte list \<Rightarrow> byte list \<Rightarrow> int option \<Rightarrow> bool" where
  "occurrence t xs call \<longleftrightarrow> (case call of
     Some i \<Rightarrow> (\<exists>p q. xs = p @ t @ q \<and> i = int (length p) \<and> (length t = 1 \<longrightarrow> hd t \<notin> set q))
   | None \<Rightarrow> length t = 1 \<longrightarrow> \<not> sublist t xs)"

lemma sublist_single: "sublist [x] xs \<longleftrightarrow> x \<in> set xs"
  by (auto simp: sublist_def in_set_conv_decomp)

lemma reverseScan_run:
  "rev_pend t seen k \<Longrightarrow> curOffset (bufcur k) = int (length rest) \<Longrightarrow> btsl = bi + length ys \<Longrightarrow>
   scanned (reverseScan k btsl bi ys) (bufcur k)
     (\<lambda>k'. dne k' \<and> occurrence t (rest @ rev ys @ seen) (outcome k')) (rev_pend t (rev ys @ seen))"
proof (induction ys arbitrary: seen k bi)
  case Nil
  then show ?case by (intro scanned_go [of _ k]) simp_all
next
  case (Cons b ys)
  from Cons.prems(1) obtain i where m: "counting t k i" and pr: "prefix (drop (length t - i) t) seen"
    and one: "length t = 1 \<longrightarrow> hd t \<notin> set seen" by (auto simp: rev_pend_def)
  have il: "i < length t" using m by (simp add: counting_def)
  let ?off = "curOffset (bufcur k) + (int btsl - int (bi + 1))"
  note sc = advance_counting [OF m, of b ?off] counting_index [OF m]
  show ?case
  proof (cases "t ! (length t - Suc i) = b")
    case True
    then have d: "prefix (drop (length t - Suc i) t) (b # seen)" using pr drop_back [OF il] by simp
    show ?thesis
    proof (cases "i + 1 = length t")
      case last: True
      then obtain q where q: "b # seen = t @ q" using d by (auto simp: prefix_def)
      have off: "?off = int (length (rest @ rev ys))" using Cons.prems(2,3) by simp
      have oc: "occurrence t (rest @ rev (b # ys) @ seen) (Some ?off)"
        unfolding occurrence_def off option.case
        by (intro exI [of _ "rest @ rev ys"] exI [of _ q]) (use q one last in \<open>auto simp: Cons_eq_append_conv\<close>)
      obtain k' where "reverseScan k btsl bi (b # ys) = Some (True, k')" "dne k'"
        "bufcur k' = (bufcur k)\<lparr>lastOffset := ?off\<rparr>" using True last by (simp only: reverseScan.simps sc bind.bind_lunit) simp
      then show ?thesis using oc by (intro scanned_stop [of _ k']) (auto simp: outcome_def)
    next
      case False
      let ?k = "k\<lparr>testbtsi := i + 1, prvb := b\<rparr>"
      have "rev_pend t (b # seen) ?k"
        using m d False il one by (auto simp: rev_pend_def counting_def intro!: exI [of _ "i + 1"])
      moreover have "reverseScan k btsl bi (b # ys) = reverseScan ?k btsl (bi + 1) ys"
        using True False by (simp only: reverseScan.simps sc bind.bind_lunit) simp
      ultimately show ?thesis using Cons.IH [of "b # seen" ?k "bi + 1"] Cons.prems(2,3) by simp
    qed
  next
    case False
    let ?k = "k\<lparr>testbtsi := 0, prvb := b\<rparr>"
    have "length t = 1 \<longrightarrow> hd t \<noteq> b" using False il by (cases t) auto
    then have "rev_pend t (b # seen) ?k"
      using m one by (auto simp: rev_pend_def counting_def intro!: exI [of _ 0])
    moreover have "reverseScan k btsl bi (b # ys) = reverseScan ?k btsl (bi + 1) ys"
      using False by (simp only: reverseScan.simps sc bind.bind_lunit) simp
    ultimately show ?thesis using Cons.IH [of "b # seen" ?k "bi + 1"] Cons.prems(2,3) by simp
  qed
qed

lemma rev_pend_exhausted: "rev_pend t xs k \<Longrightarrow> occurrence t xs None"
  by (cases t) (auto simp: rev_pend_def occurrence_def sublist_single)

interpretation lastindex: backward_scan foundLastIndexOf "rev_pend t" "occurrence t" for t
proof
  fix seen k and bts rest :: "byte list"
  assume p: "rev_pend t seen k" "curOffset (bufcur k) = int (length rest)"
  have "length bts = 0 + length (rev bts)" by simp
  from reverseScan_run [OF p this] show "scanned (foundLastIndexOf k bts) (bufcur k)
      (\<lambda>k'. occurrence t (rest @ bts @ seen) (outcome k')) (rev_pend t (bts @ seen))"
    unfolding foundLastIndexOf_def by (elim scanned_mono) simp_all
qed (simp_all add: rev_pend_exhausted, auto simp: rev_pend_def counting_def)

lemma foundContainsReverse_same: "foundContainsReverse = foundLastIndexOf"
  by (intro ext) (simp add: foundContainsReverse_def foundLastIndexOf_def)

interpretation containsback: backward_scan foundContainsReverse "rev_pend t" "occurrence t" for t
  unfolding foundContainsReverse_same by (rule lastindex.backward_scan_axioms)

text \<open>The suffix scanner: everything seen so far has matched the end of the pattern.\<close>

definition suf_pend :: "byte list \<Rightarrow> byte list \<Rightarrow> checkbytes \<Rightarrow> bool" where
  "suf_pend t seen k \<longleftrightarrow> counting t k (length seen) \<and> suffix seen t"

definition is_suffix :: "byte list \<Rightarrow> byte list \<Rightarrow> int option \<Rightarrow> bool" where
  "is_suffix t xs call \<longleftrightarrow> (call \<noteq> None \<longleftrightarrow> suffix t xs)"

lemma suffix_drop_iff: "suffix xs t \<longleftrightarrow> length xs \<le> length t \<and> drop (length t - length xs) t = xs"
  by (auto simp: suffix_def intro: suffix_drop) (metis append_take_drop_id)

lemma suffixScan_run:
  "suf_pend t seen k \<Longrightarrow>
   scanned (suffixScan k btsl bi ys) (bufcur k)
     (\<lambda>k'. \<forall>rest. is_suffix t (rest @ rev ys @ seen) (outcome k')) (suf_pend t (rev ys @ seen))"
proof (induction ys arbitrary: seen k bi)
  case Nil
  then show ?case by (intro scanned_go [of _ k]) simp_all
next
  case (Cons b ys)
  let ?i = "length seen"
  have m: "counting t k ?i" and sf: "drop (length t - ?i) t = seen" and il: "?i < length t"
    using Cons.prems by (auto simp: suf_pend_def counting_def suffix_drop_iff)
  have nxt: "drop (length t - Suc ?i) t = t ! (length t - Suc ?i) # seen" using drop_back [OF il] sf by simp
  let ?off = "curOffset (bufcur k) + (int btsl - int (bi + 1)) - int (testbtsl k)"
  note sc = advance_counting [OF m, of b ?off] counting_index [OF m]
  show ?case
  proof (cases "t ! (length t - Suc ?i) = b")
    case False
    have no: "\<not> suffix t (rest @ rev (b # ys) @ seen)" for rest
    proof
      assume "suffix t (rest @ rev (b # ys) @ seen)"
      then obtain z where "(rest @ rev ys) @ b # seen = (z @ take (length t - Suc ?i) t) @ drop (length t - Suc ?i) t"
        by (auto simp: suffix_def)
      then have "b # seen = drop (length t - Suc ?i) t" using il by (subst (asm) append_eq_append_conv) auto
      then show False using False nxt by simp
    qed
    have "\<not> dne k" using m by (simp add: counting_def)
    moreover have "suffixScan k btsl bi (b # ys) = Some (True, k)"
      using False by (simp only: suffixScan.simps sc bind.bind_lunit) simp
    ultimately show ?thesis
      using no same_cursor [of "bufcur k"] by (intro scanned_stop [of _ k]) (simp_all add: is_suffix_def outcome_def)
  next
    case True
    show ?thesis
    proof (cases "?i + 1 = length t")
      case last: True
      then have "t = b # seen" using nxt True by simp
      then have sfx: "suffix t (rest @ rev (b # ys) @ seen)" for rest by (auto simp: suffix_def)
      obtain k' where "suffixScan k btsl bi (b # ys) = Some (True, k')" "dne k'"
        "\<exists>off. bufcur k' = (bufcur k)\<lparr>lastOffset := off\<rparr>" using True last by (simp only: suffixScan.simps sc bind.bind_lunit) auto
      then show ?thesis using sfx by (intro scanned_stop [of _ k']) (simp_all add: is_suffix_def outcome_def)
    next
      case False
      let ?k = "k\<lparr>testbtsi := ?i + 1, prvb := b\<rparr>"
      have "suf_pend t (b # seen) ?k"
        using m nxt True False il by (auto simp: suf_pend_def counting_def suffix_drop_iff)
      moreover have "suffixScan k btsl bi (b # ys) = suffixScan ?k btsl (bi + 1) ys"
        using True False by (simp only: suffixScan.simps sc bind.bind_lunit) simp
      ultimately show ?thesis using Cons.IH [of "b # seen" ?k "bi + 1"] by simp
    qed
  qed
qed

interpretation suffixes: backward_scan foundSuffix "suf_pend t" "is_suffix t" for t
proof
  fix seen k and bts rest :: "byte list"
  assume "suf_pend t seen k"
  from suffixScan_run [OF this, of "length bts" 0 "rev bts"]
  show "scanned (foundSuffix k bts) (bufcur k) (\<lambda>k'. is_suffix t (rest @ bts @ seen) (outcome k')) (suf_pend t (bts @ seen))"
    unfolding foundSuffix_def by (elim scanned_mono) simp_all
next
  show "suf_pend t xs k \<Longrightarrow> is_suffix t xs None" for xs k
    by (auto simp: suf_pend_def is_suffix_def counting_def dest: suffix_length_le)
qed (simp add: suf_pend_def counting_def)

section \<open>The exported searches\<close>

lemma foundContains_fwd: "foundContains = (\<lambda>k. containsScan k 0)"
  by (intro ext) (simp add: foundContains_def)

lemma foundIndexOf_fwd: "foundIndexOf = (\<lambda>k. indexScan k 0)"
  by (intro ext) (simp add: foundIndexOf_def)

lemma fwd_pend_new: "t \<noteq> [] \<Longrightarrow> fwd_pend t [] (newCheckBytes c t)"
  by (auto simp: fwd_pend_def longest_def intro!: exI [of _ 0] matching_new)

lemma rev_pend_new: "t \<noteq> [] \<Longrightarrow> rev_pend t [] (newCheckBytes c t)"
  by (auto simp: rev_pend_def intro!: exI [of _ 0] counting_new)

text \<open>
  \<open>Contains\<close> runs both walks in step.  After the same number of steps the backward walk is never
  closer to its end than the forward walk: \<open>in_step\<close>.
\<close>

definition in_step :: "Buffer \<Rightarrow> bufferCursor \<Rightarrow> bufferCursor \<Rightarrow> bool" where
  "in_step b c cb \<longleftrightarrow> (\<exists>n. fromOffset c = int (length (bytes b) * n) \<and>
     Size b - int (length (bytes b) * n) \<le> toOffset cb)"

lemma in_step_next:
  assumes inv: "buf_inv b" and st: "in_step b c cb" and up: "next_up b (fromOffset c) < Size b"
    "fromOffset c' = next_up b (fromOffset c)"
  shows "0 < next_down b 0 (toOffset cb)"
    "toOffset cb' = next_down b 0 (toOffset cb) \<Longrightarrow> in_step b c' cb'"
proof -
  let ?l = "length (bytes b)"
  from st obtain n where n: "fromOffset c = int (?l * n)" "Size b - int (?l * n) \<le> toOffset cb"
    by (auto simp: in_step_def)
  have l: "0 < ?l" "bytesi b < ?l" using inv by (auto simp: buf_inv_def)
  have f: "fromOffset c < chunked_size (buffer b)" using up(1) by (auto simp: next_up_def split: if_splits)
  have "nat (int (?l * n)) div ?l = n" using l(1) by (simp only: nat_int) simp
  then have nx: "next_up b (fromOffset c) = int (?l * Suc n)" using f n(1) by (simp add: next_up_def)
  have dn: "Size b - int (?l * Suc n) \<le> next_down b 0 (toOffset cb)"
  proof -
    define x where "x = int (?l * n)"
    have "0 \<le> x" "int (bytesi b) < int ?l" "int (?l * Suc n) = x + int ?l" "Size b - x \<le> toOffset cb"
      using l(2) n(2) by (simp_all add: x_def)
    then show ?thesis
      using Size_split [OF inv] unfolding next_down_def
      by (cases "chunked_size (buffer b) < toOffset cb"; simp only: if_True if_False; linarith)
  qed
  then show "0 < next_down b 0 (toOffset cb)" using up(1) nx by linarith
  show "toOffset cb' = next_down b 0 (toOffset cb) \<Longrightarrow> in_step b c' cb'"
    using dn up(2) nx unfolding in_step_def by (intro exI [of _ "Suc n"]) simp
qed

text \<open>What the combined search may answer.\<close>

definition contained :: "byte list \<Rightarrow> byte list \<Rightarrow> int option \<Rightarrow> bool" where
  "contained t xs call \<longleftrightarrow> (call \<noteq> None \<longrightarrow> sublist t xs) \<and> (lead_unique t \<and> sublist t xs \<longrightarrow> call \<noteq> None)"

lemma one_before_contained: "one_before t xs call \<Longrightarrow> contained t xs call"
  by (auto simp: one_before_def contained_def sublist_def split: option.splits)

lemma occurrence_contained: "occurrence t xs (Some i) \<Longrightarrow> contained t xs (Some i)"
  by (auto simp: occurrence_def contained_def sublist_def)

lemma reverse_decides:
  assumes "foundContainsReverse k bts = Some (True, k')"
  shows "dne k'"
proof -
  have "reverseScan k n m ys = Some (True, k') \<Longrightarrow> dne k'" for n m ys
    by (induction ys arbitrary: k m)
       (auto simp: advance_def Let_def bind_eq_Some_conv split: if_splits)
  then show ?thesis using assms by (simp add: foundContainsReverse_def)
qed

lemma containsLoop_contained:
  "buf_inv b \<Longrightarrow> 2 \<le> length (bytes b) \<Longrightarrow> contains.fwd.searching t b seen k \<Longrightarrow>
   containsback.searching t b seenb kb \<Longrightarrow> in_step b (bufcur k) (bufcur kb) \<Longrightarrow>
   ahead b (bufcur k) \<noteq> [] \<Longrightarrow> before b (bufcur kb) \<noteq> [] \<Longrightarrow>
   \<exists>call. containsLoop k kb = Some call \<and> contained t (contents b) call"
proof (induction "length (ahead b (bufcur k))" arbitrary: seen k seenb kb rule: less_induct)
  case less
  note inv = less.prems(1,2)
  from contains.fwd.foundMatch_step [OF inv less.prems(3,6), folded foundContains_fwd]
  show ?case
  proof cases
    case (1 call k')
    then show ?thesis by (subst containsLoop.simps) (simp add: one_before_contained)
  next
    case go: (2 k' bts)
    have up: "fromOffset (bufcur k') < Size b"
      using go(4) Size_contents [OF inv(1)] by (auto simp: ahead_def)
    then have up': "next_up b (fromOffset (bufcur k)) < Size b" using go(6) by simp
    note nx = in_step_next [OF inv(1) less.prems(5) up' go(6)]
    from containsback.foundMatch_step [OF inv(1) less.prems(4,7)]
    show ?thesis
    proof cases
      case stop: (1 call kb')
      then have "call = outcome kb'" "dne kb'" using nx(1) reverse_decides by auto
      then have "contained t (contents b) call" using stop(2) by (auto simp: outcome_def intro: occurrence_contained)
      then show ?thesis using go(1) stop(1) by (subst containsLoop.simps) simp
    next
      case bk: (2 kb' btsb)
      from less.hyps [OF go(5) inv go(3) bk(3) nx(2) [OF bk(6)] go(4) bk(4)] go(1) bk(1)
      show ?thesis by (subst containsLoop.simps) simp
    qed
  qed
qed

text \<open>A buffer on which searches run: as \<open>NewBuffer\<close> and \<open>Write\<close> leave it.\<close>

definition searchable :: "Buffer \<Rightarrow> bool" where
  "searchable b \<longleftrightarrow> buf_inv b \<and> 2 \<le> length (bytes b)"

lemma Size_pos: "buf_inv b \<Longrightarrow> 0 < Size b \<longleftrightarrow> contents b \<noteq> []"
  by (simp add: Size_contents)

lemma containsLoop_new:
  assumes b: "searchable b" "Size b > 0" and t: "t \<noteq> []"
  shows "\<exists>call. containsLoop (newCheckBytes (newBufferCursor b True [0, Size b]) t)
      (newCheckBytes (newBufferCursor b False [0, Size b]) t) = Some call \<and> contained t (contents b) call"
proof -
  let ?c = "newBufferCursor b True [0, Size b]" and ?cb = "newBufferCursor b False [0, Size b]"
  have inv: "buf_inv b" "2 \<le> length (bytes b)" using b by (auto simp: searchable_def)
  have al: "aligned b 0" using inv(2) by (simp add: aligned_def)
  note w = new_walks_up [OF inv(1) order_refl b(2) al] new_walks_down [OF inv(1) order_refl b(2)]
  have f: "fromOffset ?c = 0" "toOffset ?cb = Size b"
    unfolding newBufferCursor_def using reset_range [OF inv(1) order_refl b(2) order_refl] by auto
  have "in_step b ?c ?cb" using f by (auto simp: in_step_def intro!: exI [of _ 0])
  moreover have "ahead b ?c \<noteq> []" "before b ?cb \<noteq> []" using w b(2) Size_pos [OF inv(1)] by auto
  ultimately show ?thesis
    using containsLoop_contained [OF inv contains.fwd.search_verdict(1) [OF inv b(2) fwd_pend_new [OF t]]
        containsback.search_verdict(1) [OF inv(1) b(2) rev_pend_new [OF t]]]
    by (simp add: newCheckBytes_def)
qed

lemma internalContainsBytes_contained:
  assumes "searchable b" "t \<noteq> []"
  shows "\<exists>r. internalContainsBytes b t [] = Some r \<and> (r \<longrightarrow> sublist t (contents b)) \<and>
    (lead_unique t \<longrightarrow> r = sublist t (contents b))"
proof (cases "Size b > 0")
  case True
  from containsLoop_new [OF assms(1) True assms(2)] obtain call where
    "containsLoop (newCheckBytes (newBufferCursor b True [0, Size b]) t)
      (newCheckBytes (newBufferCursor b False [0, Size b]) t) = Some call" "contained t (contents b) call" by blast
  then show ?thesis
    using True assms(2) by (auto simp: internalContainsBytes_def default_offsets_def contained_def)
next
  case False
  then have "contents b = []" using assms(1) by (simp add: searchable_def Size_contents)
  with False assms(2) show ?thesis by (auto simp: internalContainsBytes_def)
qed

section \<open>Properties\<close>

text \<open>
  Claim C30: \<open>ContainsBytes\<close> terminates without panic; a positive answer is always right, and
  the answer is exact for every pattern whose first byte does not occur in it again.
\<close>

theorem ContainsBytes_correct:
  assumes "searchable b" "t \<noteq> []"
  shows "\<exists>r. ContainsBytes b t = Some r \<and> (r \<longrightarrow> sublist t (contents b)) \<and>
    (lead_unique t \<longrightarrow> r = sublist t (contents b))"
  using internalContainsBytes_contained [OF assms] by (simp add: ContainsBytes_def)

theorem ContainsBytes_correct_witness:
  "ContainsBytes (NewBuffer\<lparr>bytes := 120 # 123 # 64 # replicate 8189 0, bytesi := 3\<rparr>) [123, 64] = Some True"
  using ContainsBytes_correct [of "NewBuffer\<lparr>bytes := 120 # 123 # 64 # replicate 8189 0, bytesi := 3\<rparr>" "[123, 64]"]
  by (auto simp: searchable_def buf_inv_def NewBuffer_def contents_def lead_unique_def sublist_def
      intro: exI [of _ "[120]"])

lemma collectFound_filter:
  "\<forall>t \<in> set ts. P t = Some (Q t) \<Longrightarrow> collectFound P ts = Some (filter Q ts)"
  by (induction ts) auto

text \<open>
  \<open>ContainsAnyBytes\<close> returns exactly the non-empty patterns that occur, in the given
  order, when every pattern has a first byte that does not recur in it.
\<close>

lemma ContainsAnyBytes_filter:
  assumes "searchable b" "\<forall>t \<in> set ts. t \<noteq> [] \<longrightarrow> lead_unique t"
  shows "ContainsAnyBytes b ts = (let found = filter (\<lambda>t. t \<noteq> [] \<and> sublist t (contents b)) ts in
    Some (found \<noteq> [], found))"
proof -
  have "(if 0 < length t then internalContainsBytes b t [] else Some False) =
      Some (t \<noteq> [] \<and> sublist t (contents b))" if "t \<in> set ts" for t
    using internalContainsBytes_contained [OF assms(1), of t] assms(2) that by auto
  then show ?thesis
    using collectFound_filter [of ts _ "\<lambda>t. t \<noteq> [] \<and> sublist t (contents b)"]
    by (simp add: ContainsAnyBytes_def Let_def)
qed

text \<open>
  \<open>HasPrefixBytes\<close> decides whether the contents start with the pattern, across any
  number of chunks.
\<close>

lemma HasPrefixBytes_correct:
  assumes "searchable b" "t \<noteq> []"
  shows "HasPrefixBytes b t = Some (prefix t (contents b))"
proof (cases "Size b > 0")
  case True
  have "pre_pend t [] (newCheckBytes (newBufferCursor b True [0, Size b]) t)"
    using assms(2) by (simp add: pre_pend_def matching_new)
  from prefixes.search_verdict(2) [OF _ _ True this] assms True show ?thesis
    by (auto simp: HasPrefixBytes_def internalHasPrefixBytes_def default_offsets_def is_prefix_def searchable_def)
next
  case False
  then have "contents b = []" using assms(1) by (simp add: searchable_def Size_contents)
  with False assms(2) show ?thesis by (simp add: HasPrefixBytes_def internalHasPrefixBytes_def)
qed

text \<open>
  \<open>HasSuffixBytes\<close> decides whether the contents end with the pattern, across any
  number of chunks.
\<close>

lemma HasSuffixBytes_correct:
  assumes "searchable b" "t \<noteq> []"
  shows "HasSuffixBytes b t = Some (suffix t (contents b))"
proof (cases "Size b > 0")
  case True
  have "suf_pend t [] (newCheckBytes (newBufferCursor b False [0, Size b]) t)"
    using assms(2) by (simp add: suf_pend_def counting_new)
  from suffixes.search_verdict(2) [OF _ True this] assms True show ?thesis
    by (auto simp: HasSuffixBytes_def internalHasSuffixBytes_def default_offsets_def is_suffix_def searchable_def)
next
  case False
  then have "contents b = []" using assms(1) by (simp add: searchable_def Size_contents)
  with False assms(2) show ?thesis by (simp add: HasSuffixBytes_def)
qed

text \<open>
  Defect: \<open>IndexOfBytes\<close> finds the first occurrence of such a pattern but returns the
  offset one before it, so that a match at the very start is reported like a miss, as -1.
\<close>

lemma IndexOfBytes_one_before:
  assumes "searchable b" "t \<noteq> []" "lead_unique t"
  shows "IndexOfBytes b t = Some i \<longleftrightarrow>
    (if sublist t (contents b)
     then \<exists>p q. contents b = p @ t @ q \<and> i = int (length p) - 1 \<and>
       (\<forall>p' q'. contents b = p' @ t @ q' \<longrightarrow> length p \<le> length p')
     else i = - 1)"
proof (cases "Size b > 0")
  case True
  from index.fwd.search_verdict(2) [OF _ _ True fwd_pend_new [OF assms(2)], folded foundIndexOf_fwd] assms(1)
  obtain call where c: "searchLoop foundIndexOf (newCheckBytes (newBufferCursor b True [0, Size b]) t) = Some call"
    "one_before t (contents b) call" by (auto simp: searchable_def)
  then have "IndexOfBytes b t = Some (case call of Some i \<Rightarrow> i | None \<Rightarrow> - 1)"
    using True assms(2) by (simp add: IndexOfBytes_def internalIndexOfBytes_def default_offsets_def)
  moreover have "sublist t (contents b) \<longleftrightarrow> call \<noteq> None"
    using one_before_contained [OF c(2)] assms(3) by (auto simp: contained_def)
  ultimately show ?thesis
    using c(2) assms(3) by (cases call) (auto simp: one_before_def, (metis order_antisym)+)
next
  case False
  then have "contents b = []" using assms(1) by (simp add: searchable_def Size_contents)
  with False assms(2) show ?thesis by (auto simp: IndexOfBytes_def internalIndexOfBytes_def)
qed

text \<open>
  \<open>LastIndexOfBytes\<close> answers only true occurrences, and for a single byte it answers
  the last one, or -1 exactly when the byte does not occur.
\<close>

lemma LastIndexOfBytes_correct:
  assumes "searchable b" "t \<noteq> []"
  shows "\<exists>i. LastIndexOfBytes b t = Some i \<and>
    (i \<noteq> - 1 \<longrightarrow> (\<exists>p q. contents b = p @ t @ q \<and> i = int (length p) \<and> (length t = 1 \<longrightarrow> hd t \<notin> set q))) \<and>
    (length t = 1 \<longrightarrow> (i = - 1 \<longleftrightarrow> hd t \<notin> set (contents b)))"
proof (cases "Size b > 0")
  case True
  from lastindex.search_verdict(2) [OF _ True rev_pend_new [OF assms(2)]] assms(1)
  obtain call where c: "searchLoop foundLastIndexOf (newCheckBytes (newBufferCursor b False [0, Size b]) t) = Some call"
    "occurrence t (contents b) call" by (auto simp: searchable_def)
  have "LastIndexOfBytes b t = Some (case call of Some i \<Rightarrow> i | None \<Rightarrow> - 1)"
    using c(1) True assms(2) by (simp add: LastIndexOfBytes_def internalLastIndexOfBytes_def default_offsets_def)
  moreover have "hd t \<in> set t" using assms(2) by simp
  moreover have "length t = 1 \<longrightarrow> t = [hd t]" by (cases t) auto
  ultimately show ?thesis
    using c(2) by (cases call) (auto simp: occurrence_def sublist_single, (metis sublist_single)+)
next
  case False
  then have "contents b = []" using assms(1) by (simp add: searchable_def Size_contents)
  with False assms(2) show ?thesis by (auto simp: LastIndexOfBytes_def internalLastIndexOfBytes_def)
qed

text \<open>
  Defect: a pattern that overlaps itself can be missed: \<open>aab\<close> is not found in \<open>aaab\<close>.
\<close>

lemma overlap_missed:
  "ContainsBytes (NewBuffer\<lparr>bytes := 97 # 97 # 97 # 98 # replicate 8188 0, bytesi := 4\<rparr>) [97, 97, 98] = Some False \<and>
   sublist [97, 97, 98] (contents (NewBuffer\<lparr>bytes := 97 # 97 # 97 # 98 # replicate 8188 0, bytesi := 4\<rparr>))"
proof
  show "ContainsBytes (NewBuffer\<lparr>bytes := 97 # 97 # 97 # 98 # replicate 8188 0, bytesi := 4\<rparr>) [97, 97, 98] = Some False"
    unfolding ContainsBytes_def internalContainsBytes_def
    by (subst containsLoop.simps)
       (simp add: Size_def Empty_def NewBuffer_def newBufferCursor_def reset_def Let_def
         default_offsets_def newCheckBytes_def foundMatch_def nextBytes_def nextUp_def stepUp_def
         chunked_size_def go_slice_def go_index_def broken_def advance_def foundContains_def
         numeral_eq_Suc del: replicate.simps)
qed (auto simp: contents_def NewBuffer_def sublist_def intro: exI [of _ "[97]"])

end
