(* ===== verification/BuffReader.thy ===== *)
theory BuffReader
  imports BufferOutput Cursor
begin

text \<open>
  The buffer's reader, type \<open>BuffReader\<close> of \<open>src/ioext/buffer.go\<close>: opening it, \<open>Read\<close> with the
  \<open>MaxRead\<close> budget, \<open>Seek\<close>, \<open>Reset\<close>, \<open>CanRead\<close>, \<open>Close\<close>, the copy loops \<open>WriteTo\<close> and
  \<open>ReadFrom\<close>, \<open>SubBuffer\<close>, and the reader's own byte search \<open>ByteIndex\<close>.

  A reader refers to its buffer; the model holds the buffer as the reader sees it.  The field
  \<open>rnr\<close> (a \<open>bufio.Reader\<close> over the reader) only matters for reading runes and is not part of
  this state; \<open>Options\<close> and \<open>Disposed\<close> are inert here.
\<close>

section \<open>State\<close>

record BuffReader =
  rbuffer :: "Buffer option"
  MaxRead :: int
  rcur :: "bufferCursor option"
  rbytes :: "byte list"
  rbytesi :: nat
  DisposeBuffer :: bool
  DisposeReader :: bool

text \<open>
  The arguments of \<open>Reader\<close>, by dynamic type.  A failed assertion to \<open>int64\<close> yields 0, which
  passes the test \<open>>= 0\<close>: every argument that is no context and no \<open>true\<close> is taken as an offset,
  as 0 if it is none.
\<close>

datatype reader_arg = ArgContext | ArgBool bool | ArgInt64 int | ArgInt64s "int list" | ArgOther

fun readerArgs :: "reader_arg list \<Rightarrow> int list \<Rightarrow> bool \<Rightarrow> int list \<times> bool" where
  "readerArgs [] offset dsp = (offset, dsp)"
| "readerArgs (a # as) offset dsp =
     (if a = ArgContext then readerArgs as offset dsp
      else if a = ArgBool True then readerArgs as offset True
      else
        (let int64d = (case a of ArgInt64 i \<Rightarrow> i | _ \<Rightarrow> 0) in
         if int64d \<ge> 0 \<and> length offset < 2 then readerArgs as (offset @ [int64d]) dsp
         else
           (let offs = (case a of ArgInt64s is \<Rightarrow> is | _ \<Rightarrow> []) in
            if 0 < length offs \<and> length offset = 0 then readerArgs as (offset @ offs) dsp
            else readerArgs as offset dsp)))"

text \<open>\<open>Reader\<close> returns nil for an empty buffer.\<close>

definition Reader :: "Buffer \<Rightarrow> reader_arg list \<Rightarrow> BuffReader option" where
  "Reader b args =
     (if Empty b then None
      else
        (let (offset, dsp) = readerArgs args [] False;
             offset = (if length offset = 0 \<and> Size b > 0 then [0, Size b]
                       else if length offset = 1 \<and> Size b > 0 then offset @ [Size b] else offset)
         in Some \<lparr>rbuffer = Some b, MaxRead = - 1, rcur = Some (newBufferCursor b True offset),
              rbytes = [], rbytesi = 0, DisposeBuffer = dsp, DisposeReader = False\<rparr>))"

definition DisposeEOFReader :: "BuffReader \<Rightarrow> BuffReader" where
  "DisposeEOFReader r = r\<lparr>DisposeReader := True\<rparr>"

definition SetMaxRead :: "BuffReader \<Rightarrow> int \<Rightarrow> BuffReader" where
  "SetMaxRead r maxlen = r\<lparr>MaxRead := (if maxlen < 0 then - 1 else maxlen)\<rparr>"

text \<open>\<open>CanRead\<close> without a rune reader attached.\<close>

definition CanRead :: "BuffReader \<Rightarrow> bool" where
  "CanRead r = (case rcur r of Some c \<Rightarrow> fromOffset c < toOffset c | None \<Rightarrow> False)"

text \<open>\<open>Close\<close>; the second component is the buffer after the reader let go of it.\<close>

definition closeReader :: "BuffReader \<Rightarrow> BuffReader \<times> Buffer option" where
  "closeReader r =
     (r\<lparr>rbuffer := None, DisposeBuffer := (case rbuffer r of Some _ \<Rightarrow> False | None \<Rightarrow> DisposeBuffer r),
        DisposeReader := False, rbytes := [], rcur := None\<rparr>,
      case rbuffer r of
        Some b \<Rightarrow> Some (if DisposeBuffer r then Close None b else b)
      | None \<Rightarrow> None)"

text \<open>
  \<open>Reset\<close> drops the current segment and the budget.  It means to rewind the cursor, but its
  test is inverted: it rewinds only when there is no cursor, so the position stays.
\<close>

definition Reset :: "BuffReader \<Rightarrow> BuffReader" where
  "Reset r = r\<lparr>MaxRead := - 1, rbytes := [], rbytesi := 0\<rparr>"

section \<open>Read\<close>

text \<open>
  \<open>copyBytes\<close> (of \<open>adhoc.go\<close>) copies as much of \<open>src[srci:]\<close> as fits behind \<open>desti\<close>: the copied
  bytes and the new positions.  When there is nothing to do all results are zero.
\<close>

definition copyBytes :: "nat \<Rightarrow> nat \<Rightarrow> byte list \<Rightarrow> nat \<Rightarrow> byte list \<times> nat \<times> nat" where
  "copyBytes destl desti src srci =
     (let srcl = length src in
      if (0 < destl \<and> desti < destl) \<and> (0 < srcl \<and> srci < srcl) then
        (if srcl - srci \<le> destl - desti then
           (let cp = take (srcl - srci) (drop srci src) in (cp, desti + length cp, srci + length cp))
         else
           (let cp = take (destl - desti) (drop srci src) in (cp, desti + length cp, srci + length cp)))
      else ([], 0, 0))"

definition readable :: "BuffReader \<Rightarrow> bool" where
  "readable r \<longleftrightarrow> MaxRead r > 0 \<or> MaxRead r = - 1"

text \<open>
  The innermost loop; \<open>acc\<close> is \<open>p[:n]\<close>.  Its callers pass \<open>rbtsl \<le> len(rbytes)\<close>, otherwise the
  slice \<open>rbytes[:rbtsl]\<close> of the source would not exist.
\<close>

function copyLoop :: "BuffReader \<Rightarrow> nat \<Rightarrow> nat \<Rightarrow> byte list \<Rightarrow> byte list \<times> BuffReader" where
  "copyLoop r pl rbtsl acc =
     (if length acc < pl \<and> rbytesi r < min rbtsl (length (rbytes r)) then
        (let (cp, n, srcn) = copyBytes pl (length acc) (take rbtsl (rbytes r)) (rbytesi r);
             r1 = r\<lparr>rbytesi := srcn\<rparr>;
             r2 = (if 0 < length cp \<and> MaxRead r1 > 0
                   then r1\<lparr>MaxRead := (let m = MaxRead r1 - int (length cp) in if m < 0 then 0 else m)\<rparr>
                   else r1)
         in copyLoop r2 pl rbtsl (acc @ cp))
      else (acc, r))"
  by pat_completeness auto
termination
proof (relation "measure (\<lambda>(r, pl, rbtsl, acc). pl - length acc)", goal_cases)
  case (2 r pl rbtsl acc cb cp b n srcn r1 r2)
  then have "0 < length cp"
    by (auto simp: copyBytes_def Let_def split: if_splits)
  moreover have "length acc < pl" using 2(1) by simp
  ultimately have "pl - (length acc + length cp) < pl - length acc" by arith
  then show ?case by simp
qed simp

declare copyLoop.simps [simp del]

text \<open>The budget after \<open>k\<close> bytes.\<close>

definition spent :: "int \<Rightarrow> nat \<Rightarrow> int" where
  "spent m k = (if m > 0 then max 0 (m - int k) else m)"

lemma copyLoop_once:
  assumes "length acc < pl" "rbytesi r < rbtsl" "rbtsl \<le> length (rbytes r)"
  defines "k \<equiv> min (pl - length acc) (rbtsl - rbytesi r)"
  shows "copyLoop r pl rbtsl acc = (acc @ take k (drop (rbytesi r) (rbytes r)),
    r\<lparr>rbytesi := rbytesi r + k, MaxRead := spent (MaxRead r) k\<rparr>)"
proof -
  let ?cp = "take k (drop (rbytesi r) (rbytes r))"
  have len: "length ?cp = k" "0 < k" using assms by auto
  have cp: "copyBytes pl (length acc) (take rbtsl (rbytes r)) (rbytesi r) = (?cp, length acc + k, rbytesi r + k)"
    using assms by (auto simp: copyBytes_def Let_def min_def drop_take)
  have stop: "copyLoop r' pl rbtsl (acc @ ?cp) = (acc @ ?cp, r')" if "rbytesi r' = rbytesi r + k" for r'
    using that len assms by (subst copyLoop.simps) (auto simp: min_def)
  have ne: "drop (rbytesi r) (rbytes r) \<noteq> []" using assms by simp
  show ?thesis
    using assms(1-3) len ne by (subst copyLoop.simps) (auto simp: cp stop spent_def Let_def max_def)
qed

text \<open>The loop over the current segment: the budget limits how much of it may go.\<close>

definition segEnd :: "BuffReader \<Rightarrow> nat" where
  "segEnd r =
     (let rbtsl = length (rbytes r) in
      if MaxRead r > 0 then
        (let ln = int (rbtsl - rbytesi r); rl = (if ln > MaxRead r then MaxRead r else ln) in
         if rl + int (rbytesi r) < int rbtsl then nat (rl + int (rbytesi r)) else rbtsl)
      else rbtsl)"

lemma segEnd_bounds:
  assumes "readable r" "rbytesi r < length (rbytes r)"
  shows "rbytesi r < segEnd r" "segEnd r \<le> length (rbytes r)"
    "segEnd r - rbytesi r = (if MaxRead r > 0 then min (length (rbytes r) - rbytesi r) (nat (MaxRead r))
       else length (rbytes r) - rbytesi r)"
  using assms by (auto simp: segEnd_def Let_def min_def)

function segLoop :: "BuffReader \<Rightarrow> nat \<Rightarrow> byte list \<Rightarrow> byte list \<times> BuffReader" where
  "segLoop r pl acc =
     (if readable r \<and> length acc < pl \<and> rbytesi r < length (rbytes r) then
        (let (acc', r') = copyLoop r pl (segEnd r) acc in segLoop r' pl acc')
      else (acc, r))"
  by pat_completeness auto
termination
proof (relation "measure (\<lambda>(r, pl, acc). pl - length acc)", goal_cases)
  case (2 r pl acc x acc' r')
  then have g: "readable r" "length acc < pl" "rbytesi r < length (rbytes r)" by auto
  note e = segEnd_bounds [OF g(1,3)]
  have "acc' = acc @ take (min (pl - length acc) (segEnd r - rbytesi r)) (drop (rbytesi r) (rbytes r))"
    using 2(2,3) copyLoop_once [OF g(2) e(1,2)] by simp
  then have "length acc' = length acc + min (pl - length acc) (segEnd r - rbytesi r)"
    using e(2) by simp
  then have "length acc < length acc'" using g(2) e(1) by simp
  then show ?case using g(2) by simp
qed simp

declare segLoop.simps [simp del]

text \<open>
  The outer loop fetches the next segment when the current one is used up.  A cursor that hands
  out nothing without reporting the end would keep it running.
\<close>

definition nextReaderBytes :: "BuffReader \<Rightarrow> (byte list \<times> bool \<times> BuffReader) option" where
  "nextReaderBytes r =
     (case rcur r of
        Some c \<Rightarrow> do { (bts, lst, c') \<leftarrow> nextBytes c; Some (bts, lst, r\<lparr>rcur := Some c'\<rparr>) }
      | None \<Rightarrow> Some ([], True, r))"

partial_function (option) readLoop :: "BuffReader \<Rightarrow> nat \<Rightarrow> byte list \<Rightarrow> (byte list \<times> BuffReader) option" where
  "readLoop r pl acc =
     (if length acc < pl \<and> readable r then
        (if rbytes r = [] \<or> (0 < length (rbytes r) \<and> length (rbytes r) = rbytesi r) then
           do {
             _ \<leftarrow> rcur r;
             (bts, btslst, r') \<leftarrow> nextReaderBytes r;
             if 0 < length bts then readLoop (r'\<lparr>rbytes := bts, rbytesi := 0\<rparr>) pl acc
             else if btslst then Some (acc, r')
             else readLoop r' pl acc
           }
         else (let (acc', r') = segLoop r pl acc in readLoop r' pl acc'))
      else Some (acc, r))"

declare readLoop.simps [code]

text \<open>The state of the reader's context at the moment of a call.\<close>

datatype ctx_state = CtxLive | CtxCanceled | CtxFailed string

definition Read :: "ctx_state \<Rightarrow> BuffReader \<Rightarrow> nat \<Rightarrow> (byte list \<times> go_err option \<times> BuffReader) option" where
  "Read ctx r pl =
     (if 0 < pl then
        (case ctx of
           CtxCanceled \<Rightarrow> Some ([], Some EOF, fst (closeReader r))
         | CtxFailed e \<Rightarrow> Some ([], Some (Err e), fst (closeReader r))
         | CtxLive \<Rightarrow>
             do {
               (acc, r') \<leftarrow> (if readable r then readLoop r pl [] else Some ([], r));
               if length acc = 0
               then Some ([], Some EOF, if DisposeBuffer r' \<or> DisposeReader r' then fst (closeReader r') else r')
               else Some (acc, None, r')
             })
      else Some ([], Some EOF, r))"

section \<open>Seek\<close>

text \<open>
  \<open>whence\<close> is 0, 1 or 2 for start, current and end.  The result of an offset that is not
  accepted is -1, with the reader unchanged.
\<close>

definition seekTo :: "BuffReader \<Rightarrow> Buffer \<Rightarrow> int \<Rightarrow> (int \<times> BuffReader) option" where
  "seekTo r b n = do { c \<leftarrow> rcur r; Some (n, r\<lparr>rcur := Some (reset b True [n, Size b] c)\<rparr>) }"

definition Seek :: "BuffReader \<Rightarrow> int \<Rightarrow> nat \<Rightarrow> (int \<times> BuffReader) option" where
  "Seek r offset whence =
     (case rbuffer r of
        None \<Rightarrow> Some (- 1, r)
      | Some b \<Rightarrow>
          (let bufs = Size b; rajust = int (rbytesi r) in
           if bufs > 0 then
             (if whence = 0 then
                (if offset \<ge> 0 \<and> offset < bufs then seekTo r b offset else Some (- 1, r))
              else if whence = 1 then
                do {
                  c \<leftarrow> rcur r;
                  if curOffset c - rajust \<ge> - 1 \<and> (curOffset c - rajust) + offset < bufs then
                    (if curOffset c = - 1 then seekTo r b (curOffset c + 1 + offset)
                     else seekTo r b ((curOffset c - rajust) + offset))
                  else Some (- 1, r)
                }
              else if whence = 2 then
                (if bufs - offset \<ge> 0 \<and> bufs - offset \<le> bufs then seekTo r b (bufs - offset) else Some (- 1, r))
              else Some (- 1, r))
           else Some (- 1, r)))"

section \<open>What a reader delivers\<close>

text \<open>The unread rest of the segment and of the walk, cut to the budget.\<close>

definition reading :: "Buffer \<Rightarrow> BuffReader \<Rightarrow> bool" where
  "reading b r \<longleftrightarrow> rbytesi r \<le> length (rbytes r) \<and> (\<exists>c. rcur r = Some c \<and> walks_up b c)"

definition left_over :: "Buffer \<Rightarrow> BuffReader \<Rightarrow> byte list" where
  "left_over b r = drop (rbytesi r) (rbytes r) @ (case rcur r of Some c \<Rightarrow> ahead b c | None \<Rightarrow> [])"

definition avail :: "Buffer \<Rightarrow> BuffReader \<Rightarrow> byte list" where
  "avail b r = (if MaxRead r = - 1 then left_over b r
     else if MaxRead r > 0 then take (nat (MaxRead r)) (left_over b r) else [])"

lemma avail_spend:
  assumes "readable r" "k \<le> length (drop (rbytesi r) (rbytes r))" "MaxRead r > 0 \<longrightarrow> k \<le> nat (MaxRead r)"
  shows "avail b r = take k (drop (rbytesi r) (rbytes r)) @
    avail b (r\<lparr>rbytesi := rbytesi r + k, MaxRead := spent (MaxRead r) k\<rparr>)"
proof -
  let ?d = "drop (rbytesi r) (rbytes r)"
  define y where "y = (case rcur r of Some c \<Rightarrow> ahead b c | None \<Rightarrow> [])"
  have split: "?d @ y = take k ?d @ (drop (rbytesi r + k) (rbytes r) @ y)"
    by (metis append.assoc append_take_drop_id drop_drop add.commute)
  show ?thesis
  proof (cases "MaxRead r > 0")
    case True
    define z where "z = drop (rbytesi r + k) (rbytes r) @ y"
    have "length (take k ?d) = k" "k \<le> nat (MaxRead r)" using assms(2,3) True by auto
    then have "take (nat (MaxRead r)) (take k ?d @ z) = take k ?d @ take (nat (MaxRead r) - k) z"
      by (metis take_all take_append)
    then have "take (nat (MaxRead r)) (?d @ y) = take k ?d @ take (nat (MaxRead r) - k) (drop (rbytesi r + k) (rbytes r) @ y)"
      by (simp only: split z_def)
    moreover have "nat (MaxRead r) - k = nat (MaxRead r - int k)" by simp
    ultimately show ?thesis
      using True assms(3) unfolding avail_def left_over_def
      by (auto simp: spent_def max_def simp flip: y_def)
  next
    case False
    then have "MaxRead r = - 1" using assms(1) by (simp add: readable_def)
    then show ?thesis using split by (simp add: avail_def left_over_def spent_def flip: y_def)
  qed
qed

lemma segLoop_once:
  assumes "readable r" "length acc < pl" "rbytesi r < length (rbytes r)"
  defines "k \<equiv> min (pl - length acc) (segEnd r - rbytesi r)"
  shows "segLoop r pl acc = (acc @ take k (drop (rbytesi r) (rbytes r)),
      r\<lparr>rbytesi := rbytesi r + k, MaxRead := spent (MaxRead r) k\<rparr>)"
    "0 < k" "k \<le> length (drop (rbytesi r) (rbytes r))" "MaxRead r > 0 \<longrightarrow> k \<le> nat (MaxRead r)" "length acc + k \<le> pl"
proof -
  note e = segEnd_bounds [OF assms(1,3)]
  let ?r = "r\<lparr>rbytesi := rbytesi r + k, MaxRead := spent (MaxRead r) k\<rparr>"
    and ?acc = "acc @ take k (drop (rbytesi r) (rbytes r))"
  show k: "0 < k" "k \<le> length (drop (rbytesi r) (rbytes r))" "MaxRead r > 0 \<longrightarrow> k \<le> nat (MaxRead r)" "length acc + k \<le> pl"
    using assms(2,3) e unfolding k_def by (auto simp: min_def split: if_splits)
  have stop: "segLoop ?r pl ?acc = (?acc, ?r)"
  proof (cases "length ?acc < pl \<and> rbytesi r + k < length (rbytes r)")
    case True
    then have "k = segEnd r - rbytesi r" using k unfolding k_def by (auto simp: min_def split: if_splits)
    then have "MaxRead r > 0" "k = nat (MaxRead r)" using True e by (auto simp: min_def split: if_splits)
    then have "\<not> readable ?r" by (simp add: readable_def spent_def)
    then show ?thesis by (subst segLoop.simps) simp
  qed (subst segLoop.simps, auto)
  have "copyLoop r pl (segEnd r) acc = (?acc, ?r)"
    using copyLoop_once [OF assms(2) e(1,2)] unfolding k_def .
  then show "segLoop r pl acc = (?acc, ?r)" using assms(1-3) stop by (subst segLoop.simps) simp
qed

text \<open>What a read leaves alone.\<close>

definition same_reader :: "BuffReader \<Rightarrow> BuffReader \<Rightarrow> bool" where
  "same_reader r r' \<longleftrightarrow> rbuffer r' = rbuffer r \<and> DisposeBuffer r' = DisposeBuffer r \<and> DisposeReader r' = DisposeReader r"

lemma readLoop_returns:
  assumes "buf_inv b" "2 \<le> length (bytes b)" "reading b r" "length acc \<le> pl"
  shows "\<exists>r'. readLoop r pl acc = Some (acc @ take (pl - length acc) (avail b r), r') \<and> reading b r' \<and>
    avail b r' = drop (pl - length acc) (avail b r) \<and> same_reader r r'"
  using assms
proof (induction "length (case rcur r of Some c \<Rightarrow> ahead b c | None \<Rightarrow> []) + (pl - length acc)" arbitrary: r acc rule: less_induct)
  case less
  note inv = less.prems(1,2)
  from less.prems(3) obtain c where c: "rcur r = Some c" "walks_up b c" "rbytesi r \<le> length (rbytes r)"
    by (auto simp: reading_def)
  consider (full) "length acc = pl" | (spent_up) "\<not> readable r" | (fetch) "length acc < pl" "readable r" "rbytesi r = length (rbytes r)"
    | (seg) "length acc < pl" "readable r" "rbytesi r < length (rbytes r)" using less.prems(4) c(3) by linarith
  then show ?case
  proof cases
    case full
    then show ?thesis using less.prems(3) by (subst readLoop.simps) (auto simp: same_reader_def)
  next
    case spent_up
    then have "avail b r = []" by (auto simp: readable_def avail_def)
    then show ?thesis using spent_up less.prems(3) by (subst readLoop.simps) (auto simp: same_reader_def)
  next
    case fetch
    have used: "rbytes r = [] \<or> (0 < length (rbytes r) \<and> length (rbytes r) = rbytesi r)" using fetch(3) by auto
    show ?thesis
    proof (cases "ahead b c = []")
      case True
      let ?r = "r\<lparr>rcur := Some c\<rparr>"
      have "readLoop r pl acc = Some (acc, ?r)"
        using fetch used c nextBytes_up_done [OF inv(1) c(2) True]
        by (subst readLoop.simps) (simp add: nextReaderBytes_def)
      moreover have "avail b r = []" using True fetch(3) c by (simp add: avail_def left_over_def)
      moreover have "?r = r" using c(1) by simp
      ultimately show ?thesis using less.prems(3) by (auto simp: same_reader_def)
    next
      case False
      from nextBytes_up [OF inv c(2) this] obtain bts c' where
        n: "nextBytes c = Some (bts, ahead b c' = [], c')" "bts \<noteq> []" "walks_up b c'" "ahead b c = bts @ ahead b c'" .
      let ?r = "r\<lparr>rcur := Some c', rbytes := bts, rbytesi := 0\<rparr>"
      have "readLoop r pl acc = readLoop ?r pl acc"
        using fetch(1,2) used c n(1,2) by (subst readLoop.simps) (simp add: nextReaderBytes_def)
      moreover have "avail b ?r = avail b r" using fetch(3) c n(4) by (simp add: avail_def left_over_def)
      moreover have "reading b ?r" using n(3) by (simp add: reading_def)
      moreover have "length (ahead b c') < length (ahead b c)" using n(2,4) by simp
      ultimately show ?thesis
        using less.hyps [of ?r acc] inv less.prems(4) c(1) by (auto simp: same_reader_def)
    qed
  next
    case seg
    define k where "k = min (pl - length acc) (segEnd r - rbytesi r)"
    note g = segLoop_once [OF seg(2,1,3), folded k_def]
    let ?s = "take k (drop (rbytesi r) (rbytes r))"
    let ?r = "r\<lparr>rbytesi := rbytesi r + k, MaxRead := spent (MaxRead r) k\<rparr>"
    have len: "length ?s = k" using g(3) by simp
    have ne: "\<not> (rbytes r = [] \<or> (0 < length (rbytes r) \<and> length (rbytes r) = rbytesi r))" using seg(3) by auto
    have "readLoop r pl acc = readLoop ?r pl (acc @ ?s)"
      using seg(1,2) g(1) by (subst readLoop.simps) (simp only: ne if_False if_True prod.case Let_def simp_thms)
    moreover have av: "avail b r = ?s @ avail b ?r" using avail_spend [OF seg(2) g(3,4)] .
    moreover have "reading b ?r" using c g(3) by (auto simp: reading_def)
    moreover have "length (acc @ ?s) \<le> pl" "pl - length (acc @ ?s) < pl - length acc" using g(2,5) seg(1) len by simp_all
    moreover have "rcur ?r = rcur r" by simp
    ultimately obtain r' where r': "readLoop r pl acc = Some ((acc @ ?s) @ take (pl - length (acc @ ?s)) (avail b ?r), r')"
      "reading b r'" "avail b r' = drop (pl - length (acc @ ?s)) (avail b ?r)" "same_reader ?r r'"
      using less.hyps [OF _ inv, of ?r "acc @ ?s"] by (metis add_less_cancel_left)
    have "take (pl - length acc) (avail b r) = ?s @ take (pl - length (acc @ ?s)) (avail b ?r)"
      "drop (pl - length acc) (avail b r) = drop (pl - length (acc @ ?s)) (avail b ?r)"
      unfolding av using len g(5) by (simp_all add: take_append drop_append)
    then show ?thesis using r' by (auto simp: same_reader_def)
  qed
qed

section \<open>Readers in general\<close>

text \<open>
  The contract of \<open>io.Reader\<close> for a finite, well-behaved source: a read hands out a prefix of what
  is left, a non-empty one as long as something is left; the only error is \<open>io.EOF\<close>, and it
  comes when nothing is left.
\<close>

type_synonym 's get = "'s \<Rightarrow> nat \<Rightarrow> (byte list \<times> go_err option \<times> 's) option"

definition reads :: "'s get \<Rightarrow> ('s \<Rightarrow> byte list) \<Rightarrow> ('s \<Rightarrow> bool) \<Rightarrow> 's \<Rightarrow> nat \<Rightarrow>
    byte list \<Rightarrow> go_err option \<Rightarrow> 's \<Rightarrow> bool" where
  "reads get rest ok s pl bs e s' \<longleftrightarrow> get s pl = Some (bs, e, s') \<and> ok s' \<and> rest s = bs @ rest s' \<and>
     length bs \<le> pl \<and> (rest s \<noteq> [] \<longrightarrow> bs \<noteq> []) \<and> (e \<noteq> None \<longrightarrow> e = Some EOF \<and> rest s' = []) \<and>
     (rest s = [] \<longrightarrow> e = Some EOF)"

locale byte_source =
  fixes get :: "'s get" and rest :: "'s \<Rightarrow> byte list" and ok :: "'s \<Rightarrow> bool"
  assumes get_reads: "ok s \<Longrightarrow> 0 < pl \<Longrightarrow> \<exists>bs e s'. reads get rest ok s pl bs e s'"

text \<open>A reader that is not set to dispose itself at the end is such a source.\<close>

definition reader_ok :: "Buffer \<Rightarrow> BuffReader \<Rightarrow> bool" where
  "reader_ok b r \<longleftrightarrow> buf_inv b \<and> 2 \<le> length (bytes b) \<and> reading b r \<and> \<not> DisposeBuffer r \<and> \<not> DisposeReader r"

lemma Read_returns:
  assumes "buf_inv b" "2 \<le> length (bytes b)" "reading b r" "0 < pl" "\<not> DisposeBuffer r \<and> \<not> DisposeReader r"
  shows "\<exists>r'. Read CtxLive r pl = Some (take pl (avail b r), if avail b r = [] then Some EOF else None, r') \<and>
    reading b r' \<and> avail b r' = drop pl (avail b r) \<and> same_reader r r'"
proof (cases "readable r")
  case True
  from readLoop_returns [OF assms(1-3), of "[]" pl] obtain r' where
    "readLoop r pl [] = Some (take pl (avail b r), r')" "reading b r'" "avail b r' = drop pl (avail b r)"
    "same_reader r r'" by auto
  then show ?thesis using True assms(4,5) by (auto simp: Read_def same_reader_def)
next
  case False
  then have "avail b r = []" by (auto simp: readable_def avail_def)
  then show ?thesis using False assms(3-5) by (auto simp: Read_def same_reader_def)
qed

interpretation buffreader: byte_source "Read CtxLive" "avail b" "reader_ok b" for b
proof
  fix r pl
  assume r: "reader_ok b r" "0 < (pl::nat)"
  then have "buf_inv b" "2 \<le> length (bytes b)" "reading b r" "\<not> DisposeBuffer r \<and> \<not> DisposeReader r"
    by (auto simp: reader_ok_def)
  from Read_returns [OF this(1-3) r(2) this(4)] obtain r' where
    "Read CtxLive r pl = Some (take pl (avail b r), if avail b r = [] then Some EOF else None, r')"
    "reading b r'" "avail b r' = drop pl (avail b r)" "same_reader r r'" by blast
  with r show "\<exists>bs e r'. reads (Read CtxLive) (avail b) (reader_ok b) r pl bs e r'"
    by (intro exI [of _ "take pl (avail b r)"] exI [of _ "if avail b r = [] then Some EOF else None"] exI [of _ r'])
       (auto simp: reads_def reader_ok_def same_reader_def)
qed

text \<open>So is a cursor.\<close>

definition cursor_ok :: "Buffer \<Rightarrow> bufferCursor \<Rightarrow> bool" where
  "cursor_ok b c \<longleftrightarrow> buf_inv b \<and> 2 \<le> length (bytes b) \<and> walks_up b c"

interpretation cursor: byte_source "\<lambda>c pl. curRead c pl []" "unread b" "cursor_ok b" for b
proof
  fix c pl
  assume c: "cursor_ok b c" "0 < (pl::nat)"
  then have "buf_inv b" "2 \<le> length (bytes b)" "walks_up b c" by (auto simp: cursor_ok_def)
  from curRead_returns [OF this, of "[]" pl] obtain c' where
    "curRead c pl [] = Some (take pl (unread b c), if length (unread b c) < pl then Some EOF else None, c')"
    "walks_up b c'" "unread b c' = drop pl (unread b c)" by auto
  with c show "\<exists>bs e c'. reads (\<lambda>c pl. curRead c pl []) (unread b) (cursor_ok b) c pl bs e c'"
    by (intro exI [of _ "take pl (unread b c)"] exI [of _ "if length (unread b c) < pl then Some EOF else None"] exI [of _ c'])
       (auto simp: reads_def cursor_ok_def)
qed

section \<open>Filling a buffer from a reader\<close>

text \<open>
  \<open>ReadFrom\<close>.  The source wraps its argument in a \<open>bufio.Reader\<close> of 4096 bytes; a read of 4096
  bytes through an empty \<open>bufio.Reader\<close> goes straight to the underlying reader.
\<close>

partial_function (option) readFromLoop ::
  "'s get \<Rightarrow> Buffer \<Rightarrow> 's \<Rightarrow> nat \<Rightarrow> (nat \<times> go_err option \<times> Buffer \<times> 's) option" where
  "readFromLoop get b s n =
     do {
       (p, pnerr, s') \<leftarrow> get s 4096;
       (n', b') \<leftarrow> (if 0 < length p then do { (wn, b') \<leftarrow> writeBytes b (length p) p; Some (n + wn, b') }
                    else Some (n, b));
       if pnerr \<noteq> None then Some (n', pnerr, b', s')
       else if length p = 0 then Some (n', Some EOF, b', s')
       else readFromLoop get b' s' n'
     }"

declare readFromLoop.simps [code]

definition ReadFrom :: "'s get \<Rightarrow> Buffer \<Rightarrow> 's \<Rightarrow> (nat \<times> go_err option \<times> Buffer \<times> 's) option" where
  "ReadFrom get b s = readFromLoop get b s 0"

definition SubBuffer :: "Buffer \<Rightarrow> int list \<Rightarrow> Buffer option" where
  "SubBuffer b offsets =
     (if 0 < length offsets then
        (let bfs = Size b in
         if offsets ! 0 < bfs \<and> offsets ! 0 > - 1 then
           (let offsets = (if length offsets = 1 then offsets @ [Size b] else offsets) in
            if offsets ! 0 < bfs \<and> offsets ! 1 \<le> bfs then
              (case Reader b [ArgInt64 (offsets ! 0), ArgInt64 (offsets ! 1)] of
                 Some r \<Rightarrow> do { (n, e, sub, r') \<leftarrow> ReadFrom (Read CtxLive) NewBuffer r; Some sub }
               | None \<Rightarrow> Some NewBuffer)
            else Some NewBuffer)
         else Some NewBuffer)
      else Some NewBuffer)"

context byte_source
begin

lemma get_step:
  assumes "ok s" "0 < pl"
  obtains p e s1 where "get s pl = Some (p, e, s1)" "ok s1" "rest s = p @ rest s1" "rest s \<noteq> [] \<longrightarrow> p \<noteq> []"
      "e \<noteq> None \<longrightarrow> e = Some EOF \<and> rest s1 = []" "rest s = [] \<longrightarrow> e = Some EOF" "length p \<le> pl"
  using get_reads [OF assms] unfolding reads_def by blast

lemma readFromLoop_returns:
  "ok s \<Longrightarrow> buf_inv b \<Longrightarrow>
   \<exists>b' s'. readFromLoop get b s n = Some (n + length (rest s), Some EOF, b', s') \<and>
     contents b' = contents b @ rest s \<and> buf_inv b' \<and> same_setup b b' \<and> ok s' \<and> rest s' = []"
proof (induction "length (rest s)" arbitrary: s b n rule: less_induct)
  case less
  have pos: "(0::nat) < 4096" by simp
  from get_step [OF less.prems(1) pos] obtain p e s1 where
    g: "get s 4096 = Some (p, e, s1)" "ok s1" "rest s = p @ rest s1" "rest s \<noteq> [] \<longrightarrow> p \<noteq> []"
      "e \<noteq> None \<longrightarrow> e = Some EOF \<and> rest s1 = []" "rest s = [] \<longrightarrow> e = Some EOF" .
  obtain b1 where w: "writeBytes b (length p) p = Some (length p, b1)" "contents b1 = contents b @ p"
    "buf_inv b1" "same_setup b b1" using writeBytes_returns [OF less.prems(2)] by blast
  define b2 where "b2 = (if 0 < length p then b1 else b)"
  have b2: "contents b2 = contents b @ p" "buf_inv b2" "same_setup b b2"
    using w less.prems(2) by (auto simp: b2_def)
  have step: "readFromLoop get b s n = (if e \<noteq> None then Some (n + length p, e, b2, s1)
      else if length p = 0 then Some (n + length p, Some EOF, b2, s1) else readFromLoop get b2 s1 (n + length p))"
    using g(1) w(1) by (subst readFromLoop.simps) (cases "p = []"; simp add: b2_def)
  show ?case
  proof (cases "e = None")
    case False
    then have "e = Some EOF" "rest s1 = []" "length (rest s) = length p" "contents b2 = contents b @ rest s"
      using g(3,5) b2(1) by auto
    then show ?thesis using step g(2) b2(2,3) by (intro exI [of _ b2] exI [of _ s1]) simp
  next
    case True
    then have ne: "p \<noteq> []" using g(4,6) by auto
    then have "length (rest s1) < length (rest s)" using g(3) by simp
    from less.hyps [OF this g(2) b2(2), of "n + length p"] obtain b' s' where
      "readFromLoop get b2 s1 (n + length p) = Some (n + length p + length (rest s1), Some EOF, b', s')"
      "contents b' = contents b2 @ rest s1" "buf_inv b'" "same_setup b2 b'" "ok s'" "rest s' = []" by blast
    then show ?thesis
      using step True ne g(3) b2(1) same_setup_trans [OF b2(3)] by (intro exI [of _ b'] exI [of _ s']) simp
  qed
qed

end

section \<open>Copying a reader into a writer\<close>

text \<open>\<open>BuffReader.WriteTo\<close>: the inner loop repeats a short write with the rest.\<close>

function writeRest :: "'w put \<Rightarrow> 'w \<Rightarrow> byte list \<Rightarrow> (go_err option \<times> 'w) option" where
  "writeRest put w p =
     (if p = [] then Some (None, w)
      else do {
        (wn, wnerr, w') \<leftarrow> put w p;
        if wnerr \<noteq> None then Some (wnerr, w')
        else if wn = 0 then Some (None, w')
        else writeRest put w' (drop wn p)
      })"
  by pat_completeness auto
termination
  by (relation "measure (\<lambda>(put, w, p). length p)") auto

declare writeRest.simps [simp del]

partial_function (option) writeToLoop ::
  "'s get \<Rightarrow> 'w put \<Rightarrow> 's \<Rightarrow> 'w \<Rightarrow> nat \<Rightarrow> (nat \<times> go_err option \<times> 's \<times> 'w) option" where
  "writeToLoop get put s w n =
     do {
       (p, pnerr, s') \<leftarrow> get s 4096;
       (wnerr, w') \<leftarrow> (if 0 < length p then writeRest put w p else Some (None, w));
       let pnerr = (if wnerr \<noteq> None then wnerr else pnerr);
       let pnerr = (if pnerr = None \<and> length p = 0 then Some EOF else pnerr);
       if pnerr \<noteq> None then Some (n + length p, pnerr, s', w')
       else writeToLoop get put s' w' (n + length p)
     }"

declare writeToLoop.simps [code]

definition readerWriteTo :: "BuffReader \<Rightarrow> 'w put \<Rightarrow> 'w \<Rightarrow> (nat \<times> go_err option \<times> BuffReader \<times> 'w) option" where
  "readerWriteTo r put w = writeToLoop (Read CtxLive) put r w 0"

text \<open>A writer that reports what it was given.\<close>

locale full_sink = byte_sink +
  assumes reported_all: "reported p = int (length p)"

text \<open>A source connected to such a writer.\<close>

locale pipe = src: byte_source get rest ok + snk: full_sink put reported sunk accepts
  for get :: "'s get" and rest ok and put :: "'w put" and reported sunk accepts
begin

lemma writeRest_all:
  assumes "accepts w (p @ q)"
  shows "\<exists>w'. writeRest put w p = Some (None, w') \<and> sunk w' = sunk w @ p \<and> accepts w' q"
proof (cases "p = []")
  case True
  then show ?thesis using assms by (subst writeRest.simps) simp
next
  case False
  from snk.put_appends [OF assms] obtain w' n where
    "put w p = Some (n, None, w')" "int n = reported p" "sunk w' = sunk w @ p" "accepts w' q" by blast
  moreover have "n = length p" using calculation(2) by (simp add: snk.reported_all)
  moreover have "writeRest put w' [] = Some (None, w')" by (subst writeRest.simps) simp
  ultimately show ?thesis using False by (subst writeRest.simps) simp
qed

lemma writeToLoop_copies:
  "ok s \<Longrightarrow> accepts w (rest s @ q) \<Longrightarrow>
   \<exists>s' w'. writeToLoop get put s w n = Some (n + length (rest s), Some EOF, s', w') \<and>
     sunk w' = sunk w @ rest s \<and> accepts w' q \<and> ok s' \<and> rest s' = []"
proof (induction "length (rest s)" arbitrary: s w n rule: less_induct)
  case less
  have pos: "(0::nat) < 4096" by simp
  from src.get_step [OF less.prems(1) pos] obtain p e s1 where
    g: "get s 4096 = Some (p, e, s1)" "ok s1" "rest s = p @ rest s1" "rest s \<noteq> [] \<longrightarrow> p \<noteq> []"
      "e \<noteq> None \<longrightarrow> e = Some EOF \<and> rest s1 = []" "rest s = [] \<longrightarrow> e = Some EOF" .
  have "accepts w (p @ (rest s1 @ q))" using less.prems(2) g(3) by simp
  from writeRest_all [OF this] obtain w1 where
    w: "writeRest put w p = Some (None, w1)" "sunk w1 = sunk w @ p" "accepts w1 (rest s1 @ q)" by blast
  have w1: "(if 0 < length p then writeRest put w p else Some (None, w)) = Some (None, w1)"
    using w(1) writeRest.simps [of put w "[]"] by (cases "p = []") simp_all
  have step: "writeToLoop get put s w n = (if (if e = None \<and> length p = 0 then Some EOF else e) \<noteq> None
      then Some (n + length p, if e = None \<and> length p = 0 then Some EOF else e, s1, w1)
      else writeToLoop get put s1 w1 (n + length p))"
    using g(1) w1 by (subst writeToLoop.simps) (cases e; simp add: Let_def)
  show ?case
  proof (cases "e = None")
    case False
    then have "e = Some EOF" "rest s1 = []" "length (rest s) = length p" "sunk w1 = sunk w @ rest s" "accepts w1 q"
      using g(3,5) w(2,3) by auto
    then show ?thesis using step g(2) by (intro exI [of _ s1] exI [of _ w1]) simp
  next
    case True
    then have ne: "p \<noteq> []" using g(4,6) by auto
    then have "length (rest s1) < length (rest s)" using g(3) by simp
    from less.hyps [OF this g(2) w(3), of "n + length p"] obtain s' w' where
      "writeToLoop get put s1 w1 (n + length p) = Some (n + length p + length (rest s1), Some EOF, s', w')"
      "sunk w' = sunk w1 @ rest s1" "accepts w' q" "ok s'" "rest s' = []" by blast
    then show ?thesis using step True ne g(3) w(2) by (intro exI [of _ s'] exI [of _ w']) simp
  qed
qed

end

interpretation bufsink_full: full_sink bufPut "\<lambda>p. int (length p)" contents "\<lambda>b p. buf_ready b"
  by unfold_locales simp

interpretation reader_to_buffer: pipe "Read CtxLive" "avail b" "reader_ok b" bufPut "\<lambda>p. int (length p)" contents
  "\<lambda>b p. buf_ready b" for b
  by unfold_locales

section \<open>Searching through a reader\<close>

text \<open>
  \<open>ByteIndex\<close> and \<open>LastByteIndexWithinOffsets\<close> scan the reader's buffer with three local
  variables.  Finding an index of -1 (a match at the very start) does not stop them, and the
  next byte then indexes the pattern behind its end.
\<close>

record ByteScan =
  bsi :: nat
  bprv :: byte
  toffset :: int

definition scanByte :: "byte list \<Rightarrow> ByteScan \<Rightarrow> byte \<Rightarrow> (bool \<times> ByteScan) option" where
  "scanByte bs st bt =
     do {
       st1 \<leftarrow> (if bsi st > 0 then
                  do { p \<leftarrow> go_index bs (int (bsi st) - 1);
                       if p = bprv st
                       then do { c \<leftarrow> go_index bs (int (bsi st));
                                 Some (if c \<noteq> bt then st\<lparr>bsi := 0, bprv := 0\<rparr> else st) }
                       else Some st }
                else Some st);
       c \<leftarrow> go_index bs (int (bsi st1));
       if c = bt then
         (let st2 = st1\<lparr>bsi := bsi st1 + 1\<rparr> in
          if bsi st2 = length bs then Some (True, st2) else Some (False, st2\<lparr>bprv := bt\<rparr>))
       else Some (False, st1\<lparr>bsi := 0\<rparr>)
     }"

text \<open>One segment forwards; the result is the index if one was found.\<close>

fun byteIndexSeg :: "byte list \<Rightarrow> ByteScan \<Rightarrow> byte list \<Rightarrow> (int option \<times> ByteScan) option" where
  "byteIndexSeg bs st [] = Some (None, st)"
| "byteIndexSeg bs st (bt # bts) =
     do {
       (fin, st') \<leftarrow> scanByte bs (st\<lparr>toffset := toffset st + 1\<rparr>) bt;
       if fin then Some (Some (toffset st' - int (length bs)), st') else byteIndexSeg bs st' bts
     }"

fun byteIndexChunks :: "byte list \<Rightarrow> ByteScan \<Rightarrow> byte list list \<Rightarrow> (int \<times> ByteScan) option" where
  "byteIndexChunks bs st [] = Some (- 1, st)"
| "byteIndexChunks bs st (c # cs) =
     do {
       (i, st') \<leftarrow> byteIndexSeg bs st c;
       case i of Some i \<Rightarrow> (if i > - 1 then Some (i, st') else byteIndexChunks bs st' cs)
       | None \<Rightarrow> byteIndexChunks bs st' cs
     }"

definition ByteIndex :: "BuffReader \<Rightarrow> byte list \<Rightarrow> int option" where
  "ByteIndex r bs =
     (case rbuffer r of
        None \<Rightarrow> Some (- 1)
      | Some b \<Rightarrow>
          if 0 < length bs then
            do {
              (i, st) \<leftarrow> byteIndexChunks bs \<lparr>bsi = 0, bprv = 0, toffset = - 1\<rparr> (buffer b);
              if i = - 1 \<and> 0 < bytesi b then
                do { (j, st') \<leftarrow> byteIndexSeg bs st (take (bytesi b) (bytes b));
                     Some (case j of Some j \<Rightarrow> j | None \<Rightarrow> i) }
              else Some i
            }
          else Some (- 1))"

definition Index :: "BuffReader \<Rightarrow> byte list \<Rightarrow> int option" where
  "Index r s = (if s = [] then Some (- 1) else ByteIndex r s)"

text \<open>
  The backward variant.  In the array it counts every byte; in the chunks it counts chunks, and
  it reads the bytes of the array instead of those of the chunk.
\<close>

fun lastIndexSeg :: "bool \<Rightarrow> int \<Rightarrow> byte list \<Rightarrow> ByteScan \<Rightarrow> byte list \<Rightarrow> (int option \<times> ByteScan) option" where
  "lastIndexSeg cnt sz bs st [] = Some (None, st)"
| "lastIndexSeg cnt sz bs st (bt # bts) =
     do {
       (fin, st') \<leftarrow> scanByte bs (if cnt then st\<lparr>toffset := toffset st + 1\<rparr> else st) bt;
       if fin then
         (let st2 = st'\<lparr>toffset := toffset st' + int (length bs)\<rparr> in Some (Some (sz - toffset st2), st2))
       else lastIndexSeg cnt sz bs st' bts
     }"

fun lastIndexChunks :: "int \<Rightarrow> byte list \<Rightarrow> byte list \<Rightarrow> ByteScan \<Rightarrow> byte list list \<Rightarrow> int option" where
  "lastIndexChunks sz bts bs st [] = Some (- 1)"
| "lastIndexChunks sz bts bs st (bf # bfs) =
     do {
       seg \<leftarrow> go_slice bts 0 (int (length bf));
       (i, st') \<leftarrow> lastIndexSeg False sz bs (st\<lparr>toffset := toffset st + 1\<rparr>) (rev seg);
       case i of Some i \<Rightarrow> (if i > - 1 then Some i else lastIndexChunks sz bts bs st' bfs)
       | None \<Rightarrow> lastIndexChunks sz bts bs st' bfs
     }"

definition LastByteIndexWithinOffsets :: "BuffReader \<Rightarrow> int \<Rightarrow> int \<Rightarrow> byte list \<Rightarrow> int option" where
  "LastByteIndexWithinOffsets r startoffset endoffset bs =
     (case rbuffer r of
        None \<Rightarrow> Some (- 1)
      | Some b \<Rightarrow>
          if 0 < length bs \<and> Size b > 0 then
            do {
              (i, st) \<leftarrow> lastIndexSeg True (Size b) (rev bs) \<lparr>bsi = 0, bprv = 0, toffset = 0\<rparr>
                          (rev (take (bytesi b) (bytes b)));
              let index = (case i of Some i \<Rightarrow> i | None \<Rightarrow> - 1);
              if index = - 1 \<and> 0 < length (buffer b)
              then lastIndexChunks (Size b) (bytes b) (rev bs) st (rev (buffer b))
              else Some index
            }
          else Some (- 1))"

definition LastIndex :: "BuffReader \<Rightarrow> byte list \<Rightarrow> int list \<Rightarrow> int option" where
  "LastIndex r s offset =
     (if s = [] then Some (- 1)
      else if length offset = 2 then LastByteIndexWithinOffsets r (offset ! 0) (offset ! 1) s
      else if length offset = 1 then LastByteIndexWithinOffsets r (- 1) (offset ! 0) s
      else LastByteIndexWithinOffsets r (- 1) (- 1) s)"

section \<open>Properties\<close>

lemma Reader_opens:
  assumes "buf_inv b" "2 \<le> length (bytes b)" "0 \<le> lo" "lo < Size b" "aligned b lo"
  shows "\<exists>r. Reader b [ArgInt64 lo] = Some r \<and> reader_ok b r \<and> avail b r = drop (nat lo) (contents b) \<and>
      MaxRead r = - 1 \<and> rbuffer r = Some b"
  using new_walks_up [OF assms(1,3-5)] assms Empty_contents [OF assms(1)]
  by (auto simp: Reader_def reader_ok_def reading_def avail_def left_over_def Size_contents)

lemma Reader_default: "Size b > 0 \<Longrightarrow> Reader b [] = Reader b [ArgInt64 0]"
  by (simp add: Reader_def)

lemma aligned_0: "2 \<le> length (bytes b) \<Longrightarrow> aligned b 0"
  by (simp add: aligned_def)

lemma Reader_whole:
  assumes "buf_inv b" "2 \<le> length (bytes b)" "contents b \<noteq> []"
  shows "\<exists>r. Reader b [] = Some r \<and> reader_ok b r \<and> avail b r = contents b \<and> MaxRead r = - 1 \<and> rbuffer r = Some b"
proof -
  have "0 < Size b" using assms by (simp add: Size_contents)
  then show ?thesis
    using Reader_opens [OF assms(1,2) order_refl _ aligned_0 [OF assms(2)]] by (simp add: Reader_default)
qed

text \<open>
  Claim C31: \<open>Read\<close> hands out the next bytes, as many as the slice and the \<open>MaxRead\<close> budget allow, reports \<open>io.EOF\<close> exactly when nothing is left, and
  leaves the rest for later calls.  This holds for a reader whose cursor runs forward to the end of the buffer from a position that is not the
  last byte of a full chunk, with \<open>DisposeBuffer\<close> and \<open>DisposeReader\<close> off, a context that is not cancelled, a slice that is not
  empty and a buffer whose array has at least two bytes.
\<close>

theorem Read_delivers:
  assumes "buf_inv b" "2 \<le> length (bytes b)" "reading b r" "0 < pl" "\<not> DisposeBuffer r" "\<not> DisposeReader r"
  shows "\<exists>r'. Read CtxLive r pl = Some (take pl (avail b r), if avail b r = [] then Some EOF else None, r') \<and>
    reading b r' \<and> avail b r' = drop pl (avail b r)"
  using Read_returns [OF assms(1-4)] assms(5,6) by blast

theorem Read_delivers_witness:
  "\<exists>r r'. Reader (NewBuffer\<lparr>bytes := 5 # 6 # 7 # replicate 8189 0, bytesi := 3\<rparr>) [] = Some r \<and>
     Read CtxLive r 2 = Some ([5, 6], None, r')"
proof -
  let ?b = "NewBuffer\<lparr>bytes := 5 # 6 # 7 # replicate 8189 0, bytesi := 3\<rparr>"
  have b: "buf_inv ?b" "2 \<le> length (bytes ?b)" "contents ?b = [5, 6, 7]"
    by (simp_all add: buf_inv_def NewBuffer_def contents_def)
  then obtain r where r: "Reader ?b [] = Some r" "reader_ok ?b r" "avail ?b r = [5, 6, 7]"
    using Reader_whole [of ?b] by auto
  have "reading ?b r" "\<not> DisposeBuffer r" "\<not> DisposeReader r" using r(2) by (auto simp: reader_ok_def)
  from Read_delivers [OF b(1,2) this(1) _ this(2,3), of 2] r show ?thesis by (auto simp: numeral_2_eq_2)
qed

text \<open>
  Claim C32: reading back.  \<open>ReadFrom\<close> on a fresh reader of a buffer terminates and appends that
  buffer's contents to the target, with the number of bytes as its count; the error it returns
  at the end is \<open>io.EOF\<close>.
\<close>

theorem ReadFrom_roundtrip:
  assumes "buf_inv b" "2 \<le> length (bytes b)" "contents b \<noteq> []" "buf_inv t"
  shows "\<exists>r t' r'. Reader b [] = Some r \<and>
    ReadFrom (Read CtxLive) t r = Some (length (contents b), Some EOF, t', r') \<and>
    contents t' = contents t @ contents b \<and> buf_inv t'"
  using Reader_whole [OF assms(1-3)] buffreader.readFromLoop_returns [OF _ assms(4), of b _ 0]
  by (fastforce simp: ReadFrom_def)

theorem ReadFrom_roundtrip_witness:
  "\<exists>r t' r'. Reader (NewBuffer\<lparr>bytes := 5 # 6 # replicate 8190 0, bytesi := 2\<rparr>) [] = Some r \<and>
    ReadFrom (Read CtxLive) NewBuffer r = Some (2, Some EOF, t', r') \<and> contents t' = [5, 6]"
  using ReadFrom_roundtrip [of "NewBuffer\<lparr>bytes := 5 # 6 # replicate 8190 0, bytesi := 2\<rparr>" NewBuffer]
  by (auto simp: buf_inv_def NewBuffer_def contents_def numeral_2_eq_2)

text \<open>
  Claim C33: the budget.  Copying a reader limited by \<open>SetMaxRead\<close> into another buffer moves the
  first \<open>m\<close> bytes and no more; a negative limit means no limit.
\<close>

theorem SetMaxRead_limits:
  assumes "buf_inv b" "2 \<le> length (bytes b)" "contents b \<noteq> []" "buf_ready t"
  shows "\<exists>r t' r' n. Reader b [] = Some r \<and>
    readerWriteTo (SetMaxRead r m) bufPut t = Some (n, Some EOF, r', t') \<and>
    contents t' = contents t @ (if m < 0 then contents b else take (nat m) (contents b))"
proof -
  from Reader_whole [OF assms(1-3)] obtain r where
    r: "Reader b [] = Some r" "reader_ok b r" "avail b r = contents b" "MaxRead r = - 1" by blast
  let ?r = "SetMaxRead r m"
  have ok: "reader_ok b ?r" using r(2) by (simp add: reader_ok_def reading_def SetMaxRead_def)
  have "avail b ?r = (if m < 0 then contents b else take (nat m) (contents b))"
    using r(3,4) by (auto simp: avail_def SetMaxRead_def left_over_def)
  then show ?thesis
    using r(1) reader_to_buffer.writeToLoop_copies [OF ok, where w = t and n = 0] assms(4)
    by (auto simp: readerWriteTo_def)
qed

theorem SetMaxRead_limits_witness:
  "\<exists>r t' r' n. Reader (NewBuffer\<lparr>bytes := 5 # 6 # 7 # replicate 8189 0, bytesi := 3\<rparr>) [] = Some r \<and>
    readerWriteTo (SetMaxRead r 2) bufPut NewBuffer = Some (n, Some EOF, r', t') \<and> contents t' = [5, 6]"
  using SetMaxRead_limits [of "NewBuffer\<lparr>bytes := 5 # 6 # 7 # replicate 8189 0, bytesi := 3\<rparr>" NewBuffer 2]
  by (auto simp: buf_inv_def buf_ready_def NewBuffer_def contents_def numeral_2_eq_2)

text \<open>
  \<open>SubBuffer\<close> from an offset to the end is the rest of the contents in a new buffer
  (the offset must not be the last byte of a full chunk).
\<close>

lemma SubBuffer_rest:
  assumes "buf_inv b" "2 \<le> length (bytes b)" "0 \<le> lo" "lo < Size b" "aligned b lo"
  shows "\<exists>s. SubBuffer b [lo] = Some s \<and> contents s = drop (nat lo) (contents b) \<and> buf_inv s"
proof -
  from Reader_opens [OF assms] obtain r where r: "Reader b [ArgInt64 lo] = Some r" "reader_ok b r"
    "avail b r = drop (nat lo) (contents b)" by blast
  moreover have "Reader b [ArgInt64 lo, ArgInt64 (Size b)] = Reader b [ArgInt64 lo]"
    using assms by (simp add: Reader_def)
  ultimately show ?thesis
    using buffreader.readFromLoop_returns [OF r(2) buf_inv_NewBuffer, of 0] assms
    by (auto simp: SubBuffer_def ReadFrom_def)
qed

text \<open>
  Defect: after \<open>Seek\<close> to an offset from the start the reader delivers the contents from there
  on, but (defect) only after the unread rest of the segment it was in, which the seek keeps.
\<close>

lemma Seek_start:
  assumes "buf_inv b" "2 \<le> length (bytes b)" "reading b r" "rbuffer r = Some b" "MaxRead r = - 1"
    "0 \<le> off" "off < Size b" "aligned b off"
  shows "\<exists>r'. Seek r off 0 = Some (off, r') \<and> reading b r' \<and>
    avail b r' = drop (rbytesi r) (rbytes r) @ drop (nat off) (contents b)"
proof -
  from assms(3) obtain c where c: "rcur r = Some c" "rbytesi r \<le> length (rbytes r)" by (auto simp: reading_def)
  note w = reset_walks_up [OF assms(1,6-8), of c]
  show ?thesis
    using c w assms(4-7) by (simp add: Seek_def seekTo_def reading_def avail_def left_over_def Let_def)
qed

text \<open>
  Defect: \<open>Reset\<close> does not rewind.  A reader that has been read to the end has
  nothing to deliver after it either.
\<close>

lemma Reset_keeps_position:
  assumes "reading b r" "MaxRead r = - 1" "avail b r = []"
  shows "reading b (Reset r) \<and> avail b (Reset r) = []"
  using assms by (auto simp: Reset_def reading_def avail_def left_over_def)

text \<open>
  Defect: a list of offsets given to \<open>Reader\<close> is ignored: the reader covers the whole
  buffer, as if no offsets had been given.
\<close>

lemma Reader_ignores_offset_list:
  assumes "buf_inv b" "contents b \<noteq> []"
  shows "Reader b [ArgInt64s offs] = Reader b []"
  using assms by (simp add: Reader_def Size_contents)

end
