(* ===== verification/Store.thy ===== *)
theory Store
  imports Prelude "HOL-Library.AList"
begin

text \<open>
  The concurrent map \<open>sync.Map\<close> of Go's standard library, as a key-value store.  The containers
  of \<open>src/ioext/itermap.go\<close> and \<open>src/parameters/parameters.go\<close> keep their state in such maps;
  what they rely on is stated once as the locale \<open>kv_store\<close>.

  A map is an association list with distinct keys.  \<open>Range\<close> visits the keys of a \<open>sync.Map\<close> in
  an unspecified order; the order of the list stands for any of them, and no lemma depends on it.
\<close>

section \<open>The contract\<close>

locale kv_store =
  fixes load :: "'m \<Rightarrow> 'k \<Rightarrow> 'v option" and store :: "'m \<Rightarrow> 'k \<Rightarrow> 'v \<Rightarrow> 'm" and del :: "'m \<Rightarrow> 'k \<Rightarrow> 'm"
    and ks :: "'m \<Rightarrow> 'k list" and wf :: "'m \<Rightarrow> bool"
  assumes load_store: "wf m \<Longrightarrow> load (store m k v) k' = (if k' = k then Some v else load m k')"
    and load_del: "wf m \<Longrightarrow> load (del m k) k' = (if k' = k then None else load m k')"
    and wf_store: "wf m \<Longrightarrow> wf (store m k v)"
    and wf_del: "wf m \<Longrightarrow> wf (del m k)"
    and keys_load: "wf m \<Longrightarrow> k \<in> set (ks m) \<longleftrightarrow> load m k \<noteq> None"
    and keys_distinct: "wf m \<Longrightarrow> distinct (ks m)"

context kv_store
begin

lemma set_keys_store: "wf m \<Longrightarrow> set (ks (store m k v)) = insert k (set (ks m))"
  by (auto simp: keys_load load_store wf_store split: if_splits)

lemma set_keys_del: "wf m \<Longrightarrow> set (ks (del m k)) = set (ks m) - {k}"
  by (auto simp: keys_load load_del wf_del split: if_splits)

lemma length_keys: "wf m \<Longrightarrow> length (ks m) = card (set (ks m))"
  by (simp add: keys_distinct distinct_card)

text \<open>The number of keys after a store and a delete: what a separately kept counter must do.\<close>

lemma count_store: "wf m \<Longrightarrow> length (ks (store m k v)) = (if load m k = None then Suc (length (ks m)) else length (ks m))"
  by (simp add: length_keys wf_store set_keys_store insert_absorb keys_load)

lemma count_del: "wf m \<Longrightarrow> length (ks (del m k)) = (if load m k = None then length (ks m) else length (ks m) - 1)"
  by (auto simp: length_keys wf_del set_keys_del keys_load)

lemma no_keys: "wf m \<Longrightarrow> ks m = [] \<longleftrightarrow> (\<forall>k. load m k = None)"
  using keys_load [of m] by (cases "ks m") force+

text \<open>Deleting a list of keys.\<close>

lemma fold_del:
  "wf m \<Longrightarrow> wf (fold (\<lambda>k m. del m k) xs m) \<and>
   load (fold (\<lambda>k m. del m k) xs m) k' = (if k' \<in> set xs then None else load m k')"
  by (induction xs arbitrary: m) (auto simp: load_del wf_del)

end

section \<open>The map\<close>

type_synonym ('k, 'v) smap = "('k \<times> 'v) list"

definition Load :: "('k, 'v) smap \<Rightarrow> 'k \<Rightarrow> 'v option" where
  "Load m k = map_of m k"

definition StoreKey :: "('k, 'v) smap \<Rightarrow> 'k \<Rightarrow> 'v \<Rightarrow> ('k, 'v) smap" where
  "StoreKey m k v = AList.update k v m"

definition DeleteKey :: "('k, 'v) smap \<Rightarrow> 'k \<Rightarrow> ('k, 'v) smap" where
  "DeleteKey m k = AList.delete k m"

definition RangeKeys :: "('k, 'v) smap \<Rightarrow> 'k list" where
  "RangeKeys m = map fst m"

definition smap_ok :: "('k, 'v) smap \<Rightarrow> bool" where
  "smap_ok m \<longleftrightarrow> distinct (map fst m)"

interpretation smap: kv_store Load StoreKey DeleteKey RangeKeys smap_ok
proof
  show "Load (StoreKey m k v) k' = (if k' = k then Some v else Load m k')" for m :: "('a, 'b) smap" and k v k'
    by (simp add: Load_def StoreKey_def update_conv')
  show "Load (DeleteKey m k) k' = (if k' = k then None else Load m k')" for m :: "('a, 'b) smap" and k k'
    by (simp add: Load_def DeleteKey_def delete_conv')
  show "smap_ok m \<Longrightarrow> smap_ok (StoreKey m k v)" for m :: "('a, 'b) smap" and k v
    by (simp add: smap_ok_def StoreKey_def distinct_update)
  show "smap_ok m \<Longrightarrow> smap_ok (DeleteKey m k)" for m :: "('a, 'b) smap" and k
    by (simp add: smap_ok_def DeleteKey_def distinct_delete)
  show "k \<in> set (RangeKeys m) \<longleftrightarrow> Load m k \<noteq> None" for m :: "('a, 'b) smap" and k
    by (auto simp: RangeKeys_def Load_def map_of_eq_None_iff)
  show "smap_ok m \<Longrightarrow> distinct (RangeKeys m)" for m :: "('a, 'b) smap"
    by (simp add: smap_ok_def RangeKeys_def)
qed

lemma smap_ok_Nil [simp]: "smap_ok []" "Load [] k = None" "RangeKeys [] = []"
  by (simp_all add: smap_ok_def Load_def RangeKeys_def)

lemmas smap_simps [map_simps] = smap.load_store smap.load_del smap.wf_store smap.wf_del
  smap.count_store smap.count_del smap.set_keys_store smap.set_keys_del

end
