(* ===== verification/IterMap.thy ===== *)
theory IterMap
  imports Store
begin

text \<open>
  The observable map of \<open>src/ioext/itermap.go\<close>: a \<open>sync.Map\<close> whose changes are announced to an
  event handler.  The model keeps the announcements in the order in which the operations make
  them (each one runs in a goroutine of its own, so handlers may observe them later).

  Keys are of any comparable type; \<open>blank\<close> is the test for the empty string that the code makes
  on keys of type string.  Values are compared with \<open>=\<close>, as \<open>reflect.Value.Equal\<close> does on
  comparable values.
\<close>

section \<open>State and operations\<close>

datatype ('k, 'v) map_event =
  EvDeleted "('k, 'v) smap" | EvDisposed "('k, 'v) smap" | EvChanged 'k 'v 'v | EvAdd 'k 'v

record ('k, 'v) itermap =
  orgsncmp :: "('k, 'v) smap option"
  mpevents :: bool
  emitted :: "('k, 'v) map_event list"

definition MapIterator :: "('k, 'v) itermap" where
  "MapIterator = \<lparr>orgsncmp = Some [], mpevents = False, emitted = []\<rparr>"

text \<open>The four methods of \<open>MapIterateEvents\<close> call the handler if there is one.\<close>

definition emit :: "('k, 'v) map_event \<Rightarrow> ('k, 'v) itermap \<Rightarrow> ('k, 'v) itermap" where
  "emit e m = (if mpevents m then m\<lparr>emitted := emitted m @ [e]\<rparr> else m)"

text \<open>\<open>Events\<close> attaches the event table on first use.\<close>

definition Events :: "('k, 'v) itermap \<Rightarrow> ('k, 'v) itermap" where
  "Events m = m\<lparr>mpevents := True\<rparr>"

definition imEmpty :: "('k, 'v) itermap \<Rightarrow> bool" where
  "imEmpty m = (case orgsncmp m of Some s \<Rightarrow> RangeKeys s = [] | None \<Rightarrow> True)"

definition imContains :: "('k, 'v) itermap \<Rightarrow> 'k \<Rightarrow> bool" where
  "imContains m k = (case orgsncmp m of Some s \<Rightarrow> Load s k \<noteq> None | None \<Rightarrow> False)"

definition imGet :: "('k \<Rightarrow> bool) \<Rightarrow> ('k, 'v) itermap \<Rightarrow> 'k \<Rightarrow> 'v option" where
  "imGet blank m k =
     (if blank k then None else (case orgsncmp m of Some s \<Rightarrow> Load s k | None \<Rightarrow> None))"

definition imSet :: "('k \<Rightarrow> bool) \<Rightarrow> ('k, 'v) itermap \<Rightarrow> 'k \<Rightarrow> 'v \<Rightarrow> ('k, 'v) itermap" where
  "imSet blank m k v =
     (if blank k then m
      else (case orgsncmp m of
          None \<Rightarrow> m
        | Some s \<Rightarrow>
            (case Load s k of
               Some prv \<Rightarrow>
                 if prv \<noteq> v then emit (EvChanged k prv v) (m\<lparr>orgsncmp := Some (StoreKey s k v)\<rparr>) else m
             | None \<Rightarrow> emit (EvAdd k v) (m\<lparr>orgsncmp := Some (StoreKey s k v)\<rparr>))))"

text \<open>The entries that a \<open>Range\<close> with deletion removes, and what remains.\<close>

definition taken :: "('k \<Rightarrow> bool) \<Rightarrow> ('k, 'v) smap \<Rightarrow> ('k, 'v) smap" where
  "taken P s = filter (\<lambda>(k, v). P k) s"

definition dropKeys :: "('k \<Rightarrow> bool) \<Rightarrow> ('k, 'v) smap \<Rightarrow> ('k, 'v) smap" where
  "dropKeys P s = fold (\<lambda>k s. DeleteKey s k) (filter P (RangeKeys s)) s"

definition imClear :: "('k, 'v) itermap \<Rightarrow> ('k, 'v) itermap" where
  "imClear m =
     (case orgsncmp m of
        None \<Rightarrow> m
      | Some s \<Rightarrow>
          (let m1 = m\<lparr>orgsncmp := Some (dropKeys (\<lambda>k. True) s)\<rparr>; tmp = taken (\<lambda>k. True) s in
           if 0 < length tmp then emit (EvDeleted tmp) m1 else m1))"

definition imDelete :: "('k \<Rightarrow> bool) \<Rightarrow> ('k, 'v) itermap \<Rightarrow> 'k list \<Rightarrow> ('k, 'v) itermap" where
  "imDelete blank m names =
     (let names = filter (\<lambda>k. \<not> blank k) names in
      if names = [] then m
      else (case orgsncmp m of
          None \<Rightarrow> m
        | Some s \<Rightarrow>
            (let P = (\<lambda>k. k \<in> set names);
                 m1 = m\<lparr>orgsncmp := Some (dropKeys P s)\<rparr>; tmp = taken P s in
             if 0 < length tmp then emit (EvDeleted tmp) m1 else m1)))"

text \<open>\<open>Close\<close> detaches the table before it empties it; the handler is told what was in it.\<close>

definition imClose :: "('k, 'v) itermap \<Rightarrow> ('k, 'v) itermap" where
  "imClose m =
     (let m1 = m\<lparr>mpevents := False, orgsncmp := None\<rparr> in
      (case orgsncmp m of
         None \<Rightarrow> m1
       | Some s \<Rightarrow>
           (let tmp = taken (\<lambda>k. True) s in
            if 0 < length tmp \<and> mpevents m then m1\<lparr>emitted := emitted m @ [EvDisposed tmp]\<rparr> else m1)))"

text \<open>\<open>Iterate\<close> hands the entries to \<open>yield\<close> until it answers false.\<close>

fun imIterate :: "('k \<Rightarrow> 'v \<Rightarrow> 's \<Rightarrow> bool \<times> 's) \<Rightarrow> ('k, 'v) smap \<Rightarrow> 's \<Rightarrow> 's" where
  "imIterate yield [] acc = acc"
| "imIterate yield ((k, v) # s) acc =
     (let (go, acc') = yield k v acc in if go then imIterate yield s acc' else acc')"

definition Iterate :: "('k \<Rightarrow> 'v \<Rightarrow> 's \<Rightarrow> bool \<times> 's) \<Rightarrow> ('k, 'v) itermap \<Rightarrow> 's \<Rightarrow> 's" where
  "Iterate yield m acc = (case orgsncmp m of Some s \<Rightarrow> imIterate yield s acc | None \<Rightarrow> acc)"

section \<open>The abstract map\<close>

definition im_ok :: "('k, 'v) itermap \<Rightarrow> bool" where
  "im_ok m \<longleftrightarrow> (case orgsncmp m of Some s \<Rightarrow> smap_ok s | None \<Rightarrow> True)"

definition entries :: "('k, 'v) itermap \<Rightarrow> 'k \<rightharpoonup> 'v" where
  "entries m = (case orgsncmp m of Some s \<Rightarrow> Load s | None \<Rightarrow> Map.empty)"

lemma emit_simps [simp]:
  "orgsncmp (emit e m) = orgsncmp m" "mpevents (emit e m) = mpevents m" "im_ok (emit e m) = im_ok m"
  "entries (emit e m) = entries m"
  by (simp_all add: emit_def im_ok_def entries_def)

lemma dropKeys_props:
  assumes "smap_ok s"
  shows "smap_ok (dropKeys P s)" "Load (dropKeys P s) k = (if P k then None else Load s k)"
  using smap.fold_del [OF assms, of "filter P (RangeKeys s)" k] smap.keys_load [OF assms, of k]
  by (auto simp: dropKeys_def)

lemma taken_load: "smap_ok s \<Longrightarrow> Load (taken P s) k = (if P k then Load s k else None)"
  unfolding taken_def Load_def smap_ok_def
  by (induction s) (auto simp: map_of_eq_None_iff)

lemma taken_ok: "smap_ok s \<Longrightarrow> smap_ok (taken P s)"
  unfolding taken_def smap_ok_def by (induction s) (auto simp: image_iff)

lemma taken_Nil: "taken P s = [] \<longleftrightarrow> (\<forall>k \<in> set (RangeKeys s). \<not> P k)"
  by (auto simp: taken_def RangeKeys_def filter_empty_conv)

text \<open>Every operation keeps the map well-formed and acts on the entries as on a finite map.\<close>

lemma imSet_entries:
  assumes "im_ok m" "orgsncmp m \<noteq> None" "\<not> blank k"
  shows "entries (imSet blank m k v) = (entries m)(k \<mapsto> v)" "im_ok (imSet blank m k v)"
    "orgsncmp (imSet blank m k v) \<noteq> None"
proof -
  from assms(2) obtain s where s: "orgsncmp m = Some s" by auto
  then have ok: "smap_ok s" using assms(1) by (simp add: im_ok_def)
  then have "Load (StoreKey s k v) = (Load s)(k \<mapsto> v)" by (auto simp: smap_simps)
  then show "entries (imSet blank m k v) = (entries m)(k \<mapsto> v)" "im_ok (imSet blank m k v)"
    "orgsncmp (imSet blank m k v) \<noteq> None"
    using s ok assms(3)
    by (auto simp: imSet_def entries_def im_ok_def smap_simps map_upd_triv split: option.splits)
qed

lemma imDelete_entries:
  assumes "im_ok m"
  shows "entries (imDelete blank m ks) = entries m |` (- {k \<in> set ks. \<not> blank k})" "im_ok (imDelete blank m ks)"
proof -
  have "entries (imDelete blank m ks) k = (entries m |` (- {k \<in> set ks. \<not> blank k})) k" for k
    using assms by (auto simp: imDelete_def Let_def entries_def im_ok_def dropKeys_props restrict_map_def
        filter_empty_conv split: option.splits)
  then show "entries (imDelete blank m ks) = entries m |` (- {k \<in> set ks. \<not> blank k})" by blast
  show "im_ok (imDelete blank m ks)"
    using assms by (auto simp: imDelete_def Let_def im_ok_def dropKeys_props split: option.splits)
qed

lemma imClear_entries:
  assumes "im_ok m"
  shows "entries (imClear m) = Map.empty" "im_ok (imClear m)"
  using assms by (auto simp: imClear_def Let_def entries_def im_ok_def dropKeys_props split: option.splits)

section \<open>The events tell the whole story\<close>

text \<open>A listener that applies what it is told to a map of its own.\<close>

fun apply_event :: "('k \<rightharpoonup> 'v) \<Rightarrow> ('k, 'v) map_event \<Rightarrow> ('k \<rightharpoonup> 'v)" where
  "apply_event f (EvAdd k v) = f(k \<mapsto> v)"
| "apply_event f (EvChanged k old new) = f(k \<mapsto> new)"
| "apply_event f (EvDeleted s) = f |` (- set (RangeKeys s))"
| "apply_event f (EvDisposed s) = f |` (- set (RangeKeys s))"

definition replayed :: "('k, 'v) map_event list \<Rightarrow> 'k \<rightharpoonup> 'v" where
  "replayed es = foldl apply_event Map.empty es"

text \<open>The operations as a client issues them.\<close>

datatype ('k, 'v) map_op = OpSet 'k 'v | OpDelete "'k list" | OpClear | OpClose

fun runOp :: "('k \<Rightarrow> bool) \<Rightarrow> ('k, 'v) itermap \<Rightarrow> ('k, 'v) map_op \<Rightarrow> ('k, 'v) itermap" where
  "runOp blank m (OpSet k v) = imSet blank m k v"
| "runOp blank m (OpDelete ks) = imDelete blank m ks"
| "runOp blank m OpClear = imClear m"
| "runOp blank m OpClose = imClose m"

definition faithful :: "('k, 'v) itermap \<Rightarrow> bool" where
  "faithful m \<longleftrightarrow> im_ok m \<and> (mpevents m \<or> orgsncmp m = None) \<and> replayed (emitted m) = entries m"

lemma replayed_snoc: "replayed (es @ [e]) = apply_event (replayed es) e"
  by (simp add: replayed_def)

lemma set_RangeKeys_taken: "smap_ok s \<Longrightarrow> k \<in> set (RangeKeys (taken P s)) \<longleftrightarrow> P k \<and> Load s k \<noteq> None"
  using smap.keys_load [OF taken_ok [of s P], of k] by (simp add: taken_load)

lemma imSet_faithful: "faithful m \<Longrightarrow> faithful (imSet blank m k v)"
proof -
  assume f: "faithful m"
  show ?thesis
  proof (cases "blank k \<or> orgsncmp m = None")
    case True
    then have "imSet blank m k v = m" by (auto simp: imSet_def)
    then show ?thesis using f by simp
  next
    case False
    then obtain s where s: "orgsncmp m = Some s" by auto
    then have ev: "mpevents m" "smap_ok s" using f by (auto simp: faithful_def im_ok_def)
    have "entries (imSet blank m k v) = (entries m)(k \<mapsto> v)" "im_ok (imSet blank m k v)"
      using imSet_entries [of m blank k v] f False by (auto simp: faithful_def)
    moreover have "replayed (emitted (imSet blank m k v)) = (replayed (emitted m))(k \<mapsto> v)"
      using False s ev f
      by (auto simp: imSet_def emit_def replayed_snoc faithful_def entries_def map_upd_triv split: option.splits)
    moreover have "mpevents (imSet blank m k v)"
      using ev(1) by (auto simp: imSet_def split: option.splits)
    ultimately show ?thesis using f by (simp add: faithful_def)
  qed
qed

lemma remove_faithful:
  fixes m :: "('k, 'v) itermap" and P :: "'k \<Rightarrow> bool"
  assumes f: "faithful m" and s: "orgsncmp m = Some s"
  defines "m' \<equiv> (let m1 = m\<lparr>orgsncmp := Some (dropKeys P s)\<rparr> in
    if 0 < length (taken P s) then emit (EvDeleted (taken P s)) m1 else m1)"
  shows "faithful m'"
proof -
  have ev: "mpevents m" "smap_ok s" "replayed (emitted m) = Load s"
    using f s by (auto simp: faithful_def im_ok_def entries_def)
  have e: "entries m' k = (if P k then None else Load s k)" "im_ok m'" "mpevents m'" for k
    using ev by (auto simp: m'_def Let_def entries_def im_ok_def dropKeys_props emit_def)
  have "replayed (emitted m') k = (if P k then None else Load s k)" for k
  proof (cases "taken P s = []")
    case True
    then have "P k \<Longrightarrow> Load s k = None" using smap.keys_load [OF ev(2), of k] by (auto simp: taken_Nil)
    then show ?thesis using True ev by (auto simp: m'_def)
  next
    case False
    then have "emitted m' = emitted m @ [EvDeleted (taken P s)]"
      using ev(1) by (simp add: m'_def emit_def)
    then show ?thesis
      using ev set_RangeKeys_taken [OF ev(2), of k P] by (auto simp: replayed_snoc restrict_map_def)
  qed
  then have "replayed (emitted m') = entries m'" using e(1) by (intro ext) simp
  then show ?thesis using e(2,3) by (simp add: faithful_def)
qed

lemma imDelete_faithful: "faithful m \<Longrightarrow> faithful (imDelete blank m ks)"
  using remove_faithful [of m _ "\<lambda>k. k \<in> set (filter (\<lambda>k. \<not> blank k) ks)"]
  by (auto simp: imDelete_def Let_def split: option.splits)

lemma imClear_faithful: "faithful m \<Longrightarrow> faithful (imClear m)"
  using remove_faithful [of m _ "\<lambda>k. True"] by (auto simp: imClear_def Let_def split: option.splits)

lemma imClose_faithful:
  assumes "faithful m"
  shows "faithful (imClose m)"
proof (cases "orgsncmp m")
  case None
  then show ?thesis using assms by (auto simp: imClose_def faithful_def im_ok_def entries_def)
next
  case (Some s)
  have ev: "mpevents m" "smap_ok s" "replayed (emitted m) = Load s"
    using assms Some by (auto simp: faithful_def im_ok_def entries_def)
  have "replayed (emitted (imClose m)) = Map.empty"
  proof (cases "taken (\<lambda>k. True) s = []")
    case True
    then have "Load s = Map.empty" using smap.keys_load [OF ev(2)] by (auto simp: taken_Nil)
    then show ?thesis using True Some ev by (simp add: imClose_def Let_def)
  next
    case False
    have "(Load s |` (- set (RangeKeys (taken (\<lambda>k. True) s)))) k = None" for k
      using set_RangeKeys_taken [OF ev(2), of k "\<lambda>k. True"] by (auto simp: restrict_map_def)
    then have "Load s |` (- set (RangeKeys (taken (\<lambda>k. True) s))) = Map.empty" by blast
    then show ?thesis using False Some ev by (simp add: imClose_def Let_def replayed_snoc)
  qed
  then show ?thesis using Some by (simp add: imClose_def Let_def faithful_def im_ok_def entries_def)
qed

lemma runOp_faithful: "faithful m \<Longrightarrow> faithful (runOp blank m op)"
  by (cases op) (simp_all add: imSet_faithful imDelete_faithful imClear_faithful imClose_faithful)

section \<open>Properties\<close>

text \<open>
  Lookup after update: \<open>Get\<close> returns what \<open>Set\<close> stored last under that key and is
  not affected by a \<open>Set\<close> under another one; deleted keys are gone.
\<close>

lemma imGet_imSet:
  assumes "im_ok m" "orgsncmp m \<noteq> None" "\<not> blank k"
  shows "imGet blank (imSet blank m k v) k' = (if k' = k then Some v else imGet blank m k') \<and>
    imGet blank (imDelete blank m ks) k' = (if k' \<in> set ks then None else imGet blank m k') \<and>
    imContains (imSet blank m k v) k"
proof -
  have g: "imGet blank n x = (if blank x then None else entries n x)" for n x
    by (auto simp: imGet_def entries_def split: option.splits)
  have c: "imContains n x = (entries n x \<noteq> None)" for n x
    by (auto simp: imContains_def entries_def split: option.splits)
  show ?thesis
    using imSet_entries [OF assms(1,2), where blank = blank and k = k and v = v] imDelete_entries [OF assms(1), of blank ks] assms(3)
    by (auto simp: g c restrict_map_def)
qed

text \<open>
  Claim C38: the events are complete.  Replaying the announced changes in the order in which
  the operations launch them, from a listener attached before the first operation, gives after
  any sequence of operations exactly the entries of the observed map (none after \<open>Close\<close>).
\<close>

theorem events_replay:
  "replayed (emitted (foldl (runOp blank) (Events MapIterator) ops)) =
   entries (foldl (runOp blank) (Events MapIterator) ops)"
proof -
  have "faithful (Events MapIterator)"
    by (auto simp: faithful_def Events_def MapIterator_def im_ok_def entries_def replayed_def)
  then have "faithful (foldl (runOp blank) (Events MapIterator) ops)"
    by (induction ops rule: rev_induct) (auto intro: runOp_faithful)
  then show ?thesis by (simp add: faithful_def)
qed

text \<open>
  The order matters, and the code does not keep it: every announcement runs in a goroutine of its
  own.  The two announcements of setting one key twice, delivered the other way round, leave a
  listener with the old value.
\<close>

lemma events_out_of_order:
  "replayed (rev (emitted (imSet (\<lambda>k. k = []) (imSet (\<lambda>k. k = []) (Events MapIterator) ''a'' (1::nat)) ''a'' 2))) \<noteq>
   entries (imSet (\<lambda>k. k = []) (imSet (\<lambda>k. k = []) (Events MapIterator) ''a'' 1) ''a'' 2)"
proof -
  let ?m = "imSet (\<lambda>k. k = []) (imSet (\<lambda>k. k = []) (Events MapIterator) ''a'' (1::nat)) ''a'' 2"
  have "replayed (rev (emitted ?m)) ''a'' = Some 1" "entries ?m ''a'' = Some 2"
    by (simp_all add: replayed_def entries_def imSet_def Events_def MapIterator_def emit_def Load_def StoreKey_def)
  then show ?thesis by (metis option.inject numeral_One numeral_eq_iff semiring_norm(85))
qed

end
