(* ===== verification/Parameters.thy ===== *)
theory Parameters
  imports Store
begin

text \<open>
  The request parameters of \<open>src/parameters/parameters.go\<close>: named string values and uploaded
  files with their separately kept counts, and the loaders that fill them from a raw query
  string, from parsed values and from a multipart form.

  Strings are byte strings (\<open>string\<close>).  Every method first computes
  \<open>strings.ToUpper(strings.TrimSpace(pname))\<close>; the Unicode case mapping behind it is a table of
  the standard library, so this normalisation is the argument \<open>nm\<close> of the definitions.  Methods
  are modelled on a non-nil receiver; \<open>None\<close> in a result is a nil dereference.
\<close>

section \<open>State\<close>

record upload =
  fname :: string
  fsize :: int

text \<open>What a client passes to \<open>SetFile\<close>: only file headers are taken.\<close>

datatype file_arg = FileHeader string int | OtherArg

definition nextfile :: "string \<Rightarrow> int \<Rightarrow> upload" where
  "nextfile n s = \<lparr>fname = n, fsize = s\<rparr>"

text \<open>An entry created without files holds a slice of another type, which reads as no files.\<close>

datatype file_val = Files "upload list" | NoFiles

fun as_files :: "file_val \<Rightarrow> upload list" where
  "as_files (Files fs) = fs"
| "as_files NoFiles = []"

record parameters =
  urlkeys :: "(string, bool) smap option"
  standard :: "(string, string list) smap option"
  standardcount :: int
  filesdata :: "(string, file_val) smap option"
  filesdatacount :: int

definition NewParameters :: parameters where
  "NewParameters = \<lparr>urlkeys = None, standard = None, standardcount = 0, filesdata = None, filesdatacount = 0\<rparr>"

section \<open>Values\<close>

definition storeParameter :: "(string \<Rightarrow> string) \<Rightarrow> parameters \<Rightarrow> bool \<Rightarrow> string \<Rightarrow> bool \<Rightarrow> string list \<Rightarrow> parameters" where
  "storeParameter nm p isurl pname clear pvalue =
     (let pname = nm pname in
      if pname = '''' then p
      else
        (let urlk = (case urlkeys p of Some u \<Rightarrow> u | None \<Rightarrow> []);
             std = (case standard p of Some s \<Rightarrow> s | None \<Rightarrow> []) in
         case Load std pname of
           Some val \<Rightarrow>
             (let std1 = (if clear then StoreKey std pname [] else std);
                  urlk1 = (if clear then DeleteKey urlk pname else urlk);
                  val1 = (if clear then [] else val) in
              if 0 < length pvalue then
                p\<lparr>urlkeys := Some (StoreKey urlk1 pname isurl), standard := Some (StoreKey std1 pname (val1 @ pvalue))\<rparr>
              else p\<lparr>urlkeys := Some urlk1, standard := Some (StoreKey std1 pname val1)\<rparr>)
         | None \<Rightarrow>
             (if 0 < length pvalue then
                p\<lparr>urlkeys := Some (StoreKey urlk pname isurl), standard := Some (StoreKey std pname pvalue),
                  standardcount := standardcount p + 1\<rparr>
              else
                p\<lparr>urlkeys := Some urlk, standard := Some (StoreKey std pname []),
                  standardcount := standardcount p + 1\<rparr>)))"

definition pSet :: "(string \<Rightarrow> string) \<Rightarrow> parameters \<Rightarrow> string \<Rightarrow> bool \<Rightarrow> string list \<Rightarrow> parameters" where
  "pSet nm p pname clear pvalue = storeParameter nm p False pname clear pvalue"

definition Keys :: "parameters \<Rightarrow> string list" where
  "Keys p =
     (case standard p of
        Some s \<Rightarrow> if standardcount p > 0
                  then take (nat (standardcount p)) (RangeKeys s @ replicate (nat (standardcount p)) '''') else []
      | None \<Rightarrow> [])"

definition Exist :: "(string \<Rightarrow> string) \<Rightarrow> parameters \<Rightarrow> string \<Rightarrow> bool" where
  "Exist nm p pname =
     (let pname = nm pname in
      if pname = '''' then False
      else (case standard p of Some s \<Rightarrow> Load s pname \<noteq> None | None \<Rightarrow> False))"

definition Type :: "(string \<Rightarrow> string) \<Rightarrow> parameters \<Rightarrow> string \<Rightarrow> string option" where
  "Type nm p pname =
     (let pname = nm pname in
      if pname = '''' then Some ''''
      else if urlkeys p = None \<and> standard p = None then Some ''''
      else do {
        u \<leftarrow> urlkeys p;
        if Load u pname = Some True then Some ''url''
        else do { s \<leftarrow> standard p; Some (if Load s pname \<noteq> None then ''std'' else '''') }
      })"

definition pRemove :: "(string \<Rightarrow> string) \<Rightarrow> parameters \<Rightarrow> string \<Rightarrow> string list \<times> parameters" where
  "pRemove nm p pname =
     (let pname = nm pname in
      if pname = '''' then ([], p)
      else (case standard p of
          None \<Rightarrow> ([], p)
        | Some s \<Rightarrow>
            (case Load s pname of
               None \<Rightarrow> ([], p)
             | Some v \<Rightarrow> (v, p\<lparr>standard := Some (DeleteKey s pname),
                  urlkeys := map_option (\<lambda>u. DeleteKey u pname) (urlkeys p),
                  standardcount := standardcount p - 1\<rparr>))))"

text \<open>\<open>Empty\<close> computes an answer and then returns true.\<close>

definition pEmpty :: "parameters \<Rightarrow> bool" where
  "pEmpty p =
     (let empt = (case standard p of Some s \<Rightarrow> RangeKeys s = [] | None \<Rightarrow> True) in True)"

text \<open>The values at the given indices, ignoring those out of range; all values without indices.\<close>

definition pick :: "'a list \<Rightarrow> int list \<Rightarrow> 'a list" where
  "pick xs ix =
     (if 0 < length xs then
        (if 0 < length ix then map (\<lambda>i. xs ! nat i) (filter (\<lambda>i. 0 \<le> i \<and> i < int (length xs)) ix) else xs)
      else [])"

definition pGet :: "(string \<Rightarrow> string) \<Rightarrow> parameters \<Rightarrow> string \<Rightarrow> int list \<Rightarrow> string list" where
  "pGet nm p pname ix =
     (let pname = nm pname in
      if pname \<noteq> '''' then
        (case standard p of
           Some s \<Rightarrow> (case Load s pname of Some stdv \<Rightarrow> pick stdv ix | None \<Rightarrow> [])
         | None \<Rightarrow> [])
      else [])"

definition pClear :: "parameters \<Rightarrow> parameters" where
  "pClear p = (if standard p \<noteq> None then p\<lparr>standard := None, urlkeys := None, standardcount := 0\<rparr> else p)"

section \<open>Files\<close>

definition taken_files :: "file_arg list \<Rightarrow> upload list" where
  "taken_files as = concat (map (\<lambda>a. case a of FileHeader n s \<Rightarrow> [nextfile n s] | OtherArg \<Rightarrow> []) as)"

definition SetFile :: "(string \<Rightarrow> string) \<Rightarrow> parameters \<Rightarrow> string \<Rightarrow> bool \<Rightarrow> file_arg list \<Rightarrow> parameters" where
  "SetFile nm p pname clear pfile =
     (let pname = nm pname in
      if pname = '''' then p
      else
        (let fd = (case filesdata p of Some f \<Rightarrow> f | None \<Rightarrow> []) in
         case Load fd pname of
           Some fval \<Rightarrow>
             (let val = (if clear then [] else as_files fval);
                  fd1 = (if clear then StoreKey fd pname (Files val) else fd) in
              p\<lparr>filesdata := Some (StoreKey fd1 pname (Files (val @ taken_files pfile)))\<rparr>)
         | None \<Rightarrow>
             (if 0 < length pfile then
                p\<lparr>filesdata := Some (StoreKey fd pname (Files (taken_files pfile))), filesdatacount := filesdatacount p + 1\<rparr>
              else p\<lparr>filesdata := Some (StoreKey fd pname NoFiles), filesdatacount := filesdatacount p + 1\<rparr>)))"

definition FileKeys :: "parameters \<Rightarrow> string list" where
  "FileKeys p =
     (case filesdata p of
        Some s \<Rightarrow> if filesdatacount p > 0
                  then take (nat (filesdatacount p)) (RangeKeys s @ replicate (nat (filesdatacount p)) '''') else []
      | None \<Rightarrow> [])"

definition FilesEmpty :: "parameters \<Rightarrow> bool" where
  "FilesEmpty p =
     (let empt = (case filesdata p of Some s \<Rightarrow> RangeKeys s = [] | None \<Rightarrow> True) in
      if filesdata p = None then empt else True)"

definition FileExist :: "(string \<Rightarrow> string) \<Rightarrow> parameters \<Rightarrow> string \<Rightarrow> bool" where
  "FileExist nm p pname =
     (let pname = nm pname in
      if pname = '''' then False
      else (case filesdata p of Some s \<Rightarrow> Load s pname \<noteq> None | None \<Rightarrow> False))"

definition RemoveFile :: "(string \<Rightarrow> string) \<Rightarrow> parameters \<Rightarrow> string \<Rightarrow> upload list \<times> parameters" where
  "RemoveFile nm p pname =
     (let pname = nm pname in
      if pname = '''' then ([], p)
      else (case filesdata p of
          None \<Rightarrow> ([], p)
        | Some s \<Rightarrow>
            (case Load s pname of
               None \<Rightarrow> ([], p)
             | Some v \<Rightarrow> (as_files v, p\<lparr>filesdata := Some (DeleteKey s pname), filesdatacount := filesdatacount p - 1\<rparr>))))"

definition GetFile :: "(string \<Rightarrow> string) \<Rightarrow> parameters \<Rightarrow> string \<Rightarrow> int list \<Rightarrow> upload list" where
  "GetFile nm p pname ix =
     (let pname = nm pname in
      if pname \<noteq> '''' then
        (case filesdata p of
           Some s \<Rightarrow> (case Load s pname of Some fv \<Rightarrow> pick (as_files fv) ix | None \<Rightarrow> [])
         | None \<Rightarrow> [])
      else [])"

definition ClearFiles :: "parameters \<Rightarrow> parameters" where
  "ClearFiles p = (if filesdata p \<noteq> None then p\<lparr>filesdata := None, filesdatacount := 0\<rparr> else p)"

definition ClearAll :: "parameters \<Rightarrow> parameters" where
  "ClearAll p = ClearFiles (pClear p)"

text \<open>
  \<open>String\<close>: the values joined with \<open>sep\<close>, or else the texts of the files; \<open>readf\<close> reads a file
  to its end, and an error stops the loop.
\<close>

fun joined :: "string \<Rightarrow> string list \<Rightarrow> string" where
  "joined sep [] = ''''"
| "joined sep [x] = x"
| "joined sep (x # y # xs) = x @ sep @ joined sep (y # xs)"

fun joinFiles :: "(upload \<Rightarrow> string \<times> go_err option) \<Rightarrow> string \<Rightarrow> upload list \<Rightarrow> string" where
  "joinFiles readf sep [] = ''''"
| "joinFiles readf sep (f # fs) =
     (let (bs, err) = readf f in
      if err = None then bs @ (if fs \<noteq> [] then sep else '''') @ joinFiles readf sep fs else '''')"

definition pString :: "(string \<Rightarrow> string) \<Rightarrow> (upload \<Rightarrow> string \<times> go_err option) \<Rightarrow> parameters \<Rightarrow> string \<Rightarrow> string \<Rightarrow>
    int list \<Rightarrow> string" where
  "pString nm readf p pname sep ix =
     (let pval = pGet nm p pname ix in
      if 0 < length pval then joined sep pval
      else joinFiles readf sep (GetFile nm p pname ix))"

section \<open>Loaders\<close>

text \<open>A map of parsed values is a list of entries, in the order of the iteration.\<close>

type_synonym url_values = "(string, string list) smap"

fun storeValues :: "(string \<Rightarrow> string) \<Rightarrow> bool \<Rightarrow> parameters \<Rightarrow> url_values \<Rightarrow> parameters" where
  "storeValues nm isurl p [] = p"
| "storeValues nm isurl p ((k, vs) # ms) = storeValues nm isurl (storeParameter nm p isurl k False vs) ms"

definition LoadParametersFromUrlValues :: "(string \<Rightarrow> string) \<Rightarrow> parameters \<Rightarrow> url_values \<Rightarrow> parameters" where
  "LoadParametersFromUrlValues nm p urlvalues = storeValues nm False p urlvalues"

fun storeFiles :: "(string \<Rightarrow> string) \<Rightarrow> parameters \<Rightarrow> (string \<times> (string \<times> int) list) list \<Rightarrow> parameters" where
  "storeFiles nm p [] = p"
| "storeFiles nm p ((k, fs) # ms) =
     storeFiles nm (if 0 < length fs then SetFile nm p k False (map (\<lambda>(n, s). FileHeader n s) fs) else p) ms"

definition LoadParametersFromMultipartForm ::
  "(string \<Rightarrow> string) \<Rightarrow> parameters \<Rightarrow> url_values \<Rightarrow> (string \<times> (string \<times> int) list) list \<Rightarrow> parameters" where
  "LoadParametersFromMultipartForm nm p vals fils = storeFiles nm (storeValues nm False p vals) fils"

text \<open>The standard library's \<open>url.QueryUnescape\<close> and \<open>url.ParseQuery\<close>.\<close>

definition unhex :: "char \<Rightarrow> nat option" where
  "unhex c =
     (let n = of_char c :: nat in
      if 48 \<le> n \<and> n \<le> 57 then Some (n - 48)
      else if 97 \<le> n \<and> n \<le> 102 then Some (n - 87)
      else if 65 \<le> n \<and> n \<le> 70 then Some (n - 55) else None)"

fun QueryUnescape :: "string \<Rightarrow> string option" where
  "QueryUnescape [] = Some []"
| "QueryUnescape (c # s) =
     (if c = CHR ''%'' then
        (case s of
           a # b # t \<Rightarrow> do { x \<leftarrow> unhex a; y \<leftarrow> unhex b; r \<leftarrow> QueryUnescape t; Some (char_of (16 * x + y) # r) }
         | _ \<Rightarrow> None)
      else if c = CHR ''+'' then map_option ((#) CHR '' '') (QueryUnescape s)
      else map_option ((#) c) (QueryUnescape s))"

fun splitOn :: "char \<Rightarrow> string \<Rightarrow> string list" where
  "splitOn c [] = [[]]"
| "splitOn c (x # xs) =
     (if x = c then [] # splitOn c xs
      else (case splitOn c xs of y # ys \<Rightarrow> (x # y) # ys | [] \<Rightarrow> [[x]]))"

definition cut :: "char \<Rightarrow> string \<Rightarrow> string \<times> string" where
  "cut c s = (takeWhile (\<lambda>x. x \<noteq> c) s, tl (dropWhile (\<lambda>x. x \<noteq> c) s))"

text \<open>The parsed values, and whether every segment was well-formed.\<close>

fun parseSegments :: "string list \<Rightarrow> url_values \<times> bool \<Rightarrow> url_values \<times> bool" where
  "parseSegments [] acc = acc"
| "parseSegments (seg # segs) (m, good) =
     parseSegments segs
       (if CHR '';'' \<in> set seg then (m, False)
        else if seg = [] then (m, good)
        else
          (case (QueryUnescape (fst (cut CHR ''='' seg)), QueryUnescape (snd (cut CHR ''='' seg))) of
             (Some k, Some v) \<Rightarrow> (StoreKey m k ((case Load m k of Some vs \<Rightarrow> vs | None \<Rightarrow> []) @ [v]), good)
           | _ \<Rightarrow> (m, False)))"

definition ParseQuery :: "string \<Rightarrow> url_values \<times> bool" where
  "ParseQuery q = parseSegments (splitOn CHR ''&'' q) ([], True)"

definition replaceSemi :: "string \<Rightarrow> string" where
  "replaceSemi s = concat (map (\<lambda>c. if c = CHR '';'' then ''%3b'' else [c]) s)"

definition cleanQuery :: "string \<Rightarrow> string" where
  "cleanQuery raw =
     (let kept = filter (\<lambda>seg. seg \<noteq> [] \<and> CHR ''='' \<in> set seg) (splitOn CHR ''&'' (replaceSemi raw));
          q = concat (map (\<lambda>seg. seg @ ''&'') kept) in
      if 1 < length q \<and> last q = CHR ''&'' then butlast q else q)"

definition LoadParametersFromRawURL :: "(string \<Rightarrow> string) \<Rightarrow> parameters \<Rightarrow> string \<Rightarrow> parameters" where
  "LoadParametersFromRawURL nm p rawURL =
     (if rawURL \<noteq> '''' then
        (let (vals, good) = ParseQuery (cleanQuery rawURL) in
         if good then storeValues nm True p vals else p)
      else p)"

text \<open>
  \<open>LoadParametersFromHTTPRequest\<close>: the query of the URL, if there is one, and then what the
  standard library parsed from the body.
\<close>

datatype body_form =
    BodyMultipart "url_values" "(string \<times> (string \<times> int) list) list"
  | BodyForm "url_values"
  | BodyNone

definition LoadParametersFromHTTPRequest ::
  "(string \<Rightarrow> string) \<Rightarrow> parameters \<Rightarrow> string option \<Rightarrow> body_form \<Rightarrow> parameters" where
  "LoadParametersFromHTTPRequest nm p rawquery body =
     (let p1 = (case rawquery of Some q \<Rightarrow> LoadParametersFromRawURL nm p q | None \<Rightarrow> p) in
      case body of
        BodyMultipart vals fils \<Rightarrow> LoadParametersFromMultipartForm nm p1 vals fils
      | BodyForm vals \<Rightarrow> LoadParametersFromUrlValues nm p1 vals
      | BodyNone \<Rightarrow> p1)"

section \<open>Invariant\<close>

definition counts :: "('k, 'v) smap option \<Rightarrow> int \<Rightarrow> bool" where
  "counts m n \<longleftrightarrow> (case m of Some s \<Rightarrow> smap_ok s \<and> n = int (length (RangeKeys s)) | None \<Rightarrow> n = 0)"

definition params_ok :: "parameters \<Rightarrow> bool" where
  "params_ok p \<longleftrightarrow> counts (standard p) (standardcount p) \<and> counts (filesdata p) (filesdatacount p) \<and>
     (urlkeys p = None \<longleftrightarrow> standard p = None) \<and>
     (\<forall>u s. urlkeys p = Some u \<longrightarrow> standard p = Some s \<longrightarrow>
        smap_ok u \<and> set (RangeKeys u) \<subseteq> set (RangeKeys s))"

definition vals_of :: "parameters \<Rightarrow> string \<Rightarrow> string list option" where
  "vals_of p k = (case standard p of Some s \<Rightarrow> Load s k | None \<Rightarrow> None)"

definition url_flag :: "parameters \<Rightarrow> string \<Rightarrow> bool option" where
  "url_flag p k = (case urlkeys p of Some u \<Rightarrow> Load u k | None \<Rightarrow> None)"

definition files_of :: "parameters \<Rightarrow> string \<Rightarrow> file_val option" where
  "files_of p k = (case filesdata p of Some s \<Rightarrow> Load s k | None \<Rightarrow> None)"

lemma pGet_New: "pGet nm NewParameters n ix = []"
  by (simp add: pGet_def NewParameters_def Let_def)

lemma params_ok_New [simp]: "params_ok NewParameters"
  by (simp add: params_ok_def NewParameters_def counts_def)

text \<open>The two maps of a well-formed container, with nil read as empty.\<close>

lemma params_maps:
  assumes "params_ok p"
  obtains u s where "(case urlkeys p of Some u \<Rightarrow> u | None \<Rightarrow> []) = u" "(case standard p of Some s \<Rightarrow> s | None \<Rightarrow> []) = s"
    "smap_ok u" "smap_ok s" "set (RangeKeys u) \<subseteq> set (RangeKeys s)" "standardcount p = int (length (RangeKeys s))"
    "\<forall>k. vals_of p k = Load s k" "\<forall>k. url_flag p k = Load u k"
  using assms by (cases "standard p"; cases "urlkeys p")
    (auto simp: params_ok_def counts_def vals_of_def url_flag_def)

lemma storeParameter_ok:
  assumes ok: "params_ok p"
  shows "params_ok (storeParameter nm p isurl n clear vs)"
proof -
  from ok obtain u s where m: "(case urlkeys p of Some u \<Rightarrow> u | None \<Rightarrow> []) = u"
    "(case standard p of Some s \<Rightarrow> s | None \<Rightarrow> []) = s" "smap_ok u" "smap_ok s"
    "set (RangeKeys u) \<subseteq> set (RangeKeys s)" "standardcount p = int (length (RangeKeys s))" by (rule params_maps)
  have fd: "counts (filesdata p) (filesdatacount p)" using ok by (simp add: params_ok_def)
  show ?thesis
  proof (cases "nm n = []")
    case True
    then show ?thesis using ok by (simp add: storeParameter_def)
  next
    case False
    then show ?thesis
      using m(3-6) fd unfolding storeParameter_def m(1,2)
      by (auto simp: Let_def params_ok_def counts_def smap_simps split: option.splits)
  qed
qed

lemma storeParameter_vals:
  assumes ok: "params_ok p" and n: "nm n \<noteq> []"
  shows "vals_of (storeParameter nm p isurl n clear vs) k =
      (if k = nm n then Some ((if clear then [] else (case vals_of p k of Some old \<Rightarrow> old | None \<Rightarrow> [])) @ vs) else vals_of p k)"
    "url_flag (storeParameter nm p isurl n clear vs) k =
      (if k = nm n then (if vs \<noteq> [] then Some isurl else if clear then None else url_flag p k) else url_flag p k)"
    "files_of (storeParameter nm p isurl n clear vs) = files_of p"
proof -
  from ok obtain u s where m: "(case urlkeys p of Some u \<Rightarrow> u | None \<Rightarrow> []) = u"
    "(case standard p of Some s \<Rightarrow> s | None \<Rightarrow> []) = s" "smap_ok u" "smap_ok s"
    "set (RangeKeys u) \<subseteq> set (RangeKeys s)" "standardcount p = int (length (RangeKeys s))"
    "\<forall>k. vals_of p k = Load s k" "\<forall>k. url_flag p k = Load u k" by (rule params_maps)
  have nokey: "Load s x = None \<Longrightarrow> Load u x = None" for x
    using m(5) smap.keys_load [OF m(3), of x] smap.keys_load [OF m(4), of x] by auto
  show "vals_of (storeParameter nm p isurl n clear vs) k =
      (if k = nm n then Some ((if clear then [] else (case vals_of p k of Some old \<Rightarrow> old | None \<Rightarrow> [])) @ vs) else vals_of p k)"
    unfolding m(7) [rule_format] storeParameter_def m(1,2) using n m(3,4)
    by (auto simp: Let_def vals_of_def smap_simps split: option.splits)
  show "url_flag (storeParameter nm p isurl n clear vs) k =
      (if k = nm n then (if vs \<noteq> [] then Some isurl else if clear then None else url_flag p k) else url_flag p k)"
    unfolding m(8) [rule_format] storeParameter_def m(1,2) using n m(3,4) nokey
    by (auto simp: Let_def url_flag_def smap_simps split: option.splits)
  show "files_of (storeParameter nm p isurl n clear vs) = files_of p"
    by (auto simp: fun_eq_iff storeParameter_def Let_def files_of_def split: option.splits)
qed

lemma counts_None [simp]: "counts None n \<longleftrightarrow> n = 0"
  by (simp add: counts_def)

lemma counts_del:
  assumes "counts (Some s) n" "Load s k \<noteq> None"
  shows "counts (Some (DeleteKey s k)) (n - 1)"
proof -
  have s: "smap_ok s" "n = int (length (RangeKeys s))" using assms(1) by (auto simp: counts_def)
  have "0 < length (RangeKeys s)" using smap.keys_load [OF s(1), of k] assms(2) by (cases "RangeKeys s") auto
  moreover have "length (RangeKeys (DeleteKey s k)) = length (RangeKeys s) - 1"
    using s(1) assms(2) by (auto simp: smap.count_del)
  ultimately have "n - 1 = int (length (RangeKeys (DeleteKey s k)))" using s(2) by linarith
  then show ?thesis using smap.wf_del [OF s(1)] by (simp add: counts_def)
qed

lemma pRemove_ok:
  assumes "params_ok p"
  shows "params_ok (snd (pRemove nm p n))"
proof (cases "standard p")
  case None
  then show ?thesis using assms by (simp add: pRemove_def Let_def)
next
  case (Some s)
  with assms obtain u where u: "urlkeys p = Some u" "smap_ok u" "smap_ok s" "set (RangeKeys u) \<subseteq> set (RangeKeys s)"
    "standardcount p = int (length (RangeKeys s))" by (auto simp: params_ok_def counts_def)
  show ?thesis
  proof (cases "nm n = [] \<or> Load s (nm n) = None")
    case True
    then show ?thesis using assms Some by (auto simp: pRemove_def Let_def)
  next
    case False
    then obtain v where "Load s (nm n) = Some v" by auto
    moreover from this have "counts (Some (DeleteKey s (nm n))) (standardcount p - 1)"
      using counts_del [of s "standardcount p" "nm n"] assms Some by (simp add: params_ok_def)
    ultimately show ?thesis
      using False u assms Some by (auto simp: pRemove_def Let_def params_ok_def smap_simps)
  qed
qed

lemma pClear_ok: "params_ok p \<Longrightarrow> params_ok (pClear p)"
  by (auto simp: pClear_def params_ok_def)

lemma ClearFiles_ok: "params_ok p \<Longrightarrow> params_ok (ClearFiles p)"
  by (auto simp: ClearFiles_def params_ok_def)

lemma SetFile_ok:
  assumes "params_ok p"
  shows "params_ok (SetFile nm p n clear fs)"
proof -
  define f where "f = (case filesdata p of Some f \<Rightarrow> f | None \<Rightarrow> [])"
  have f: "smap_ok f" "filesdatacount p = int (length (RangeKeys f))"
    using assms by (auto simp: f_def params_ok_def counts_def split: option.splits)
  have c: "counts (Some (StoreKey f k v)) (filesdatacount p + (if Load f k = None then 1 else 0))"
    "counts (Some (StoreKey (StoreKey f k w) k v)) (filesdatacount p + (if Load f k = None then 1 else 0))" for k v w
    using f by (simp_all add: counts_def smap_simps)
  let ?n = "nm n"
  have q: "params_ok (p\<lparr>filesdata := m, filesdatacount := x\<rparr>)" if "counts m x" for m x
    using assms that by (simp add: params_ok_def)
  have eq: "p\<lparr>filesdata := m\<rparr> = p\<lparr>filesdata := m, filesdatacount := filesdatacount p\<rparr>" for m by simp
  show ?thesis
  proof (cases "?n = []")
    case True
    then show ?thesis using assms by (simp add: SetFile_def)
  next
    case False
    show ?thesis
    proof (cases "Load f ?n")
      case None
      then show ?thesis
        using False q [OF c(1) [of ?n]] unfolding SetFile_def f_def [symmetric] by (simp add: Let_def)
    next
      case (Some fv)
      have "params_ok (p\<lparr>filesdata := Some (StoreKey (if clear then StoreKey f ?n w else f) ?n v)\<rparr>)" for v w
        using Some c [of ?n] by (subst eq, intro q) simp
      then show ?thesis
        using False Some unfolding SetFile_def f_def [symmetric] by (simp add: Let_def)
    qed
  qed
qed

lemma RemoveFile_ok:
  assumes "params_ok p"
  shows "params_ok (snd (RemoveFile nm p n))"
proof (cases "filesdata p")
  case None
  then show ?thesis using assms by (simp add: RemoveFile_def Let_def)
next
  case (Some s)
  with assms have u: "smap_ok s" "filesdatacount p = int (length (RangeKeys s))" by (auto simp: params_ok_def counts_def)
  show ?thesis
  proof (cases "nm n = [] \<or> Load s (nm n) = None")
    case True
    then show ?thesis using assms Some by (auto simp: RemoveFile_def Let_def)
  next
    case False
    then obtain v where "Load s (nm n) = Some v" by auto
    moreover from this have "counts (Some (DeleteKey s (nm n))) (filesdatacount p - 1)"
      using counts_del [of s "filesdatacount p" "nm n"] assms Some by (simp add: params_ok_def)
    ultimately show ?thesis
      using False u assms Some by (auto simp: RemoveFile_def Let_def params_ok_def)
  qed
qed

lemma storeValues_ok: "params_ok p \<Longrightarrow> params_ok (storeValues nm isurl p ms)"
  by (induction nm isurl p ms rule: storeValues.induct) (simp_all add: storeParameter_ok)

lemma storeFiles_ok: "params_ok p \<Longrightarrow> params_ok (storeFiles nm p ms)"
  by (induction nm p ms rule: storeFiles.induct) (simp_all add: SetFile_ok)

lemma LoadParametersFromHTTPRequest_ok: "params_ok p \<Longrightarrow> params_ok (LoadParametersFromHTTPRequest nm p q body)"
  by (auto simp: LoadParametersFromHTTPRequest_def Let_def LoadParametersFromRawURL_def
      LoadParametersFromMultipartForm_def LoadParametersFromUrlValues_def storeValues_ok storeFiles_ok
      split: option.splits body_form.splits prod.splits)

text \<open>Any operation on the container.\<close>

datatype param_op = OpSet string bool "string list" | OpRemove string | OpClear | OpSetFile string bool "file_arg list"
  | OpRemoveFile string | OpClearFiles | OpClearAll | OpLoad "string option" body_form

fun paramOp :: "(string \<Rightarrow> string) \<Rightarrow> parameters \<Rightarrow> param_op \<Rightarrow> parameters" where
  "paramOp nm p (OpSet n c vs) = pSet nm p n c vs"
| "paramOp nm p (OpRemove n) = snd (pRemove nm p n)"
| "paramOp nm p OpClear = pClear p"
| "paramOp nm p (OpSetFile n c fs) = SetFile nm p n c fs"
| "paramOp nm p (OpRemoveFile n) = snd (RemoveFile nm p n)"
| "paramOp nm p OpClearFiles = ClearFiles p"
| "paramOp nm p OpClearAll = ClearAll p"
| "paramOp nm p (OpLoad q body) = LoadParametersFromHTTPRequest nm p q body"

lemma paramOp_ok: "params_ok p \<Longrightarrow> params_ok (paramOp nm p op)"
  by (cases op) (simp_all add: pSet_def ClearAll_def storeParameter_ok pRemove_ok pClear_ok SetFile_ok RemoveFile_ok
      ClearFiles_ok LoadParametersFromHTTPRequest_ok)

lemma paramOps_ok: "params_ok (foldl (paramOp nm) NewParameters ops)"
  by (induction ops rule: rev_induct) (simp_all add: paramOp_ok)

lemma keys_of:
  assumes "counts m n"
  shows "(case m of Some s \<Rightarrow> if n > 0 then take (nat n) (RangeKeys s @ replicate (nat n) []) else []
    | None \<Rightarrow> []) = (case m of Some s \<Rightarrow> RangeKeys s | None \<Rightarrow> [])"
  using assms by (auto simp: counts_def split: option.splits)

section \<open>What the loaders store\<close>

definition values_at :: "parameters \<Rightarrow> string \<Rightarrow> string list" where
  "values_at p k = (case vals_of p k of Some vs \<Rightarrow> vs | None \<Rightarrow> [])"

lemma values_at_New: "values_at NewParameters k = []"
  by (simp add: values_at_def vals_of_def NewParameters_def)

lemma storeValues_values:
  "params_ok p \<Longrightarrow> k \<noteq> [] \<Longrightarrow>
   values_at (storeValues nm isurl p ms) k = values_at p k @ concat (map snd (filter (\<lambda>(n, vs). nm n = k) ms))"
proof (induction nm isurl p ms rule: storeValues.induct)
  case (1 nm isurl p)
  then show ?case by simp
next
  case (2 nm isurl p n vs ms)
  let ?p = "storeParameter nm p isurl n False vs"
  have "values_at ?p k = values_at p k @ (if nm n = k then vs else [])"
  proof (cases "nm n = []")
    case True
    then show ?thesis using 2(3) by (simp add: storeParameter_def)
  next
    case False
    then show ?thesis
      using storeParameter_vals(1) [where p = p and nm = nm and n = n and isurl = isurl and clear = False and vs = vs and k = k] 2(2)
      by (auto simp: values_at_def split: option.splits)
  qed
  then show ?case using 2 by (simp add: storeParameter_ok)
qed

lemma storeValues_flag:
  "params_ok p \<Longrightarrow> k \<noteq> [] \<Longrightarrow> url_flag (storeValues nm isurl p ms) k =
     (if \<exists>e \<in> set ms. nm (fst e) = k \<and> snd e \<noteq> [] then Some isurl else url_flag p k)"
proof (induction nm isurl p ms rule: storeValues.induct)
  case (2 nm isurl p n vs ms)
  let ?p = "storeParameter nm p isurl n False vs"
  have "url_flag ?p k = (if nm n = k \<and> vs \<noteq> [] then Some isurl else url_flag p k)"
  proof (cases "nm n = []")
    case True
    then show ?thesis using 2(3) by (simp add: storeParameter_def)
  next
    case False
    then show ?thesis
      using storeParameter_vals(2) [where p = p and nm = nm and n = n and isurl = isurl and clear = False and vs = vs and k = k] 2(2) by auto
  qed
  then show ?case using 2 storeParameter_ok [OF 2(2)] by auto
qed simp

lemma storeValues_other:
  "params_ok p \<Longrightarrow> k \<notin> nm ` fst ` set ms \<Longrightarrow>
   vals_of (storeValues nm isurl p ms) k = vals_of p k \<and> url_flag (storeValues nm isurl p ms) k = url_flag p k"
proof (induction nm isurl p ms rule: storeValues.induct)
  case (2 nm isurl p n vs ms)
  have "storeParameter nm p isurl n False vs = p" if "nm n = []" using that by (simp add: storeParameter_def)
  then have "vals_of (storeParameter nm p isurl n False vs) k = vals_of p k \<and> url_flag (storeParameter nm p isurl n False vs) k = url_flag p k"
    using storeParameter_vals(1,2) [where p = p and nm = nm and n = n and isurl = isurl and clear = False and vs = vs and k = k] 2(2,3)
    by (cases "nm n = []") auto
  then show ?case using 2 by (simp add: storeParameter_ok)
qed simp

lemma Type_url: "url_flag p (nm n) = Some True \<Longrightarrow> nm n \<noteq> [] \<Longrightarrow> Type nm p n = Some ''url''"
  by (auto simp: Type_def Let_def url_flag_def split: option.splits)

text \<open>A well-formed query: segments \<open>a=b\<close> whose parts decode.\<close>

type_synonym query = "(string \<times> string) list"

definition seg_of :: "string \<times> string \<Rightarrow> string" where
  "seg_of ab = fst ab @ ''='' @ snd ab"

definition query_ok :: "query \<Rightarrow> (string \<times> string) list \<Rightarrow> bool" where
  "query_ok q kvs \<longleftrightarrow> length kvs = length q \<and>
     (\<forall>i < length q. set (fst (q ! i) @ snd (q ! i)) \<inter> {CHR ''&'', CHR '';''} = {} \<and> CHR ''='' \<notin> set (fst (q ! i)) \<and>
        QueryUnescape (fst (q ! i)) = Some (fst (kvs ! i)) \<and> QueryUnescape (snd (q ! i)) = Some (snd (kvs ! i)))"

lemma query_ok_Cons:
  "query_ok ((a, b) # q) kvs \<longleftrightarrow> (\<exists>k v kvs'. kvs = (k, v) # kvs' \<and> set (a @ b) \<inter> {CHR ''&'', CHR '';''} = {} \<and>
     CHR ''='' \<notin> set a \<and> QueryUnescape a = Some k \<and> QueryUnescape b = Some v \<and> query_ok q kvs')"
  by (cases kvs) (auto simp: query_ok_def nth_Cons' All_less_Suc2 split: if_splits)

lemma query_ok_Nil [simp]: "query_ok [] kvs \<longleftrightarrow> kvs = []"
  by (auto simp: query_ok_def)

lemma splitOn_sep: "c \<notin> set x \<Longrightarrow> splitOn c (x @ c # y) = x # splitOn c y"
  by (induction x) auto

lemma splitOn_none: "c \<notin> set x \<Longrightarrow> splitOn c x = [x]"
  by (induction x) auto

lemma splitOn_joined: "segs \<noteq> [] \<Longrightarrow> \<forall>x \<in> set segs. c \<notin> set x \<Longrightarrow> splitOn c (joined [c] segs) = segs"
  by (induction "[c]" segs rule: joined.induct) (auto simp: splitOn_sep splitOn_none)

lemma set_joined: "set (joined sep segs) \<subseteq> \<Union> (set ` set segs) \<union> set sep"
  by (induction sep segs rule: joined.induct) auto

lemma replaceSemi_id: "CHR '';'' \<notin> set s \<Longrightarrow> replaceSemi s = s"
  by (induction s) (auto simp: replaceSemi_def)

lemma trailing_joined: "segs \<noteq> [] \<Longrightarrow> concat (map (\<lambda>x. x @ sep) segs) = joined sep segs @ sep"
  by (induction sep segs rule: joined.induct) auto

lemma cut_seg: "CHR ''='' \<notin> set a \<Longrightarrow> cut CHR ''='' (seg_of (a, b)) = (a, b)"
  by (induction a) (auto simp: cut_def seg_of_def)

lemma query_ok_segs:
  assumes "query_ok q kvs" "seg \<in> set (map seg_of q)"
  shows "CHR ''&'' \<notin> set seg" "CHR '';'' \<notin> set seg" "CHR ''='' \<in> set seg" "seg \<noteq> []"
proof -
  from assms(2) obtain i where i: "i < length q" "seg = seg_of (q ! i)" by (auto simp: in_set_conv_nth)
  then have "set (fst (q ! i) @ snd (q ! i)) \<inter> {CHR ''&'', CHR '';''} = {}" using assms(1) by (simp add: query_ok_def)
  with i(2) show "CHR ''&'' \<notin> set seg" "CHR '';'' \<notin> set seg" "CHR ''='' \<in> set seg" "seg \<noteq> []"
    by (auto simp: seg_of_def)
qed

lemma cleanQuery_id:
  assumes "query_ok q kvs" "q \<noteq> []"
  shows "cleanQuery (joined ''&'' (map seg_of q)) = joined ''&'' (map seg_of q)"
proof -
  let ?segs = "map seg_of q" and ?j = "joined ''&'' (map seg_of q)"
  note s = query_ok_segs [OF assms(1)]
  have "CHR '';'' \<notin> \<Union> (set ` set ?segs) \<union> set ''&''" using s(2) by auto
  then have "CHR '';'' \<notin> set ?j" using set_joined [of "''&''" ?segs] by blast
  then have "splitOn CHR ''&'' (replaceSemi ?j) = ?segs"
    using splitOn_joined [of ?segs "CHR ''&''"] s(1) assms(2) by (simp add: replaceSemi_id)
  moreover have "filter (\<lambda>seg. seg \<noteq> [] \<and> CHR ''='' \<in> set seg) ?segs = ?segs"
    using s(3,4) by (auto simp: filter_id_conv)
  ultimately have "concat (map (\<lambda>seg. seg @ ''&'') (filter (\<lambda>seg. seg \<noteq> [] \<and> CHR ''='' \<in> set seg)
      (splitOn CHR ''&'' (replaceSemi ?j)))) = ?j @ ''&''"
    using trailing_joined [of ?segs "''&''"] assms(2) by simp
  moreover have "?j \<noteq> []"
  proof -
    obtain ab q' where "q = ab # q'" using assms(2) by (cases q) auto
    then show ?thesis by (cases q') (auto simp: seg_of_def)
  qed
  ultimately show ?thesis unfolding cleanQuery_def Let_def by simp
qed

definition vals_in :: "url_values \<Rightarrow> string \<Rightarrow> string list" where
  "vals_in m k = (case Load m k of Some vs \<Rightarrow> vs | None \<Rightarrow> [])"

lemma parseSegments_values:
  "query_ok q kvs \<Longrightarrow> smap_ok m \<Longrightarrow>
   \<exists>m'. parseSegments (map seg_of q) (m, True) = (m', True) \<and> smap_ok m' \<and>
     (\<forall>k. vals_in m' k = vals_in m k @ map snd (filter (\<lambda>kv. fst kv = k) kvs)) \<and>
     set (RangeKeys m') = set (RangeKeys m) \<union> fst ` set kvs"
proof (induction q arbitrary: kvs m)
  case Nil
  then show ?case by simp
next
  case (Cons ab q)
  obtain a b where ab: "ab = (a, b)" by (cases ab)
  with Cons.prems(1) obtain k v kvs' where kv: "kvs = (k, v) # kvs'" "CHR ''='' \<notin> set a"
    "QueryUnescape a = Some k" "QueryUnescape b = Some v" "query_ok q kvs'" by (auto simp: query_ok_Cons)
  have seg: "CHR '';'' \<notin> set (seg_of (a, b))" "seg_of (a, b) \<noteq> []"
    using query_ok_segs [OF Cons.prems(1), of "seg_of (a, b)"] ab by auto
  let ?m = "StoreKey m k (vals_in m k @ [v])"
  have step: "parseSegments (map seg_of (ab # q)) (m, True) = parseSegments (map seg_of q) (?m, True)"
    using seg kv(2-4) by (simp add: ab cut_seg vals_in_def)
  have ok: "smap_ok ?m" using Cons.prems(2) by (rule smap.wf_store)
  have "vals_in ?m x = vals_in m x @ (if x = k then [v] else [])" for x
    using Cons.prems(2) by (simp add: vals_in_def smap_simps)
  moreover have "set (RangeKeys ?m) = insert k (set (RangeKeys m))" using Cons.prems(2) by (simp add: smap_simps)
  ultimately show ?case
    using Cons.IH [OF kv(5) ok] unfolding step kv(1) by auto
qed

lemma filter_distinct_key:
  assumes "smap_ok m" "inj_on nm (set (RangeKeys m))" "k \<in> set (RangeKeys m)"
  shows "concat (map snd (filter (\<lambda>(n, vs). nm n = nm k) m)) = vals_in m k"
proof -
  have "concat (map snd (filter (\<lambda>(n, vs). nm n = nm k) m)) = concat (map snd (filter (\<lambda>(n, vs). n = k) m))"
    using assms(2,3) by (intro arg_cong [of _ _ concat] arg_cong [of _ _ "map snd"] filter_cong)
      (auto simp: RangeKeys_def inj_on_def)
  also have "\<dots> = vals_in m k"
    using assms(1) unfolding smap_ok_def vals_in_def Load_def
  proof (induction m)
    case Nil
    then show ?case by simp
  next
    case (Cons e m)
    obtain n vs where e: "e = (n, vs)" by (cases e)
    then have "k = n \<Longrightarrow> filter (\<lambda>(n, vs). n = k) m = []" using Cons.prems by (force simp: filter_empty_conv)
    then show ?case using Cons e by (cases "k = n") auto
  qed
  finally show ?thesis .
qed

section \<open>Properties\<close>

text \<open>
  Claim C36: the counts kept beside the maps are right.  After any sequence of operations on a
  new container, \<open>standardcount\<close> and \<open>filesdatacount\<close> are the numbers of names in use, \<open>Keys\<close>
  and \<open>FileKeys\<close> list every name in use exactly once, and every URL mark belongs to a name in use.
\<close>

theorem params_invariant:
  fixes ops :: "param_op list" and nm :: "string \<Rightarrow> string"
  defines "p \<equiv> foldl (paramOp nm) NewParameters ops"
  shows "standardcount p = int (length (Keys p)) \<and> distinct (Keys p) \<and> set (Keys p) = {k. vals_of p k \<noteq> None} \<and>
    filesdatacount p = int (length (FileKeys p)) \<and> distinct (FileKeys p) \<and> set (FileKeys p) = {k. files_of p k \<noteq> None} \<and>
    (\<forall>k. url_flag p k \<noteq> None \<longrightarrow> vals_of p k \<noteq> None)"
proof -
  have ok: "params_ok p" unfolding p_def by (rule paramOps_ok)
  then have c: "counts (standard p) (standardcount p)" "counts (filesdata p) (filesdatacount p)" by (auto simp: params_ok_def)
  have k: "Keys p = (case standard p of Some s \<Rightarrow> RangeKeys s | None \<Rightarrow> [])"
    "FileKeys p = (case filesdata p of Some s \<Rightarrow> RangeKeys s | None \<Rightarrow> [])"
    unfolding Keys_def FileKeys_def using keys_of [OF c(1)] keys_of [OF c(2)] by simp_all
  have "standardcount p = int (length (Keys p)) \<and> distinct (Keys p) \<and> set (Keys p) = {k. vals_of p k \<noteq> None}"
    using c(1) unfolding k by (auto simp: counts_def vals_of_def smap.keys_load smap.keys_distinct split: option.splits)
  moreover have "filesdatacount p = int (length (FileKeys p)) \<and> distinct (FileKeys p) \<and> set (FileKeys p) = {k. files_of p k \<noteq> None}"
    using c(2) unfolding k by (auto simp: counts_def files_of_def smap.keys_load smap.keys_distinct split: option.splits)
  moreover from ok obtain u s where m: "smap_ok u" "smap_ok s" "set (RangeKeys u) \<subseteq> set (RangeKeys s)"
    "\<forall>k. vals_of p k = Load s k" "\<forall>k. url_flag p k = Load u k" by (rule params_maps)
  have "vals_of p k \<noteq> None" if "url_flag p k \<noteq> None" for k
    using that m smap.keys_load [OF m(1), of k] smap.keys_load [OF m(2), of k] by auto
  ultimately show ?thesis by blast
qed

theorem params_invariant_witness:
  "standardcount (foldl (paramOp id) NewParameters [OpSet ''A'' False [''1''], OpSet ''B'' False [], OpRemove ''A'']) = 1"
  using params_invariant [of id "[OpSet ''A'' False [''1''], OpSet ''B'' False [], OpRemove ''A'']"]
  by (simp add: pSet_def pRemove_def storeParameter_def NewParameters_def Let_def Load_def StoreKey_def DeleteKey_def)

text \<open>
  \<open>Set\<close> appends to the values of its name, or replaces them when told to clear, under
  the normalised name; the values of every other name stay; \<open>Get\<close> and \<open>Type\<close> see the result.
\<close>

lemma pSet_pGet:
  assumes "params_ok p" "nm n \<noteq> []"
  shows "pGet nm (pSet nm p n clear vs) m [] = (if nm m = nm n then (if clear then [] else pGet nm p n []) @ vs else pGet nm p m []) \<and>
    Exist nm (pSet nm p n clear vs) n \<and> (vs \<noteq> [] \<longrightarrow> Type nm (pSet nm p n clear vs) n = Some ''std'')"
proof -
  have g: "pGet nm q x [] = (if nm x = [] then [] else values_at q (nm x))" for q x
    by (auto simp: pGet_def Let_def pick_def values_at_def vals_of_def split: option.splits)
  have e: "Exist nm q x = (nm x \<noteq> [] \<and> vals_of q (nm x) \<noteq> None)" for q x
    by (auto simp: Exist_def Let_def vals_of_def split: option.splits)
  have t: "Type nm q x = Some ''std''" if "params_ok q" "nm x \<noteq> []" "url_flag q (nm x) = Some False" "vals_of q (nm x) \<noteq> None" for q x
    using that by (auto simp: Type_def Let_def vals_of_def url_flag_def params_ok_def split: option.splits)
  let ?q = "storeParameter nm p False n clear vs"
  note v = storeParameter_vals [where p = p and nm = nm and n = n and isurl = False and clear = clear and vs = vs]
  have "values_at ?q k = (if k = nm n then (if clear then [] else values_at p k) @ vs else values_at p k)" for k
    using v(1) [OF assms, of k] by (auto simp: values_at_def split: option.splits)
  moreover have "vs \<noteq> [] \<longrightarrow> Type nm ?q n = Some ''std''"
    using t [OF storeParameter_ok [OF assms(1)] assms(2)] v(1,2) [OF assms, of "nm n"] by simp
  ultimately show ?thesis
    using assms(2) v(1) [OF assms, of "nm n"] by (auto simp: pSet_def g e)
qed

text \<open>
  Claim C37: loading a query.  For a well-formed raw query (segments \<open>a=b\<close> joined by \<open>&\<close>, whose
  parts decode) in which different keys stay different after normalisation, the loader stores
  under each key (whose normalised name is not empty) all its decoded values, in the order of the query, after those already there,
  and marks the name as a URL parameter, which \<open>Type\<close> reports.  The values and the mark of every name that is not in the
  query stay as they were.
\<close>

theorem LoadParametersFromRawURL_values:
  assumes "params_ok p" "query_ok q kvs" "q \<noteq> []" "inj_on nm (fst ` set kvs)" "k \<in> fst ` set kvs" "nm k \<noteq> []"
  shows "let r = LoadParametersFromRawURL nm p (joined ''&'' (map seg_of q)) in
    values_at r (nm k) = values_at p (nm k) @ map snd (filter (\<lambda>kv. fst kv = k) kvs) \<and>
    url_flag r (nm k) = Some True \<and> Type nm r k = Some ''url'' \<and>
    (\<forall>n. n \<notin> nm ` fst ` set kvs \<longrightarrow> values_at r n = values_at p n \<and> url_flag r n = url_flag p n)"
proof -
  let ?raw = "joined ''&'' (map seg_of q)"
  have "splitOn CHR ''&'' ?raw = map seg_of q"
    using splitOn_joined [of "map seg_of q" "CHR ''&''"] query_ok_segs(1) [OF assms(2)] assms(3) by simp
  moreover from parseSegments_values [OF assms(2), of "[]"] obtain m where
    m: "parseSegments (map seg_of q) ([], True) = (m, True)" "smap_ok m"
      "\<forall>k. vals_in m k = map snd (filter (\<lambda>kv. fst kv = k) kvs)" "set (RangeKeys m) = fst ` set kvs"
    by (auto simp: vals_in_def)
  ultimately have "ParseQuery (cleanQuery ?raw) = (m, True)"
    by (simp add: cleanQuery_id [OF assms(2,3)] ParseQuery_def)
  moreover have "?raw \<noteq> []"
    using assms(3) by (cases q; cases "tl q") (auto simp: seg_of_def)
  ultimately have r: "LoadParametersFromRawURL nm p ?raw = storeValues nm True p m"
    by (simp add: LoadParametersFromRawURL_def)
  have v: "values_at (storeValues nm True p m) (nm k) = values_at p (nm k) @ map snd (filter (\<lambda>kv. fst kv = k) kvs)"
    using storeValues_values [OF assms(1,6), of nm True m] filter_distinct_key [OF m(2), of nm k] assms(4,5) m(3,4) by simp
  have "map snd (filter (\<lambda>kv. fst kv = k) kvs) \<noteq> []" using assms(5) by (auto simp: filter_empty_conv)
  then have "Load m k \<noteq> None \<and> vals_in m k \<noteq> []" using m(3) by (auto simp: vals_in_def split: option.splits)
  then have "\<exists>e \<in> set m. nm (fst e) = nm k \<and> snd e \<noteq> []"
    by (auto simp: vals_in_def Load_def split: option.splits dest!: map_of_SomeD intro!: bexI [of _ "(k, _)"])
  then have u: "url_flag (storeValues nm True p m) (nm k) = Some True" using storeValues_flag [OF assms(1,6), of nm True m] by simp
  have "fst ` set m = fst ` set kvs" using m(4) by (simp add: RangeKeys_def)
  then have "n \<notin> nm ` fst ` set kvs \<longrightarrow> values_at (storeValues nm True p m) n = values_at p n \<and>
      url_flag (storeValues nm True p m) n = url_flag p n" for n
    using storeValues_other [OF assms(1), of n nm m True] by (simp add: values_at_def)
  then show ?thesis using v u Type_url [where nm = nm and n = k, OF u assms(6)] unfolding r Let_def by blast
qed

theorem LoadParametersFromRawURL_values_witness:
  "values_at (LoadParametersFromRawURL id NewParameters ''A=x%20y&B=1&A=2'') ''A'' = [''x y'', ''2''] \<and>
   url_flag (LoadParametersFromRawURL id NewParameters ''A=x%20y&B=1&A=2'') ''A'' = Some True \<and>
   Type id (LoadParametersFromRawURL id NewParameters ''A=x%20y&B=1&A=2'') ''A'' = Some ''url''"
  using LoadParametersFromRawURL_values [of NewParameters "[(''A'', ''x%20y''), (''B'', ''1''), (''A'', ''2'')]"
      "[(''A'', ''x y''), (''B'', ''1''), (''A'', ''2'')]" id "''A''"]
  by (simp add: seg_of_def query_ok_Cons unhex_def values_at_New inj_on_def char_of_def bit_0 Let_def)

text \<open>
  Defect: \<open>Empty\<close> and \<open>FilesEmpty\<close> answer true whatever the container holds.
\<close>

lemma pEmpty_always: "pEmpty p \<and> FilesEmpty p"
  by (auto simp: pEmpty_def FilesEmpty_def Let_def)

section \<open>Which names a query leaves\<close>

text \<open>The names a container lists depend on the names it was given only.\<close>

definition keyShape :: "parameters \<Rightarrow> string list option \<times> int" where
  "keyShape p = (map_option RangeKeys (standard p), standardcount p)"

lemma RangeKeys_store: "RangeKeys (StoreKey m k v) = (if k \<in> set (RangeKeys m) then RangeKeys m else RangeKeys m @ [k])"
  by (simp add: RangeKeys_def StoreKey_def update_keys)

lemma Keys_shape: "keyShape p = keyShape p' \<Longrightarrow> Keys p = Keys p'"
  by (auto simp: keyShape_def Keys_def split: option.splits)

lemma RangeKeys_Load: "k \<in> set (RangeKeys m) \<longleftrightarrow> Load m k \<noteq> None"
  by (simp add: RangeKeys_def Load_def map_of_eq_None_iff)

lemma storeParameter_shape:
  "keyShape (storeParameter nm p u k c vs) =
     (if nm k = '''' then keyShape p
      else
        (let ks = (case fst (keyShape p) of Some s \<Rightarrow> s | None \<Rightarrow> []) in
         if nm k \<in> set ks then (Some ks, snd (keyShape p)) else (Some (ks @ [nm k]), snd (keyShape p) + 1)))"
  using RangeKeys_Load [of "nm k" "case standard p of Some s \<Rightarrow> s | None \<Rightarrow> []"]
  by (cases "standard p"; cases "Load (case standard p of Some s \<Rightarrow> s | None \<Rightarrow> []) (nm k)")
    (simp_all add: storeParameter_def keyShape_def Let_def RangeKeys_store)

lemma storeValues_shape:
  "keyShape p = keyShape p' \<Longrightarrow> RangeKeys m = RangeKeys m' \<Longrightarrow> keyShape (storeValues nm u p m) = keyShape (storeValues nm u p' m')"
proof (induction m arbitrary: p p' m')
  case Nil
  then show ?case by (simp add: RangeKeys_def)
next
  case (Cons a m)
  obtain k vs where a: "a = (k, vs)" by force
  with Cons.prems(2) obtain vs' n' where m': "m' = (k, vs') # n'" "RangeKeys m = RangeKeys n'" by (cases m') (auto simp: RangeKeys_def)
  have "keyShape (storeParameter nm p u k False vs) = keyShape (storeParameter nm p' u k False vs')"
    unfolding storeParameter_shape Cons.prems(1) by (rule refl)
  then show ?case using Cons.IH m' by (simp add: a)
qed

lemma parseSegments_keys:
  "query_ok q kvs \<Longrightarrow> query_ok q' kvs' \<Longrightarrow> map fst kvs = map fst kvs' \<Longrightarrow> RangeKeys m = RangeKeys m' \<Longrightarrow>
   \<exists>n n'. parseSegments (map seg_of q) (m, True) = (n, True) \<and> parseSegments (map seg_of q') (m', True) = (n', True) \<and> RangeKeys n = RangeKeys n'"
proof (induction q arbitrary: q' kvs kvs' m m')
  case Nil
  then show ?case by (cases q') (auto simp: query_ok_Cons)
next
  case (Cons ab q)
  obtain a b where ab: "ab = (a, b)" by force
  with Cons.prems(1) obtain k v kv where k: "kvs = (k, v) # kv" "CHR ''='' \<notin> set a" "QueryUnescape a = Some k" "QueryUnescape b = Some v" "query_ok q kv"
    by (auto simp: query_ok_Cons)
  then obtain a' b' r v' kv' where k': "q' = (a', b') # r" "kvs' = (k, v') # kv'" "CHR ''='' \<notin> set a'" "QueryUnescape a' = Some k"
      "QueryUnescape b' = Some v'" "query_ok r kv'" "map fst kv = map fst kv'"
    using Cons.prems(2,3) by (cases q') (auto simp: query_ok_Cons)
  have seg: "CHR '';'' \<notin> set (seg_of (a, b))" "seg_of (a, b) \<noteq> []" "CHR '';'' \<notin> set (seg_of (a', b'))" "seg_of (a', b') \<noteq> []"
    using query_ok_segs [OF Cons.prems(1), of "seg_of (a, b)"] query_ok_segs [OF Cons.prems(2), of "seg_of (a', b')"] ab k'(1) by auto
  have "RangeKeys (StoreKey m k x) = RangeKeys (StoreKey m' k y)" for x y using Cons.prems(4) by (simp add: RangeKeys_store)
  then show ?case using Cons.IH [OF k(5) k'(6,7)] seg k k' by (simp add: ab cut_seg)
qed

text \<open>Two well-formed queries with the same names leave the same names, whatever their values.\<close>

lemma LoadParametersFromRawURL_keys:
  assumes "query_ok q kvs" "query_ok q' kvs'" "q \<noteq> []" "map fst kvs = map fst kvs'"
  shows "Keys (LoadParametersFromRawURL nm p (joined ''&'' (map seg_of q))) = Keys (LoadParametersFromRawURL nm p (joined ''&'' (map seg_of q')))"
proof -
  have q': "q' \<noteq> []" using assms by (cases q; cases q') (auto simp: query_ok_Cons)
  from parseSegments_keys [OF assms(1,2,4) refl] obtain n n' where
    n: "parseSegments (map seg_of q) ([], True) = (n, True)" "parseSegments (map seg_of q') ([], True) = (n', True)" "RangeKeys n = RangeKeys n'"
    by blast
  have load: "LoadParametersFromRawURL nm p (joined ''&'' (map seg_of q)) = storeValues nm True p n"
    if "query_ok q kvs" "q \<noteq> []" "parseSegments (map seg_of q) ([], True) = (n, True)" for q kvs n
  proof -
    have "splitOn CHR ''&'' (joined ''&'' (map seg_of q)) = map seg_of q"
      using splitOn_joined [of "map seg_of q" "CHR ''&''"] query_ok_segs(1) [OF that(1)] that(2) by simp
    then have "ParseQuery (cleanQuery (joined ''&'' (map seg_of q))) = (n, True)"
      using that(3) by (simp add: cleanQuery_id [OF that(1,2)] ParseQuery_def)
    moreover have "joined ''&'' (map seg_of q) \<noteq> []" using that(2) by (cases q; cases "tl q") (auto simp: seg_of_def)
    ultimately show ?thesis by (simp add: LoadParametersFromRawURL_def)
  qed
  show ?thesis
    unfolding load [OF assms(1,3) n(1)] load [OF assms(2) q' n(2)] by (rule Keys_shape [OF storeValues_shape [OF refl n(3)]])
qed

end
