(* ===== verification/TextParsing.thy ===== *)
theory TextParsing
  imports Runes
begin

text \<open>
  The recogniser for quoted text of \<open>src/template/textparsing.go\<close>, which the template parsers
  consult before they look for a label.  \<open>txtr\<close> is the quote that opened the text (0 outside),
  \<open>prvr\<close> the previous rune inside it, \<open>lstr\<close> the rune to hand on, \<open>alttxtr\<close> a replacement for
  the closing quote.
\<close>

section \<open>State and operation\<close>

record textparsing =
  alttxtr :: rune
  txtr :: rune
  txt_prvr :: rune
  lstr :: rune

definition newTextparsing :: textparsing where
  "newTextparsing = \<lparr>alttxtr = 0, txtr = 0, txt_prvr = 0, lstr = 0\<rparr>"

definition isText :: "textparsing \<Rightarrow> bool" where
  "isText t \<longleftrightarrow> txtr t > 0"

definition txtParse :: "textparsing \<Rightarrow> rune \<Rightarrow> bool \<times> textparsing" where
  "txtParse t r =
     (if txtr t = 0 then
        (let t1 = (if IsTxtPar r then t\<lparr>lstr := r, txtr := r\<rparr> else t) in (isText t1, t1))
      else if txtr t = r \<and> txt_prvr t \<noteq> 92 then
        (let t1 = t\<lparr>lstr := r\<rparr>;
             t2 = (if alttxtr t1 > 0 then t1\<lparr>lstr := alttxtr t1, alttxtr := 0\<rparr> else t1) in
         (True, t2\<lparr>txtr := 0, txt_prvr := 0\<rparr>))
      else
        (let t1 = t\<lparr>lstr := r, txt_prvr := r\<rparr> in (isText t1, t1)))"

text \<open>The nil receiver: no text is recognised and nothing changes.\<close>

definition txtParseOpt :: "textparsing option \<Rightarrow> rune \<Rightarrow> bool \<times> textparsing option" where
  "txtParseOpt t r = (case t of None \<Rightarrow> (False, None) | Some t \<Rightarrow> (let (b, t') = txtParse t r in (b, Some t')))"

section \<open>Well-formed states\<close>

definition txt_ok :: "textparsing \<Rightarrow> bool" where
  "txt_ok t \<longleftrightarrow> (txtr t = 0 \<or> IsTxtPar (txtr t)) \<and> (txtr t = 0 \<longrightarrow> txt_prvr t = 0)"

lemma IsTxtPar_pos: "IsTxtPar r \<Longrightarrow> r > 0"
  by (auto simp: IsTxtPar_def)

lemma isText_iff: "txt_ok t \<Longrightarrow> isText t \<longleftrightarrow> txtr t \<noteq> 0"
  by (auto simp: txt_ok_def isText_def dest: IsTxtPar_pos)

lemma txt_ok_new [simp]: "txt_ok newTextparsing"
  by (simp add: txt_ok_def newTextparsing_def)

lemma txtParse_ok: "txt_ok t \<Longrightarrow> txt_ok (snd (txtParse t r))"
  by (auto simp: txtParse_def txt_ok_def Let_def)

text \<open>A rune is text exactly if the recogniser was inside a text or the rune opens one.\<close>

lemma txtParse_result:
  "txt_ok t \<Longrightarrow> fst (txtParse t r) \<longleftrightarrow> txtr t \<noteq> 0 \<or> IsTxtPar r"
  by (auto simp: txtParse_def txt_ok_def Let_def isText_def dest: IsTxtPar_pos)

lemma txtParse_outside [scan_simps]:
  "txtr t = 0 \<Longrightarrow> \<not> IsTxtPar r \<Longrightarrow> txtParse t r = (False, t)"
  by (simp add: txtParse_def isText_def Let_def)

lemma txtParse_lstr:
  "txt_ok t \<Longrightarrow> alttxtr t = 0 \<Longrightarrow> fst (txtParse t r) \<Longrightarrow> lstr (snd (txtParse t r)) = r"
  by (auto simp: txtParse_def txt_ok_def Let_def isText_def)

lemma txtParse_alt: "alttxtr t = 0 \<Longrightarrow> alttxtr (snd (txtParse t r)) = 0"
  by (simp add: txtParse_def Let_def)

section \<open>Running over a sequence\<close>

fun txtRun :: "textparsing \<Rightarrow> rune list \<Rightarrow> bool list \<times> textparsing" where
  "txtRun t [] = ([], t)"
| "txtRun t (r # rs) = (let (b, t1) = txtParse t r; (bs, t2) = txtRun t1 rs in (b # bs, t2))"

text \<open>A text body: the quote occurs only behind a backslash.\<close>

fun body_ok :: "rune \<Rightarrow> rune \<Rightarrow> rune list \<Rightarrow> bool" where
  "body_ok q prv [] \<longleftrightarrow> prv \<noteq> 92"
| "body_ok q prv (r # rs) \<longleftrightarrow> (r = q \<longrightarrow> prv = 92) \<and> body_ok q r rs"

lemma txtRun_append:
  "txtRun t (xs @ ys) = (fst (txtRun t xs) @ fst (txtRun (snd (txtRun t xs)) ys), snd (txtRun (snd (txtRun t xs)) ys))"
  by (induction xs arbitrary: t) (auto split: prod.splits)

lemma txtRun_body:
  assumes "IsTxtPar q" "txtr t = q" "alttxtr t = 0" "body_ok q (txt_prvr t) body"
  shows "fst (txtRun t (body @ [q])) = replicate (Suc (length body)) True \<and>
    txtr (snd (txtRun t (body @ [q]))) = 0 \<and> txt_prvr (snd (txtRun t (body @ [q]))) = 0"
  using assms
proof (induction body arbitrary: t)
  case Nil
  then show ?case using IsTxtPar_pos [of q] by (auto simp: txtParse_def Let_def)
next
  case (Cons r body)
  let ?t = "t\<lparr>lstr := r, txt_prvr := r\<rparr>"
  have "txtParse t r = (True, ?t)"
    using Cons.prems IsTxtPar_pos [of q] by (auto simp: txtParse_def Let_def isText_def)
  then show ?case using Cons.IH [of ?t] Cons.prems by (auto split: prod.splits)
qed

lemma txtRun_plain: "txtr t = 0 \<Longrightarrow> \<forall>r \<in> set rs. \<not> IsTxtPar r \<Longrightarrow> txtRun t rs = (replicate (length rs) False, t)"
  by (induction rs) (auto simp: txtParse_outside)

section \<open>Properties\<close>

text \<open>
  Quoted text is recognised.  Running over plain runes, a quote, a body in which that
  quote occurs only behind a backslash, and the closing quote, exactly the runes from the opening
  to the closing quote are reported as text, and the recogniser is outside again.
\<close>

lemma txtParse_quoted:
  assumes "txt_ok t" "txtr t = 0" "alttxtr t = 0" "\<forall>r \<in> set plain. \<not> IsTxtPar r" "IsTxtPar q" "body_ok q 0 body"
  shows "fst (txtRun t (plain @ q # body @ [q])) =
      replicate (length plain) False @ replicate (length body + 2) True \<and>
    txtr (snd (txtRun t (plain @ q # body @ [q]))) = 0"
proof -
  let ?t = "t\<lparr>lstr := q, txtr := q\<rparr>"
  have p: "txt_prvr t = 0" using assms by (simp add: txt_ok_def)
  have "txtParse t q = (True, ?t)"
    using assms IsTxtPar_pos [of q] by (simp add: txtParse_def isText_def Let_def)
  moreover have "txtRun t plain = (replicate (length plain) False, t)" using assms by (simp add: txtRun_plain)
  ultimately show ?thesis
    using txtRun_body [of q ?t body] assms p by (auto simp: txtRun_append split: prod.splits)
qed

text \<open>
  An escaped backslash is not understood: the text made of a quote, a letter, two backslashes and a quote stays open, because
  only the rune before the quote is looked at.
\<close>

lemma escaped_backslash_stays_open:
  "txtr (snd (txtRun newTextparsing [34, 97, 92, 92, 34])) = 34"
  by (simp add: newTextparsing_def txtParse_def IsTxtPar_def isText_def Let_def)

end
