(* ===== verification/TemplateParser.thy ===== *)
theory TemplateParser
  imports TextParsing "HOL-Library.Sublist"
begin

text \<open>
  The label parser of \<open>src/template/parser.go\<close> (type \<open>Parsing\<close>), on which the element, code and
  attribute parsers of the template engine are built.  It looks for a start label and then for an
  end label and hands everything to callbacks.  The model keeps the parser's own fields in
  \<open>Parsing\<close> and the callbacks in \<open>events\<close>; a callback is a function on the parser together with
  the state \<open>'s\<close> of its client, since the callbacks of this repository also reset the parser.
\<close>

section \<open>State\<close>

record Parsing =
  bufdrns :: "rune list"
  prelbl :: "rune list"
  preL :: nat
  prei :: nat
  prvr :: rune
  postlbl :: "rune list"
  postL :: nat
  posti :: nat
  pretxtprs :: "textparsing option"
  posttxtprs :: "textparsing option"

type_synonym 's pst = "Parsing \<times> 's"

record 's events =
  EventCanPreParse :: "('s pst \<Rightarrow> bool) option"
  EventPreRunes :: "(rune list \<Rightarrow> 's pst \<Rightarrow> 's pst option) option"
  EventMatchedPre :: "('s pst \<Rightarrow> 's pst option) option"
  EventCanPostParse :: "('s pst \<Rightarrow> bool) option"
  EventPostRunes :: "(bool \<Rightarrow> rune list \<Rightarrow> 's pst \<Rightarrow> (bool \<times> 's pst) option) option"
  EventMatchedPost :: "('s pst \<Rightarrow> (bool \<times> 's pst) option) option"

definition nextparsing :: "rune list \<Rightarrow> rune list \<Rightarrow> textparsing option \<Rightarrow> textparsing option \<Rightarrow> Parsing" where
  "nextparsing pre post pretxt posttxt =
     \<lparr>bufdrns = [], prelbl = pre, preL = length pre, prei = 0, prvr = 0,
      postlbl = post, postL = length post, posti = 0, pretxtprs = pretxt, posttxtprs = posttxt\<rparr>"

definition CanPreParse :: "'s events \<Rightarrow> 's pst \<Rightarrow> bool" where
  "CanPreParse ev s = (case EventCanPreParse ev of None \<Rightarrow> True | Some f \<Rightarrow> f s)"

definition CanPostParse :: "'s events \<Rightarrow> 's pst \<Rightarrow> bool" where
  "CanPostParse ev s = (case EventCanPostParse ev of None \<Rightarrow> True | Some f \<Rightarrow> f s)"

definition Busy :: "Parsing \<Rightarrow> bool" where
  "Busy p \<longleftrightarrow> preL p > 0 \<and> postL p > 0 \<and> prei p = preL p \<and> posti p < postL p"

definition ResetParsing :: "Parsing \<Rightarrow> Parsing" where
  "ResetParsing p = p\<lparr>prei := 0, posti := 0, prvr := 0\<rparr>"

definition ClosePars :: "Parsing \<Rightarrow> Parsing" where
  "ClosePars p = p\<lparr>bufdrns := [], postlbl := [], prelbl := [], pretxtprs := None, posttxtprs := None\<rparr>"

section \<open>One rune\<close>

text \<open>Before the start label is complete.\<close>

definition rewindPre :: "'s pst \<Rightarrow> 's pst" where
  "rewindPre s = ((fst s)\<lparr>prei := 0, prvr := 0\<rparr>, snd s)"

definition rewind :: "'s pst \<Rightarrow> 's pst" where
  "rewind s = (ResetParsing (fst s), snd s)"

definition evtpre :: "'s events \<Rightarrow> rune list \<Rightarrow> 's pst \<Rightarrow> 's pst option" where
  "evtpre ev rns s = (case EventPreRunes ev of None \<Rightarrow> Some s | Some f \<Rightarrow> f rns s)"

definition brokenPre :: "Parsing \<Rightarrow> rune \<Rightarrow> bool option" where
  "brokenPre p r =
     (if prei p > 0 then
        do { x \<leftarrow> go_index (prelbl p) (int (prei p) - 1);
             y \<leftarrow> go_index (prelbl p) (int (prei p));
             Some (x = prvr p \<and> y \<noteq> r) }
      else Some False)"

text \<open>The label test; the flag says that the rune has been used.\<close>

definition matchPre :: "'s events \<Rightarrow> rune \<Rightarrow> 's pst \<Rightarrow> (bool \<times> 's pst) option" where
  "matchPre ev r s =
     (if CanPreParse ev s then
        do {
          br \<leftarrow> brokenPre (fst s) r;
          s1 \<leftarrow> (if br then
                   do { lbl \<leftarrow> go_slice (prelbl (fst s)) 0 (int (prei (fst s)));
                        s1 \<leftarrow> evtpre ev lbl s; Some (rewindPre s1) }
                 else Some s);
          x \<leftarrow> go_index (prelbl (fst s1)) (int (prei (fst s1)));
          if x = r then
            (let p2 = (fst s1)\<lparr>prei := prei (fst s1) + 1\<rparr> in
             if prei p2 = preL p2 then
               do { s3 \<leftarrow> (case EventMatchedPre ev of None \<Rightarrow> Some (p2, snd s1) | Some f \<Rightarrow> f (p2, snd s1));
                    Some (True, s3) }
             else Some (True, (p2\<lparr>prvr := r\<rparr>, snd s1)))
          else Some (False, s1)
        }
      else Some (False, s))"

text \<open>
  A rune that is no part of the label.  A pending prefix goes out together with it; the code
  builds that slice with \<open>append\<close> on the label itself, which overwrites the label.
\<close>

definition passPre :: "'s events \<Rightarrow> rune \<Rightarrow> 's pst \<Rightarrow> 's pst option" where
  "passPre ev r s =
     (let p = fst s in
      if prei p > 0 then
        (case EventPreRunes ev of
           None \<Rightarrow> Some (rewindPre s)
         | Some f \<Rightarrow>
             do { lbl \<leftarrow> go_slice (prelbl p) 0 (int (prei p));
                  s1 \<leftarrow> f (lbl @ [r]) (p\<lparr>prelbl := (prelbl p)[prei p := r]\<rparr>, snd s);
                  Some (rewindPre s1) })
      else evtpre ev [r] (p\<lparr>prvr := r\<rparr>, snd s))"

definition parsePre :: "'s events \<Rightarrow> rune \<Rightarrow> 's pst \<Rightarrow> 's pst option" where
  "parsePre ev r s =
     (let (b, t) = txtParseOpt (pretxtprs (fst s)) r; s1 = ((fst s)\<lparr>pretxtprs := t\<rparr>, snd s) in
      if b then
        (case EventPreRunes ev of
           None \<Rightarrow> Some s1
         | Some f \<Rightarrow> do { s2 \<leftarrow> f [lstr (the t)] s1; Some (rewindPre s2) })
      else
        do { (used, s2) \<leftarrow> matchPre ev r s1;
             if used then Some s2 else passPre ev r s2 })"

text \<open>Between the labels.\<close>

definition evtpost :: "'s events \<Rightarrow> bool \<Rightarrow> rune list \<Rightarrow> 's pst \<Rightarrow> 's pst option" where
  "evtpost ev canreset rns s =
     (case EventPostRunes ev of
        None \<Rightarrow> Some s
      | Some f \<Rightarrow> do { (rst, s1) \<leftarrow> f canreset rns s; Some (if rst then rewind s1 else s1) })"

definition matchPost :: "'s events \<Rightarrow> rune \<Rightarrow> 's pst \<Rightarrow> (bool \<times> 's pst) option" where
  "matchPost ev r s =
     (if CanPostParse ev s then
        do {
          x \<leftarrow> go_index (postlbl (fst s)) (int (posti (fst s)));
          if x = r then
            (let p1 = (fst s)\<lparr>posti := posti (fst s) + 1\<rparr> in
             if posti p1 = postL p1 then
               do { s2 \<leftarrow> (case EventMatchedPost ev of
                             None \<Rightarrow> Some (p1, snd s)
                           | Some f \<Rightarrow> map_option snd (f (p1, snd s)));
                    Some (True, rewind s2) }
             else Some (True, (p1, snd s)))
          else Some (False, s)
        }
      else Some (False, s))"

text \<open>
  \<open>parse\<close>.  After a failed end label the client may ask for a reset, and the rune is parsed
  again from the start; it then finds \<open>posti\<close> at zero, so the recursion goes one level deep.
\<close>

function parse :: "'s events \<Rightarrow> rune \<Rightarrow> 's pst \<Rightarrow> 's pst option" where
  "parse ev r s =
     (if posti (fst s) = 0 \<and> prei (fst s) < preL (fst s) then parsePre ev r s
      else if prei (fst s) = preL (fst s) \<and> posti (fst s) < postL (fst s) then
        (let (b, t) = txtParseOpt (posttxtprs (fst s)) r; s1 = ((fst s)\<lparr>posttxtprs := t\<rparr>, snd s) in
         if b then evtpost ev False [lstr (the t)] s1
         else
           do {
             (used, s2) \<leftarrow> matchPost ev r s1;
             if used then Some s2
             else if posti (fst s) > 0 then
               (case EventPostRunes ev of
                  None \<Rightarrow> Some (rewind s2)
                | Some f \<Rightarrow>
                    do { lbl \<leftarrow> go_slice (postlbl (fst s2)) 0 (int (posti (fst s2)));
                         (rst, s3) \<leftarrow> f True lbl s2;
                         if rst then parse ev r (rewind s3)
                         else evtpost ev False [r] ((fst s3)\<lparr>posti := 0\<rparr>, snd s3) })
             else evtpost ev False [r] s2
           })
      else Some s)"
  by pat_completeness auto

termination
  by (relation "measure (\<lambda>(ev, r, s). posti (fst s))") (auto simp: rewind_def ResetParsing_def)

declare parse.simps [simp del]

fun parseAll :: "'s events \<Rightarrow> rune list \<Rightarrow> 's pst \<Rightarrow> 's pst option" where
  "parseAll ev [] s = Some s"
| "parseAll ev (r # rs) s = do { s1 \<leftarrow> parse ev r s; parseAll ev rs s1 }"

text \<open>\<open>Parse\<close> first takes the runes a callback has put back.\<close>

definition Parse :: "'s events \<Rightarrow> rune list \<Rightarrow> 's pst \<Rightarrow> 's pst option" where
  "Parse ev rns s =
     (if 0 < length (bufdrns (fst s))
      then parseAll ev (bufdrns (fst s) @ rns) ((fst s)\<lparr>bufdrns := []\<rparr>, snd s)
      else parseAll ev rns s)"

text \<open>
  The reading loop: \<open>readRune\<close> delivers a rune, its size and an error.  A reader that never
  reports its end keeps the loop going, so not returning is the value \<open>None\<close>.
\<close>

partial_function (option) parseReadRune ::
  "'i rune_reader \<Rightarrow> 's events \<Rightarrow> 'i \<Rightarrow> 's pst \<Rightarrow> (go_err option \<times> 'i \<times> 's pst) option" where
  "parseReadRune rd ev i s =
     do {
       ((r, sz, rerr), i1) \<leftarrow> rd i;
       if sz > 0 then do { s1 \<leftarrow> Parse ev [r] s; parseReadRune rd ev i1 s1 }
       else if sz = 0 \<and> rerr = None then Some (Some EOF, i1, s)
       else if rerr \<noteq> None then Some (rerr, i1, s)
       else parseReadRune rd ev i1 s
     }"

declare parseReadRune.simps [code]

text \<open>\<open>New\<close> with the source already turned into a \<open>readRune\<close> function.\<close>

definition New :: "rune list \<Rightarrow> rune list \<Rightarrow> bool \<Rightarrow> bool \<Rightarrow> Parsing" where
  "New pre post chkpretext chkposttext =
     nextparsing pre post (if chkpretext then Some newTextparsing else None)
       (if chkposttext then Some newTextparsing else None)"

definition Process :: "'i rune_reader \<Rightarrow> 's events \<Rightarrow> 'i \<Rightarrow> 's pst \<Rightarrow> ('i \<times> 's pst) option" where
  "Process rd ev i s = map_option snd (parseReadRune rd ev i s)"

section \<open>The events of a parse\<close>

text \<open>
  A reference lexer without callbacks: which events a rune produces and where it leaves the
  parser.  \<open>resets\<close> says whether the client asks for a reset after a failed end label.
\<close>

datatype pevent = Passive "rune list" | Opened | Active bool "rune list" | Closed

definition lexLabel :: "rune \<Rightarrow> Parsing \<Rightarrow> Parsing \<times> pevent list" where
  "lexLabel r p =
     (if prelbl p ! prei p = r then
        (if prei p + 1 = preL p then (p\<lparr>prei := preL p\<rparr>, [Opened])
         else (p\<lparr>prei := prei p + 1, prvr := r\<rparr>, []))
      else
        (let pend = (if prei p > 0 then [Passive (take (prei p) (prelbl p))] else []) in
         if prei p > 0 \<and> prelbl p ! 0 = r then (p\<lparr>prei := 1, prvr := r\<rparr>, pend)
         else (p\<lparr>prei := 0, prvr := r\<rparr>, pend @ [Passive [r]])))"

definition lexPre :: "rune \<Rightarrow> Parsing \<Rightarrow> Parsing \<times> pevent list" where
  "lexPre r p =
     (let (b, t) = txtParseOpt (pretxtprs p) r; p1 = p\<lparr>pretxtprs := t\<rparr> in
      if b then (p1\<lparr>prei := 0, prvr := 0\<rparr>, [Passive [lstr (the t)]])
      else lexLabel r p1)"

definition lexPost :: "bool \<Rightarrow> rune \<Rightarrow> Parsing \<Rightarrow> Parsing \<times> pevent list" where
  "lexPost resets r p0 =
     (let (b, t) = txtParseOpt (posttxtprs p0) r; p = p0\<lparr>posttxtprs := t\<rparr> in
      if b then (p, [Active False [lstr (the t)]])
      else if postlbl p ! posti p = r then
        (if posti p + 1 = postL p then (ResetParsing p, [Closed])
         else (p\<lparr>posti := posti p + 1\<rparr>, []))
      else if posti p > 0 then
        (if resets then
           (let (p1, es) = lexPre r (ResetParsing p) in (p1, Active True (take (posti p) (postlbl p)) # es))
         else (p\<lparr>posti := 0\<rparr>, [Active True (take (posti p) (postlbl p)), Active False [r]]))
      else (p, [Active False [r]]))"

definition lexRune :: "bool \<Rightarrow> rune \<Rightarrow> Parsing \<Rightarrow> Parsing \<times> pevent list" where
  "lexRune resets r p = (if prei p < preL p then lexPre r p else lexPost resets r p)"

fun lex :: "bool \<Rightarrow> rune list \<Rightarrow> Parsing \<Rightarrow> Parsing \<times> pevent list" where
  "lex resets [] p = (p, [])"
| "lex resets (r # rs) p =
     (let (p1, es) = lexRune resets r p; (p2, fs) = lex resets rs p1 in (p2, es @ fs))"

text \<open>Well-formed parser states with given labels.\<close>

definition txt_opt_ok :: "(rune \<Rightarrow> bool) \<Rightarrow> textparsing option \<Rightarrow> bool" where
  "txt_opt_ok accept t = (case t of None \<Rightarrow> True | Some t \<Rightarrow> txt_ok t \<and> (alttxtr t > 0 \<longrightarrow> accept (alttxtr t)))"

definition pars_ok :: "rune list \<Rightarrow> rune list \<Rightarrow> (rune \<Rightarrow> bool) \<Rightarrow> Parsing \<Rightarrow> bool" where
  "pars_ok pre post accept p \<longleftrightarrow>
     prelbl p = pre \<and> preL p = length pre \<and> 0 < length pre \<and> postlbl p = post \<and> postL p = length post \<and>
     0 < length post \<and> prei p \<le> preL p \<and> posti p < postL p \<and> (posti p > 0 \<longrightarrow> prei p = preL p) \<and>
     (0 < prei p \<and> prei p < preL p \<longrightarrow> prvr p = pre ! (prei p - 1)) \<and> bufdrns p = [] \<and>
     txt_opt_ok accept (pretxtprs p) \<and> txt_opt_ok accept (posttxtprs p) \<and> (\<forall>r \<in> set (pre @ post). accept r)"

definition active :: "Parsing \<Rightarrow> bool" where
  "active p \<longleftrightarrow> prei p = preL p"

lemma txtParseOpt_ok:
  assumes "txt_opt_ok accept t" "accept r" "txtParseOpt t r = (b, t')"
  shows "txt_opt_ok accept t'" "b \<Longrightarrow> accept (lstr (the t')) \<and> t' \<noteq> None"
  using assms txtParse_ok [of "the t" r]
  by (auto simp: txt_opt_ok_def txtParseOpt_def txtParse_def Let_def isText_def split: option.splits if_splits prod.splits)

text \<open>
  The client's side of the contract.  A client has a view \<open>abs\<close> of its state, which the events
  change by \<open>step\<close>; \<open>ok m s\<close> holds of a state \<open>s\<close> between (\<open>m\<close>) or outside the labels.  Every callback
  returns, leaves the parser alone and does what \<open>step\<close> says.
\<close>

locale template_client =
  fixes ev :: "'s events" and pre post :: "rune list" and resets :: bool and accept :: "rune \<Rightarrow> bool"
    and ok :: "bool \<Rightarrow> 's \<Rightarrow> bool" and abs :: "'s \<Rightarrow> 'a" and step :: "'a \<Rightarrow> pevent \<Rightarrow> 'a"
    and fpre fopen fpost fclose
  assumes callbacks: "EventCanPreParse ev = None" "EventCanPostParse ev = None" "EventPreRunes ev = Some fpre"
      "EventMatchedPre ev = Some fopen" "EventPostRunes ev = Some fpost" "EventMatchedPost ev = Some fclose"
    and on_passive: "prelbl p = pre \<Longrightarrow> postlbl p = post \<Longrightarrow> ok False s \<Longrightarrow> \<forall>r \<in> set rns. accept r \<Longrightarrow>
      \<exists>s'. fpre rns (p, s) = Some (p, s') \<and> ok False s' \<and> abs s' = step (abs s) (Passive rns)"
    and on_opened: "prelbl p = pre \<Longrightarrow> postlbl p = post \<Longrightarrow> ok False s \<Longrightarrow>
      \<exists>s'. fopen (p, s) = Some (p, s') \<and> ok True s' \<and> abs s' = step (abs s) Opened"
    and on_active: "prelbl p = pre \<Longrightarrow> postlbl p = post \<Longrightarrow> ok True s \<Longrightarrow> \<forall>r \<in> set rns. accept r \<Longrightarrow>
      \<exists>s'. fpost c rns (p, s) = Some (c \<and> resets, (p, s')) \<and> ok (\<not> (c \<and> resets)) s' \<and> abs s' = step (abs s) (Active c rns)"
    and on_closed: "prelbl p = pre \<Longrightarrow> postlbl p = post \<Longrightarrow> ok True s \<Longrightarrow>
      \<exists>b s'. fclose (p, s) = Some (b, (p, s')) \<and> ok False s' \<and> abs s' = step (abs s) Closed"
begin

text \<open>A result that follows the lexer.\<close>

definition follows :: "'s \<Rightarrow> Parsing \<times> pevent list \<Rightarrow> 's pst option \<Rightarrow> bool" where
  "follows s0 x y \<longleftrightarrow> (\<exists>s. y = Some (fst x, s) \<and> pars_ok pre post accept (fst x) \<and> ok (active (fst x)) s \<and>
     abs s = foldl step (abs s0) (snd x))"

lemmas cb = callbacks evtpre_def rewindPre_def CanPreParse_def

lemma hit_follows:
  assumes q: "pars_ok pre post accept q" "prei q < preL q" "posti q = 0" and s: "ok False s"
    and hit: "pre ! prei q = r"
  shows "\<exists>x. matchPre ev r (q, s) = Some (True, x) \<and> follows s (lexLabel r q) (Some x)"
proof -
  have l: "prelbl q = pre" "postlbl q = post" "preL q = length pre" "prei q < length pre"
    using q by (simp_all add: pars_ok_def)
  then have br: "brokenPre q r = Some False" "go_index pre (int (prei q)) = Some r"
    using hit by (auto simp: brokenPre_def go_index_def)
  show ?thesis
  proof (cases "prei q + 1 = length pre")
    case False
    then show ?thesis
      using br hit l q s by (auto simp: matchPre_def cb lexLabel_def follows_def active_def pars_ok_def)
  next
    case True
    let ?q = "q\<lparr>prei := length pre\<rparr>"
    obtain s' where s': "fopen (?q, s) = Some (?q, s')" "ok True s'" "abs s' = step (abs s) Opened"
      using on_opened [of ?q s] l s by auto
    then show ?thesis
      using True br hit l q by (auto simp: matchPre_def cb lexLabel_def follows_def active_def pars_ok_def Let_def)
  qed
qed

lemma miss_follows:
  assumes q: "pars_ok pre post accept q" "prei q < preL q" "posti q = 0" and s: "ok False s" "accept r"
    and miss: "pre ! prei q \<noteq> r"
  shows "follows s (lexLabel r q)
    (do { (used, s2) \<leftarrow> matchPre ev r (q, s); if used then Some s2 else passPre ev r s2 })"
proof -
  have l: "prelbl q = pre" "postlbl q = post" "preL q = length pre" "prei q < length pre" "0 < length pre"
    "\<forall>r \<in> set (take (prei q) pre). accept r"
    using q by (auto simp: pars_ok_def dest: in_set_takeD)
  have idx: "go_index pre (int (prei q)) = Some (pre ! prei q)" "go_index pre 0 = Some (pre ! 0)"
    using l index_nat [of 0 pre] by (auto simp: go_index_def)
  have pass: "\<exists>s2. passPre ev r (q', s1) = Some (q'\<lparr>prvr := r\<rparr>, s2) \<and> ok False s2 \<and> abs s2 = step (abs s1) (Passive [r])"
    if "prelbl q' = pre" "postlbl q' = post" "prei q' = 0" "ok False s1" for q' s1
    using on_passive [of "q'\<lparr>prvr := r\<rparr>" s1 "[r]"] that s by (auto simp: passPre_def cb Let_def)
  show ?thesis
  proof (cases "prei q = 0")
    case True
    then have "matchPre ev r (q, s) = Some (False, (q, s))"
      using idx miss l by (auto simp: matchPre_def cb brokenPre_def)
    then show ?thesis
      using pass [of q s] l True s miss q
      by (auto simp: lexLabel_def follows_def active_def pars_ok_def Let_def)
  next
    case False
    obtain s1 where s1: "fpre (take (prei q) pre) (q, s) = Some (q, s1)" "ok False s1"
        "abs s1 = step (abs s) (Passive (take (prei q) pre))"
      using on_passive [of q s "take (prei q) pre"] l s by auto
    have br: "brokenPre q r = Some True"
      using False miss l idx q(1) q(2) by (auto simp: brokenPre_def go_index_def pars_ok_def nat_diff_distrib)
    let ?q = "q\<lparr>prei := 0, prvr := 0\<rparr>"
    have m: "matchPre ev r (q, s) = (if pre ! 0 = r then Some (True, (q\<lparr>prei := 1, prvr := r\<rparr>, s1)) else Some (False, (?q, s1)))"
      using br s1 l idx False by (auto simp: matchPre_def cb slice_nat [where i = 0, simplified] Let_def)
    show ?thesis
      using m pass [of ?q s1] s1 l False miss q
      by (auto simp: lexLabel_def follows_def active_def pars_ok_def Let_def)
  qed
qed

lemma parsePre_follows:
  assumes p: "pars_ok pre post accept p" "prei p < preL p" "posti p = 0" and s: "ok False s" "accept r"
  shows "follows s (lexPre r p) (parsePre ev r (p, s))"
proof -
  obtain b t where bt: "txtParseOpt (pretxtprs p) r = (b, t)" by force
  define q where "q = p\<lparr>pretxtprs := t\<rparr>"
  have t: "txt_opt_ok accept t" "b \<Longrightarrow> accept (lstr (the t))"
    using txtParseOpt_ok [of accept "pretxtprs p" r b t] bt s(2) p(1) by (auto simp: pars_ok_def)
  have q: "pars_ok pre post accept q" "prei q < preL q" "posti q = 0" "prelbl q = pre" "postlbl q = post"
    using p t by (auto simp: q_def pars_ok_def)
  show ?thesis
  proof (cases b)
    case True
    obtain s' where "fpre [lstr (the t)] (q, s) = Some (q, s')" "ok False s'" "abs s' = step (abs s) (Passive [lstr (the t)])"
      using on_passive [OF q(4,5) s(1), of "[lstr (the t)]"] t True by auto
    then show ?thesis
      using True bt q by (auto simp: parsePre_def lexPre_def follows_def q_def pars_ok_def active_def rewindPre_def callbacks)
  next
    case False
    then have "lexPre r p = lexLabel r q"
      and red: "parsePre ev r (p, s) = do { (used, s2) \<leftarrow> matchPre ev r (q, s); if used then Some s2 else passPre ev r s2 }"
      using bt by (simp_all add: lexPre_def parsePre_def q_def)
    with hit_follows [OF q(1-3) s(1)] miss_follows [OF q(1-3) s] show ?thesis
      by (cases "pre ! prei q = r") auto
  qed
qed

lemma follows_seq:
  assumes "follows s0 (p1, es) (Some (p1, s1))" "follows s1 (p2, fs) y"
  shows "follows s0 (p2, es @ fs) y"
  using assms by (auto simp: follows_def)

lemma evtpost_active:
  assumes "pars_ok pre post accept q" "prei q = preL q" "ok True s" "\<forall>r \<in> set rns. accept r"
  shows "follows s (q, [Active False rns]) (evtpost ev False rns (q, s))"
proof -
  have "prelbl q = pre" "postlbl q = post" using assms by (simp_all add: pars_ok_def)
  from on_active [OF this assms(3,4), of False] show ?thesis
    using assms by (auto simp: evtpost_def callbacks follows_def active_def)
qed

lemma matchPost_follows:
  assumes q: "pars_ok pre post accept q" "prei q = preL q" and s: "ok True s"
  shows "if post ! posti q = r
    then \<exists>x. matchPost ev r (q, s) = Some (True, x) \<and>
      follows s (if posti q + 1 = postL q then (ResetParsing q, [Closed]) else (q\<lparr>posti := posti q + 1\<rparr>, [])) (Some x)
    else matchPost ev r (q, s) = Some (False, (q, s))"
proof -
  have l: "prelbl q = pre" "postlbl q = post" "postL q = length post" "posti q < length post"
    using q by (simp_all add: pars_ok_def)
  then have x: "go_index post (int (posti q)) = Some (post ! posti q)" by (simp add: go_index_def)
  let ?q = "q\<lparr>posti := length post\<rparr>"
  obtain c s' where s': "fclose (?q, s) = Some (c, (?q, s'))" "ok False s'" "abs s' = step (abs s) Closed"
    using on_closed [of ?q s] l s by auto
  show ?thesis
  proof (cases "posti q + 1 = length post")
    case True
    have "pars_ok pre post accept (ResetParsing ?q)" "ResetParsing ?q = ResetParsing q"
      using q by (auto simp: pars_ok_def ResetParsing_def)
    then show ?thesis
      using True l x s' by (auto simp: matchPost_def CanPostParse_def callbacks follows_def active_def rewind_def
          ResetParsing_def pars_ok_def Let_def)
  next
    case False
    then show ?thesis
      using l x q s by (auto simp: matchPost_def CanPostParse_def callbacks follows_def active_def pars_ok_def Let_def)
  qed
qed

lemma failed_follows:
  assumes q: "pars_ok pre post accept q" "prei q = preL q" "posti q > 0" and s: "ok True s" "accept r"
  shows "follows s
    (if resets then (let (p1, es) = lexPre r (ResetParsing q) in (p1, Active True (take (posti q) post) # es))
     else (q\<lparr>posti := 0\<rparr>, [Active True (take (posti q) post), Active False [r]]))
    (do { lbl \<leftarrow> go_slice (postlbl q) 0 (int (posti q)); (rst, s3) \<leftarrow> fpost True lbl (q, s);
          if rst then parse ev r (rewind s3) else evtpost ev False [r] ((fst s3)\<lparr>posti := 0\<rparr>, snd s3) })"
proof -
  have l: "prelbl q = pre" "postlbl q = post" "posti q < length post" "\<forall>r \<in> set (take (posti q) post). accept r"
    using q by (auto simp: pars_ok_def dest: in_set_takeD)
  obtain s1 where s1: "fpost True (take (posti q) post) (q, s) = Some (resets, (q, s1))" "ok (\<not> resets) s1"
      "abs s1 = step (abs s) (Active True (take (posti q) post))"
    using on_active [OF l(1,2) s(1) l(4), of True] by auto
  have sl: "go_slice post 0 (int (posti q)) = Some (take (posti q) post)"
    using l slice_nat [of 0 "posti q" post] by simp
  have qr: "pars_ok pre post accept (ResetParsing q)" "prei (ResetParsing q) < preL (ResetParsing q)" "posti (ResetParsing q) = 0"
    "pars_ok pre post accept (q\<lparr>posti := 0\<rparr>)"
    using q by (auto simp: pars_ok_def ResetParsing_def)
  show ?thesis
  proof (cases resets)
    case True
    have "parse ev r (ResetParsing q, s1) = parsePre ev r (ResetParsing q, s1)"
      using qr by (subst parse.simps) simp
    with parsePre_follows [OF qr(1-3), of s1 r] True s1 s show ?thesis
      by (auto simp: l sl rewind_def follows_def split: prod.splits)
  next
    case False
    with evtpost_active [OF qr(4), of s1 "[r]"] q s1 s show ?thesis
      by (auto simp: l sl follows_def)
  qed
qed

text \<open>Between the labels: both sides written out.\<close>

lemma parse_between:
  assumes "prei p = preL p" "0 < preL p" "posti p < postL p" "txtParseOpt (posttxtprs p) r = (b, t)"
  shows "parse ev r (p, s) = (let q = p\<lparr>posttxtprs := t\<rparr> in
    if b then evtpost ev False [lstr (the t)] (q, s) else
      do { (used, s2) \<leftarrow> matchPost ev r (q, s);
           if used then Some s2 else if posti p > 0 then
             do { lbl \<leftarrow> go_slice (postlbl (fst s2)) 0 (int (posti (fst s2))); (rst, s3) \<leftarrow> fpost True lbl s2;
                  if rst then parse ev r (rewind s3) else evtpost ev False [r] ((fst s3)\<lparr>posti := 0\<rparr>, snd s3) }
           else evtpost ev False [r] s2 })"
  unfolding parse.simps [of ev r "(p, s)"] callbacks option.case fst_conv snd_conv using assms by (simp add: Let_def)

lemma lexRune_between:
  assumes "prei p = preL p" "postlbl p = post" "txtParseOpt (posttxtprs p) r = (b, t)"
  shows "lexRune resets r p = (let q = p\<lparr>posttxtprs := t\<rparr> in
    if b then (q, [Active False [lstr (the t)]])
    else if post ! posti q = r then (if posti q + 1 = postL q then (ResetParsing q, [Closed]) else (q\<lparr>posti := posti q + 1\<rparr>, []))
    else if posti q > 0 then
      (if resets then (let (p1, es) = lexPre r (ResetParsing q) in (p1, Active True (take (posti q) post) # es))
       else (q\<lparr>posti := 0\<rparr>, [Active True (take (posti q) post), Active False [r]]))
    else (q, [Active False [r]]))"
  using assms by (simp add: lexRune_def lexPost_def Let_def)

text \<open>The parser drives every such client through exactly the events of the reference lexer.\<close>

lemma parse_follows:
  assumes p: "pars_ok pre post accept p" and s: "ok (active p) s" "accept r"
  shows "follows s (lexRune resets r p) (parse ev r (p, s))"
proof (cases "prei p < preL p")
  case True
  then have "posti p = 0" using p by (auto simp: pars_ok_def)
  then have "parse ev r (p, s) = parsePre ev r (p, s)" using True by (subst parse.simps) simp
  with parsePre_follows [OF p True \<open>posti p = 0\<close>] s True show ?thesis
    by (auto simp: lexRune_def active_def)
next
  case False
  then have a: "prei p = preL p" "0 < preL p" "posti p < postL p" "postlbl p = post" using p by (auto simp: pars_ok_def)
  obtain b t where bt: "txtParseOpt (posttxtprs p) r = (b, t)" by force
  define q where "q = p\<lparr>posttxtprs := t\<rparr>"
  have t: "txt_opt_ok accept t" "b \<Longrightarrow> accept (lstr (the t))"
    using txtParseOpt_ok [of accept "posttxtprs p" r b t] bt s(2) p by (auto simp: pars_ok_def)
  have q: "pars_ok pre post accept q" "prei q = preL q" "ok True s" "posti q = posti p"
    using p a t s by (auto simp: q_def pars_ok_def active_def)
  note x = parse_between [OF a(1-3) bt, folded q_def] and y = lexRune_between [OF a(1,4) bt, folded q_def]
  consider (quoted) b | (hit) "\<not> b" "post ! posti q = r" | (fail) "\<not> b" "post ! posti q \<noteq> r" "posti q > 0"
    | (other) "\<not> b" "post ! posti q \<noteq> r" "posti q = 0" by blast
  then show ?thesis
  proof cases
    case quoted
    then show ?thesis unfolding x y Let_def using evtpost_active [OF q(1-3), of "[lstr (the t)]"] t(2) by simp
  next
    case hit
    then show ?thesis unfolding x y Let_def using matchPost_follows [OF q(1-3), of r] by (simp add: if_bool_eq_conj) auto
  next
    case fail
    then show ?thesis unfolding x y Let_def
      using matchPost_follows [OF q(1-3), of r] failed_follows [OF q(1,2) fail(3) q(3) s(2)] q(4)
      by (cases resets) (simp_all add: Let_def)
  next
    case other
    then show ?thesis unfolding x y Let_def
      using matchPost_follows [OF q(1-3), of r] evtpost_active [OF q(1-3), of "[r]"] s(2) q(4) by simp
  qed
qed

lemma parseAll_follows:
  assumes "pars_ok pre post accept p" "ok (active p) s" "\<forall>r \<in> set rs. accept r"
  shows "follows s (lex resets rs p) (parseAll ev rs (p, s))"
  using assms
proof (induction rs arbitrary: p s)
  case Nil
  then show ?case by (simp add: follows_def)
next
  case (Cons r rs)
  obtain p1 es where l1: "lexRune resets r p = (p1, es)" by force
  from parse_follows [OF Cons.prems(1,2), of r] Cons.prems(3) obtain s1 where s1:
    "follows s (p1, es) (Some (p1, s1))" "parse ev r (p, s) = Some (p1, s1)"
    by (auto simp: follows_def l1)
  then have "pars_ok pre post accept p1" "ok (active p1) s1" by (auto simp: follows_def)
  from Cons.IH [OF this] Cons.prems(3) have "follows s1 (lex resets rs p1) (parseAll ev rs (p1, s1))" by simp
  with follows_seq [OF s1(1)] s1(2) l1 show ?case by (auto split: prod.splits)
qed

lemma Parse_follows:
  assumes "pars_ok pre post accept p" "ok (active p) s" "\<forall>r \<in> set rs. accept r"
  shows "follows s (lex resets rs p) (Parse ev rs (p, s))"
  using parseAll_follows [OF assms] assms(1) by (simp add: Parse_def pars_ok_def)

end

section \<open>What the lexer promises\<close>

text \<open>Text that the events stand for, and the label prefix not yet decided.\<close>

fun render :: "rune list \<Rightarrow> rune list \<Rightarrow> pevent \<Rightarrow> rune list" where
  "render pre post (Passive rns) = rns"
| "render pre post Opened = pre"
| "render pre post (Active c rns) = rns"
| "render pre post Closed = post"

definition pending :: "Parsing \<Rightarrow> rune list" where
  "pending p = (if prei p < preL p then take (prei p) (prelbl p) else take (posti p) (postlbl p))"

text \<open>A text parser that is outside a text or has nothing pending before it.\<close>

definition txt_quiet :: "bool \<Rightarrow> textparsing option \<Rightarrow> bool" where
  "txt_quiet clear t = (case t of None \<Rightarrow> True | Some t \<Rightarrow> alttxtr t = 0 \<and> txt_ok t \<and> (txtr t \<noteq> 0 \<longrightarrow> clear))"

definition quiet :: "Parsing \<Rightarrow> bool" where
  "quiet p \<longleftrightarrow> txt_quiet (prei p = 0) (pretxtprs p) \<and> txt_quiet (active p \<and> posti p = 0) (posttxtprs p)"

lemma txtParseOpt_quiet:
  assumes "txt_quiet c t" "txtParseOpt t r = (b, t')"
  shows "b \<Longrightarrow> lstr (the t') = r \<and> (c \<or> IsTxtPar r) \<and> txt_quiet True t'" "\<not> b \<Longrightarrow> t' = t \<and> txt_quiet False t"
  using assms txtParse_lstr [of "the t" r] txtParse_alt [of "the t" r] txtParse_ok [of "the t" r] txtParse_result [of "the t" r]
  by (auto simp: txt_quiet_def txtParseOpt_def txtParse_outside split: option.splits prod.splits if_splits)

lemma txt_quiet_mono: "txt_quiet c t \<Longrightarrow> (c \<longrightarrow> d) \<Longrightarrow> txt_quiet d t"
  by (auto simp: txt_quiet_def split: option.splits)

lemma take_hit: "i < length xs \<Longrightarrow> xs ! i = r \<Longrightarrow> take (Suc i) xs = take i xs @ [r]"
  by (simp add: take_Suc_conv_app_nth)

lemma lexLabel_lossless:
  assumes "pars_ok pre post accept p" "prei p < preL p" "posti p = 0" "lexLabel r p = (p', es)"
  shows "pending p @ [r] = concat (map (render pre post) es) @ pending p'"
    "pending p' \<noteq> [] \<Longrightarrow> last (pending p') = r \<and> r \<in> set (butlast pre)"
    "pretxtprs p' = pretxtprs p" "posttxtprs p' = posttxtprs p" "active p' \<Longrightarrow> posti p' = 0"
    "pars_ok pre post accept p'"
proof -
  have l: "prelbl p = pre" "postlbl p = post" "preL p = length pre" "prei p < length pre"
    using assms by (auto simp: pars_ok_def)
  then have one: "take (Suc 0) pre = [pre ! 0]" by (cases pre) auto
  show "pending p @ [r] = concat (map (render pre post) es) @ pending p'"
    "pretxtprs p' = pretxtprs p" "posttxtprs p' = posttxtprs p" "active p' \<Longrightarrow> posti p' = 0"
    using assms(3,4) l take_hit [of "prei p" pre r] one
    by (auto simp: lexLabel_def pending_def active_def Let_def split: if_splits)
  show "pars_ok pre post accept p'"
    using assms l by (auto simp: lexLabel_def pars_ok_def Let_def Suc_le_eq split: if_splits)
  have b: "pre ! i \<in> set (butlast pre)" if "Suc i < length pre" for i
    using that by (metis Suc_lessE diff_Suc_1 in_set_conv_nth length_butlast nth_butlast Suc_lessI less_Suc_eq)
  show "last (pending p') = r \<and> r \<in> set (butlast pre)" if "pending p' \<noteq> []"
    using that assms(3,4) l take_hit [of "prei p" pre r] one b [of "prei p"] b [of 0]
    by (auto simp: lexLabel_def pending_def Let_def split: if_splits)
qed

lemma lexPre_lossless:
  assumes p: "pars_ok pre post accept p" "prei p < preL p" "posti p = 0" "quiet p" "accept r"
    and calm: "IsTxtPar r \<Longrightarrow> pending p = []" and lex: "lexPre r p = (p', es)"
  shows "pending p @ [r] = concat (map (render pre post) es) @ pending p'"
    "pending p' \<noteq> [] \<Longrightarrow> r \<in> set (butlast pre)" "quiet p'" "pars_ok pre post accept p'"
proof -
  obtain b t where bt: "txtParseOpt (pretxtprs p) r = (b, t)" by force
  have tq: "txt_quiet (prei p = 0) (pretxtprs p)" "txt_quiet False (posttxtprs p)"
    using p by (auto simp: quiet_def active_def)
  note tp = txtParseOpt_quiet [OF tq(1) bt]
  have ok: "txt_opt_ok accept t" using txtParseOpt_ok [of accept "pretxtprs p" r b t] bt p by (auto simp: pars_ok_def)
  define q where "q = p\<lparr>pretxtprs := t\<rparr>"
  have q: "pars_ok pre post accept q" "prei q < preL q" "posti q = 0" "pending q = pending p"
    using p ok by (auto simp: q_def pars_ok_def pending_def)
  have "(pending p @ [r] = concat (map (render pre post) es) @ pending p') \<and>
      (pending p' \<noteq> [] \<longrightarrow> r \<in> set (butlast pre)) \<and> quiet p' \<and> pars_ok pre post accept p'"
  proof (cases b)
    case True
    then have e: "p' = q\<lparr>prei := 0, prvr := 0\<rparr>" "es = [Passive [r]]" "pending p = []"
      using lex bt tp(1) calm p by (auto simp: lexPre_def q_def pending_def)
    show ?thesis
      using e True tp(1) q tq(2) by (auto simp: quiet_def q_def pending_def pars_ok_def intro: txt_quiet_mono)
  next
    case False
    then have "lexLabel r q = (p', es)" using lex bt by (simp add: lexPre_def q_def)
    note ll = lexLabel_lossless [OF q(1-3) this]
    have "quiet p'"
      using ll(3,4) False tp(2) tq(2) by (auto simp: quiet_def q_def intro: txt_quiet_mono)
    then show ?thesis using ll(1,2,6) q(4) by auto
  qed
  then show "pending p @ [r] = concat (map (render pre post) es) @ pending p'"
    "pending p' \<noteq> [] \<Longrightarrow> r \<in> set (butlast pre)" "quiet p'" "pars_ok pre post accept p'" by blast+
qed

lemma butlast_mem: "Suc i < length xs \<Longrightarrow> xs ! i \<in> set (butlast xs)"
  by (metis Suc_lessE diff_Suc_1 in_set_conv_nth length_butlast nth_butlast Suc_lessI less_Suc_eq)

lemma lexPost_lossless:
  assumes p: "pars_ok pre post accept p" "active p" "quiet p" "accept r"
    and calm: "IsTxtPar r \<Longrightarrow> pending p = []" and lex: "lexPost resets r p = (p', es)"
  shows "(pending p @ [r] = concat (map (render pre post) es) @ pending p') \<and>
    (pending p' \<noteq> [] \<longrightarrow> r \<in> set (butlast pre @ butlast post)) \<and> quiet p' \<and> pars_ok pre post accept p'"
proof -
  obtain b t where bt: "txtParseOpt (posttxtprs p) r = (b, t)" by force
  have tq: "txt_quiet (posti p = 0) (posttxtprs p)" "txt_quiet False (pretxtprs p)"
    using p by (auto simp: quiet_def active_def pars_ok_def intro: txt_quiet_mono)
  note tp = txtParseOpt_quiet [OF tq(1) bt]
  have l: "prelbl p = pre" "postlbl p = post" "preL p = length pre" "prei p = length pre" "posti p < length post"
    "postL p = length post" "0 < length pre" using p by (auto simp: pars_ok_def active_def)
  then have pd: "pending p = take (posti p) post" by (simp add: pending_def)
  show ?thesis
  proof (cases b)
    case True
    then have e: "p' = p\<lparr>posttxtprs := t\<rparr>" "es = [Active False [r]]" "posti p = 0"
      using lex bt tp(1) calm pd l by (auto simp: lexPost_def)
    have "txt_opt_ok accept t" using txtParseOpt_ok [of accept "posttxtprs p" r b t] bt p by (auto simp: pars_ok_def)
    then show ?thesis
      using e True tp(1) p tq pd by (auto simp: quiet_def pending_def pars_ok_def active_def)
  next
    case False
    then have q: "p\<lparr>posttxtprs := t\<rparr> = p" "t = posttxtprs p" "txt_quiet False (posttxtprs p)" using tp(2) by simp_all
    then have qt: "txt_quiet c (posttxtprs p)" "txt_quiet c (pretxtprs p)" for c using tq by (auto intro: txt_quiet_mono)
    have lx: "lexPost resets r p =
        (if post ! posti p = r then if posti p + 1 = postL p then (ResetParsing p, [Closed]) else (p\<lparr>posti := posti p + 1\<rparr>, [])
         else if posti p > 0 then
           if resets then let (p1, es) = lexPre r (ResetParsing p) in (p1, Active True (take (posti p) post) # es)
           else (p\<lparr>posti := 0\<rparr>, [Active True (take (posti p) post), Active False [r]])
         else (p, [Active False [r]]))"
      using False bt q(1) l by (simp add: lexPost_def)
    have rp: "pars_ok pre post accept (ResetParsing p)" "prei (ResetParsing p) < preL (ResetParsing p)" "posti (ResetParsing p) = 0"
      "quiet (ResetParsing p)" "pending (ResetParsing p) = []"
      using p l qt by (auto simp: pars_ok_def ResetParsing_def quiet_def pending_def)
    show ?thesis
    proof (cases "post ! posti p \<noteq> r \<and> posti p > 0 \<and> resets")
      case True
      then obtain fs where f: "lexPre r (ResetParsing p) = (p', fs)" "es = Active True (take (posti p) post) # fs"
        using lex lx by (auto split: prod.splits)
      from lexPre_lossless [OF rp(1-4) p(4) rp(5) f(1)] show ?thesis using f(2) pd rp(5) by auto
    next
      case False
      then show ?thesis
        using lex lx p l qt pd rp take_hit [of "posti p" post r] butlast_mem [of "posti p" post]
        by (auto simp: quiet_def pending_def pars_ok_def active_def split: if_splits)
    qed
  qed
qed

text \<open>No quote directly behind a rune that may be the middle of a label.\<close>

fun calm :: "rune list \<Rightarrow> rune \<Rightarrow> rune list \<Rightarrow> bool" where
  "calm lbl prv [] \<longleftrightarrow> True"
| "calm lbl prv (r # rs) \<longleftrightarrow> (IsTxtPar r \<longrightarrow> prv \<notin> set lbl) \<and> calm lbl r rs"

lemma lex_lossless:
  assumes "pars_ok pre post accept p" "quiet p" "\<forall>r \<in> set rs. accept r"
    "calm (butlast pre @ butlast post) prv rs" "pending p \<noteq> [] \<longrightarrow> prv \<in> set (butlast pre @ butlast post)"
    "lex resets rs p = (p', es)"
  shows "pending p @ rs = concat (map (render pre post) es) @ pending p' \<and> quiet p' \<and> pars_ok pre post accept p'"
  using assms
proof (induction rs arbitrary: p prv es)
  case Nil
  then show ?case by simp
next
  case (Cons r rs)
  obtain p1 fs where l1: "lexRune resets r p = (p1, fs)" by force
  obtain gs where l2: "lex resets rs p1 = (p', gs)" "es = fs @ gs" using Cons.prems(6) l1 by (auto split: prod.splits)
  have c: "IsTxtPar r \<Longrightarrow> pending p = []" "accept r" using Cons.prems by auto
  have s1: "(pending p @ [r] = concat (map (render pre post) fs) @ pending p1) \<and>
      (pending p1 \<noteq> [] \<longrightarrow> r \<in> set (butlast pre @ butlast post)) \<and> quiet p1 \<and> pars_ok pre post accept p1"
  proof (cases "prei p < preL p")
    case True
    then have "posti p = 0" "lexPre r p = (p1, fs)" using Cons.prems(1) l1 by (auto simp: pars_ok_def lexRune_def)
    from lexPre_lossless [OF Cons.prems(1) True this(1) Cons.prems(2) c(2,1) this(2)] show ?thesis by auto
  next
    case False
    then have "active p" "lexPost resets r p = (p1, fs)"
      using Cons.prems(1) l1 by (auto simp: pars_ok_def lexRune_def active_def)
    from lexPost_lossless [OF Cons.prems(1) this(1) Cons.prems(2) c(2,1) this(2)] show ?thesis .
  qed
  then have s2: "pending p1 @ rs = concat (map (render pre post) gs) @ pending p' \<and> quiet p' \<and> pars_ok pre post accept p'"
    using Cons.prems(3,4) by (intro Cons.IH [of p1 r gs] l2(1)) auto
  have "pending p @ r # rs = (pending p @ [r]) @ rs" by simp
  also have "\<dots> = concat (map (render pre post) fs) @ (pending p1 @ rs)" using s1 by simp
  also have "\<dots> = concat (map (render pre post) es) @ pending p'" using s2 l2(2) by simp
  finally show ?case using s2 by simp
qed

section \<open>Documents\<close>

text \<open>
  A document is a list of segments \<open>a\<close> \<open>pre\<close> \<open>b\<close> \<open>post\<close> and a tail.
\<close>

type_synonym doc = "(rune list \<times> rune list) list"

definition doc_text :: "rune list \<Rightarrow> rune list \<Rightarrow> doc \<Rightarrow> rune list \<Rightarrow> rune list" where
  "doc_text pre post segs rest = concat (map (\<lambda>(a, b). a @ pre @ b @ post) segs) @ rest"

text \<open>A part without the first rune of the label that would end it, and without quotes where quotes are recognised.\<close>

definition plain_for :: "rune list \<Rightarrow> textparsing option \<Rightarrow> rune list \<Rightarrow> bool" where
  "plain_for lbl t xs \<longleftrightarrow> hd lbl \<notin> set xs \<and> (t \<noteq> None \<longrightarrow> (\<forall>r \<in> set (lbl @ xs). \<not> IsTxtPar r))"

definition at_start :: "rune list \<Rightarrow> rune list \<Rightarrow> textparsing option \<Rightarrow> textparsing option \<Rightarrow> Parsing \<Rightarrow> bool" where
  "at_start pre post t u p \<longleftrightarrow> prelbl p = pre \<and> preL p = length pre \<and> pre \<noteq> [] \<and> postlbl p = post \<and> postL p = length post \<and>
     post \<noteq> [] \<and> prei p = 0 \<and> posti p = 0 \<and> pretxtprs p = t \<and> posttxtprs p = u \<and>
     (case t of None \<Rightarrow> True | Some x \<Rightarrow> txtr x = 0) \<and> (case u of None \<Rightarrow> True | Some x \<Rightarrow> txtr x = 0)"

lemma lex_append:
  "lex c (xs @ ys) p = (let (p1, es) = lex c xs p; (p2, fs) = lex c ys p1 in (p2, es @ fs))"
  by (induction xs arbitrary: p) (auto split: prod.splits)

lemma lex_then: "lex c xs p = (p1, es) \<Longrightarrow> zs = xs @ ys \<Longrightarrow> snd (lex c zs p) = es @ snd (lex c ys p1)"
  by (simp add: lex_append split: prod.splits)

lemma txtParseOpt_outside:
  "(case t of None \<Rightarrow> True | Some x \<Rightarrow> txtr x = 0) \<Longrightarrow> t \<noteq> None \<longrightarrow> \<not> IsTxtPar r \<Longrightarrow> txtParseOpt t r = (False, t)"
  by (auto simp: txtParseOpt_def txtParse_outside split: option.splits)

lemma lex_active:
  assumes "at_start pre post t u (p\<lparr>prei := 0\<rparr>)" "prei p = length pre" "plain_for post u b"
  shows "lex c b p = (p, map (\<lambda>r. Active False [r]) b)"
  using assms
proof (induction b)
  case (Cons r b)
  have "txtParseOpt (posttxtprs p) r = (False, posttxtprs p)"
    using Cons.prems by (intro txtParseOpt_outside) (auto simp: at_start_def plain_for_def)
  then have "lexRune c r p = (p, [Active False [r]])"
    using Cons.prems by (auto simp: lexRune_def lexPost_def at_start_def plain_for_def hd_conv_nth)
  then show ?case using Cons by (auto simp: plain_for_def)
qed simp

lemma lex_postlabel:
  assumes "at_start pre post t u (p\<lparr>prei := 0, posti := 0\<rparr>)" "prei p = length pre" "posti p < length post"
    "u \<noteq> None \<longrightarrow> (\<forall>r \<in> set post. \<not> IsTxtPar r)"
  shows "lex c (drop (posti p) post) p = (ResetParsing p, [Closed])"
  using assms
proof (induction "length post - posti p" arbitrary: p)
  case 0
  then show ?case by simp
next
  case (Suc n)
  let ?r = "post ! posti p"
  have d: "drop (posti p) post = ?r # drop (Suc (posti p)) post" using Suc.prems by (simp add: Cons_nth_drop_Suc)
  have tp: "txtParseOpt (posttxtprs p) ?r = (False, posttxtprs p)"
    using Suc.prems by (intro txtParseOpt_outside) (auto simp: at_start_def)
  show ?case
  proof (cases "Suc (posti p) = length post")
    case True
    then show ?thesis unfolding d using tp Suc.prems by (auto simp: lexRune_def lexPost_def at_start_def)
  next
    case False
    let ?p = "p\<lparr>posti := Suc (posti p)\<rparr>"
    have "lexRune c ?r p = (?p, [])"
      using tp Suc.prems False by (simp add: lexRune_def lexPost_def at_start_def)
    moreover have "at_start pre post t u (?p\<lparr>prei := 0, posti := 0\<rparr>)" using Suc.prems by (auto simp: at_start_def)
    moreover have "ResetParsing ?p = ResetParsing p" by (simp add: ResetParsing_def)
    ultimately show ?thesis
      using Suc.hyps(1) [of ?p] Suc.hyps(2) Suc.prems False unfolding d by (auto split: prod.splits)
  qed
qed

text \<open>
  Passive text before a label of two runes.  The first rune of the label may occur in it, also directly before the label, as long as the
  label itself does not: what was taken for a label is handed on as passive text.
\<close>

lemma lex_loose:
  assumes "at_start [x, y] post None u (p\<lparr>prei := 0\<rparr>)" "prei p < 2" "x \<noteq> y" "\<not> sublist [x, y] (replicate (prei p) x @ a)"
  shows "\<exists>m v es. m < 2 \<and> lex c a p = (p\<lparr>prei := m, prvr := v\<rparr>, map Passive es) \<and> [] \<notin> set es \<and>
    concat es @ replicate m x = replicate (prei p) x @ a"
  using assms
proof (induction a arbitrary: p)
  case Nil
  then show ?case by (intro exI [of _ "prei p"] exI [of _ "prvr p"] exI [of _ "[]"]) simp
next
  case (Cons r a)
  let ?n = "prei p" and ?m = "if r = x then 1 else 0 :: nat"
  let ?fs = "if r = x then replicate ?n [x] else replicate ?n [x] @ [[r]]"
  have n: "?n = 0 \<or> ?n = 1" using Cons.prems(2) by auto
  have ny: "?n = 1 \<Longrightarrow> r \<noteq> y" using Cons.prems(4) by (auto simp: sublist_def)
  have 1: "lexRune c r p = (p\<lparr>prei := ?m, prvr := r\<rparr>, map Passive ?fs)"
    using n ny Cons.prems(1,3) by (auto simp: lexRune_def lexPre_def lexLabel_def at_start_def txtParseOpt_def)
  let ?p = "p\<lparr>prei := ?m, prvr := r\<rparr>"
  have "replicate ?n x @ r # a = concat ?fs @ replicate ?m x @ a" using n by auto
  then have "\<not> sublist [x, y] (replicate ?m x @ a)" using Cons.prems(4) by (metis sublist_appendI sublist_order.order_trans append_Nil2)
  moreover have "at_start [x, y] post None u (?p\<lparr>prei := 0\<rparr>)" using Cons.prems(1) by (auto simp: at_start_def)
  ultimately obtain m v es where
    2: "m < 2" "lex c a ?p = (?p\<lparr>prei := m, prvr := v\<rparr>, map Passive es)" "[] \<notin> set es" "concat es @ replicate m x = replicate ?m x @ a"
    using Cons.IH [of ?p] Cons.prems(3) by (cases "r = x") auto
  have "lex c (r # a) p = (p\<lparr>prei := m, prvr := v\<rparr>, map Passive (?fs @ es))" using 1 2(2) by simp
  moreover have "concat (?fs @ es) @ replicate m x = replicate ?n x @ r # a" using 2(4) n by auto
  ultimately show ?case using 2(1,3) by (intro exI [of _ m] exI [of _ v] exI [of _ "?fs @ es"]) auto
qed

lemma lex_open:
  assumes "at_start [x, y] post None u (p\<lparr>prei := 0\<rparr>)" "prei p < 2" "x \<noteq> y"
  shows "\<exists>v. lex c [x, y] p = (p\<lparr>prei := 2, prvr := v\<rparr>, map Passive (replicate (prei p) [x]) @ [Opened])"
proof -
  have "prei p = 0 \<or> prei p = 1" using assms(2) by auto
  then have "lexRune c x p = (p\<lparr>prei := 1, prvr := x\<rparr>, map Passive (replicate (prei p) [x]))"
    "lexRune c y (p\<lparr>prei := 1, prvr := x\<rparr>) = (p\<lparr>prei := 2, prvr := x\<rparr>, [Opened])"
    using assms(1,3) by (auto simp: lexRune_def lexPre_def lexLabel_def at_start_def txtParseOpt_def)
  then show ?thesis by (intro exI [of _ x]) simp
qed

lemma lex_passive:
  assumes "at_start [x, y] post None u p" "x \<noteq> y" "\<not> sublist [x, y] a"
  shows "\<exists>v es. lex c (a @ [x, y]) p = (p\<lparr>prei := 2, prvr := v\<rparr>, map Passive es @ [Opened]) \<and> [] \<notin> set es \<and> concat es = a"
proof -
  have p: "at_start [x, y] post None u (p\<lparr>prei := 0\<rparr>)" "prei p = 0" using assms(1) by (auto simp: at_start_def)
  from lex_loose [OF p(1), of a c] p(2) assms(2,3) obtain m v es where
    1: "m < 2" "lex c a p = (p\<lparr>prei := m, prvr := v\<rparr>, map Passive es)" "[] \<notin> set es" "concat es @ replicate m x = a" by auto
  have "at_start [x, y] post None u (p\<lparr>prei := m, prvr := v\<rparr>\<lparr>prei := 0\<rparr>)" using assms(1) by (auto simp: at_start_def)
  from lex_open [OF this, of c] 1(1) assms(2) obtain w where
    2: "lex c [x, y] (p\<lparr>prei := m, prvr := v\<rparr>) = (p\<lparr>prei := 2, prvr := w\<rparr>, map Passive (replicate m [x]) @ [Opened])" by auto
  have "concat (es @ replicate m [x]) = a" using 1(4) by (simp add: concat_replicate_single)
  moreover have "lex c (a @ [x, y]) p = (p\<lparr>prei := 2, prvr := w\<rparr>, map Passive (es @ replicate m [x]) @ [Opened])"
    unfolding lex_append using 1(2) 2 by simp
  ultimately show ?thesis using 1(3) by (intro exI [of _ w] exI [of _ "es @ replicate m [x]"]) auto
qed

text \<open>
  Active text before an end label \<open>xy\<close>, with quotes recognised: every quoted text is closed (the quote occurs in it only behind a
  backslash), and outside of quoted text \<open>x\<close> is followed by a rune other than \<open>x\<close>, \<open>y\<close> and a quote.
\<close>

fun code_ok :: "rune \<Rightarrow> rune \<Rightarrow> rune \<Rightarrow> rune \<Rightarrow> rune list \<Rightarrow> bool" where
  "code_ok x y q prv [] \<longleftrightarrow> q = 0 \<and> prv \<noteq> x"
| "code_ok x y q prv (r # rs) \<longleftrightarrow>
     (if q = 0 then (prv = x \<longrightarrow> r \<noteq> x \<and> r \<noteq> y \<and> \<not> IsTxtPar r) \<and> (if IsTxtPar r then code_ok x y r 0 rs else code_ok x y 0 r rs)
      else if r = q \<and> prv \<noteq> 92 then code_ok x y 0 0 rs
      else code_ok x y q r rs)"

lemma lex_code:
  assumes "at_start pre [x, y] s (Some t0) (p\<lparr>prei := 0, posti := 0, posttxtprs := Some t0\<rparr>)" "prei p = length pre" 
    "posttxtprs p = Some t" "txt_ok t" "alttxtr t = 0" "posti p = (if txtr t = 0 \<and> prv = x then 1 else 0)"
    "txtr t \<noteq> 0 \<longrightarrow> prv = txt_prvr t"
    "\<not> IsTxtPar x" "x \<noteq> 0" "code_ok x y (txtr t) prv b"
  shows "\<exists>t1 es. lex False b p = (p\<lparr>posti := 0, posttxtprs := Some t1\<rparr>, map (\<lambda>(c, rs). Active c rs) es) \<and>
     txt_ok t1 \<and> alttxtr t1 = 0 \<and> txtr t1 = 0 \<and> concat (map snd es) = replicate (posti p) x @ b"
  using assms
proof (induction b arbitrary: p t prv)
  case Nil
  then show ?case by (intro exI [of _ t] exI [of _ "[]"]) simp
next
  case (Cons r b)
  let ?t = "snd (txtParse t r)"
  have pl: "\<not> prei p < preL p" "postlbl p = [x, y]" "postL p = 2" using Cons.prems(1,2) by (auto simp: at_start_def)
  have t1: "txt_ok ?t" "alttxtr ?t = 0" using Cons.prems(4,5) txtParse_ok txtParse_alt by auto
  have st: "at_start pre [x, y] s (Some t0) (q\<lparr>prei := 0, posti := 0, posttxtprs := Some t0\<rparr>)" "prei q = length pre"
    if "q = p\<lparr>posti := k, posttxtprs := Some ?t\<rparr>" for q k
    using that Cons.prems(1,2) by (auto simp: at_start_def)
  show ?case
  proof (cases "fst (txtParse t r)")
    case True
    let ?p = "p\<lparr>posti := 0, posttxtprs := Some ?t\<rparr>" and ?prv = "if txtr ?t = 0 then 0 else txt_prvr ?t"
    have po: "posti p = 0" using Cons.prems(4,6,10) True txtParse_result by (auto split: if_splits)
    have 1: "lexRune False r p = (?p, [Active False [r]])"
      using pl Cons.prems(3) True po txtParse_lstr [OF Cons.prems(4,5) True]
      by (auto simp: lexRune_def lexPost_def txtParseOpt_def split: prod.splits)
    have "code_ok x y (txtr ?t) ?prv b"
      using Cons.prems(4,5,7,10) True by (auto simp: txtParse_def Let_def isText_def txt_ok_def split: if_splits dest: IsTxtPar_pos)
    moreover have "posti ?p = (if txtr ?t = 0 \<and> ?prv = x then 1 else 0)" using Cons.prems(9) by simp
    ultimately obtain t1 es where "lex False b ?p = (?p\<lparr>posti := 0, posttxtprs := Some t1\<rparr>, map (\<lambda>(c, rs). Active c rs) es)"
        "txt_ok t1" "alttxtr t1 = 0" "txtr t1 = 0" "concat (map snd es) = b"
      using Cons.IH [of ?p ?t ?prv] st [of ?p 0] t1 Cons.prems(8,9) by auto
    then show ?thesis using 1 po by (intro exI [of _ t1] exI [of _ "(False, [r]) # es"]) simp
  next
    case False
    then have o: "txtr t = 0" "\<not> IsTxtPar r" using txtParse_result [OF Cons.prems(4)] by auto
    then have tt: "?t = t" "txtParse t r = (False, t)" by (simp_all add: txtParse_outside)
    have po: "posti p = (if prv = x then 1 else 0)" using Cons.prems(6) o by simp
    let ?k = "if r = x then 1 else 0 :: nat" and ?p = "p\<lparr>posti := if r = x then 1 else 0, posttxtprs := Some ?t\<rparr>"
    let ?fs = "if r = x then [] else if prv = x then [(True, [x]), (False, [r])] else [(False, [r])]"
    have c: "prv = x \<Longrightarrow> r \<noteq> x \<and> r \<noteq> y" "code_ok x y 0 r b" using Cons.prems(10) o by auto
    have "lexRune False r p = (?p, map (\<lambda>(c, rs). Active c rs) ?fs)"
      using pl Cons.prems(3) tt po c(1) by (auto simp: lexRune_def lexPost_def txtParseOpt_def)
    moreover obtain t1 es where "lex False b ?p = (?p\<lparr>posti := 0, posttxtprs := Some t1\<rparr>, map (\<lambda>(c, rs). Active c rs) es)"
        "txt_ok t1" "alttxtr t1 = 0" "txtr t1 = 0" "concat (map snd es) = replicate ?k x @ b"
      using Cons.IH [of ?p t r] st [of ?p ?k] Cons.prems(4,5,8,9) o(1) tt c(2) by auto
    ultimately show ?thesis using c(1) po by (intro exI [of _ t1] exI [of _ "?fs @ es"]) auto
  qed
qed

end
