(* ===== verification/MapReader.thy ===== *)
theory MapReader
  imports Runes
begin

text \<open>
  The replacing readers of \<open>src/ioext/mapreader.go\<close>.  A \<open>mapreader\<close> delivers the runes of a source
  with every key of a map replaced by its value; a \<open>mapprepostreader\<close> replaces only keys written
  between two labels.  Both keep runes they have read too far (\<open>orgrnes\<close>) and runes ready for
  delivery (\<open>bfrnes\<close>, \<open>bfrdr\<close>).

  A rune reader is the list of the results it will deliver; after the last one it reports
  \<open>EOF\<close>.  The \<open>goto\<close> labels of the two \<open>ReadRune\<close> methods are the constructors of a program
  counter, and each method is the iteration of a step function.
\<close>

section \<open>Readers and values\<close>

datatype item = Rn rune | Er go_err

fun nextItem :: "item list \<Rightarrow> rune_result \<times> item list" where
  "nextItem [] = ((0, 0, Some EOF), [])"
| "nextItem (Rn r # xs) = ((r, RuneLen r, None), xs)"
| "nextItem (Er e # xs) = ((0, 0, Some e), xs)"

text \<open>Values of the map; a buffer is given by the runes its reader delivers.\<close>

datatype map_val = VStr "rune list" | VRunes "rune list" | VBuf "rune list" | VRdr "item list" | VOther

record mapreader =
  orgreadrne :: "item list option"
  orgrnes :: "rune list"
  bfrnes :: "rune list"
  bfrdr :: "item list option"
  mp :: "(rune list \<times> map_val) list"
  keys :: "rune list list"
  vldchr :: "rune \<Rightarrow> rune \<Rightarrow> bool"
  cptrkeyval :: "rune list \<Rightarrow> map_val \<Rightarrow> map_val \<times> bool"

definition closeMap :: "mapreader \<Rightarrow> mapreader" where
  "closeMap m = m\<lparr>bfrdr := None, bfrnes := [], keys := [], orgreadrne := None, orgrnes := [], mp := []\<rparr>"

text \<open>The next rune of the source: first those that were put back.\<close>

definition OrgRune :: "mapreader \<Rightarrow> rune_result \<times> mapreader" where
  "OrgRune m =
     (case orgrnes m of
        r # rs \<Rightarrow> ((r, RuneLen r, None), m\<lparr>orgrnes := rs\<rparr>)
      | [] \<Rightarrow>
          (case orgreadrne m of
             Some xs \<Rightarrow>
               (let ((r, sz, err), xs') = nextItem xs; m1 = m\<lparr>orgreadrne := Some xs'\<rparr> in
                if sz > 0 then ((r, sz, err), m1)
                else if err \<noteq> None then ((r, sz, err), m1\<lparr>orgreadrne := None\<rparr>)
                else ((r, sz, err), m1))
           | None \<Rightarrow> ((0, 0, Some EOF), m)))"

definition tobuf :: "map_val \<Rightarrow> mapreader \<Rightarrow> bool \<times> mapreader" where
  "tobuf v m =
     (case v of
        VStr s \<Rightarrow> if s = [] then (False, m) else (True, m\<lparr>bfrnes := bfrnes m @ s\<rparr>)
      | VRunes s \<Rightarrow> if s = [] then (False, m) else (True, m\<lparr>bfrnes := bfrnes m @ s\<rparr>)
      | VBuf s \<Rightarrow> if s = [] then (False, m) else (True, m\<lparr>bfrdr := Some (map Rn s)\<rparr>)
      | VRdr xs \<Rightarrow> (True, m\<lparr>bfrdr := Some xs\<rparr>)
      | VOther \<Rightarrow> (False, m))"

definition capture :: "rune list \<Rightarrow> mapreader \<Rightarrow> bool \<times> mapreader" where
  "capture key m =
     (if mp m = [] then (False, m)
      else
        (case map_of (mp m) key of
           None \<Rightarrow> (False, m)
         | Some v \<Rightarrow>
             (let ask = (\<lambda>w. let (w', ok) = cptrkeyval m key w in if ok then tobuf w' m else (False, m)) in
              (case v of
                 VStr s \<Rightarrow> if s \<noteq> [] then ask (VStr s) else (False, m)
               | VRunes s \<Rightarrow> if s = [] then (False, m) else ask (VStr s)
               | VBuf s \<Rightarrow> if s = [] then (False, m) else ask (VBuf s)
               | VRdr xs \<Rightarrow> tobuf v m
               | VOther \<Rightarrow> tobuf v m))))"

section \<open>Replacing keys anywhere\<close>

text \<open>
  The program counter: the labels \<open>rdbf\<close>, \<open>rdorg\<close> and \<open>rdnextr\<close>; the last one with the runes
  tried, the keys that may still match and the last complete one.
\<close>

datatype mr_pc = RdBf | RdOrg | RdNext "rune list" "rune list list" "rune list"

text \<open>The loop at \<open>chnxtr\<close> keeps the keys that start with the runes tried; it stops at a complete key.\<close>

fun scanKeys :: "rune list \<Rightarrow> rune list list \<Rightarrow> rune list list \<Rightarrow> rune list option \<times> rune list list" where
  "scanKeys tst kept [] = (None, kept)"
| "scanKeys tst kept (k # ks) =
     (if length k \<ge> length tst \<and> take (length tst) k = tst then
        (if length k = length tst then (Some k, kept @ ks) else scanKeys tst (kept @ [k]) ks)
      else scanKeys tst kept ks)"

definition chnxtr :: "rune list \<Rightarrow> rune list list \<Rightarrow> rune list \<Rightarrow> mr_pc" where
  "chnxtr tst ks lst =
     (let (hit, ks') = scanKeys tst [] ks in RdNext tst ks' (case hit of Some k \<Rightarrow> k | None \<Rightarrow> lst))"

text \<open>Shared by both readers: deliver what is ready, or go on at \<open>nxt\<close>.\<close>

definition readyRune :: "mapreader \<Rightarrow> (rune_result \<times> mapreader) option \<times> mapreader" where
  "readyRune m =
     (let (res, m1) =
        (case bfrdr m of
           Some xs \<Rightarrow>
             (let ((r, sz, err), xs') = nextItem xs; m1 = m\<lparr>bfrdr := Some xs'\<rparr> in
              if sz > 0 then (Some ((r, sz, err), m1), m1)
              else if err \<noteq> None \<and> err \<noteq> Some EOF then (Some ((r, sz, err), closeMap m1), m1)
              else (None, if err \<noteq> None then m1\<lparr>bfrdr := None\<rparr> else m1))
         | None \<Rightarrow> (None, m)) in
      case res of
        Some x \<Rightarrow> (Some x, m1)
      | None \<Rightarrow>
          (case bfrnes m1 of
             r # rs \<Rightarrow> (Some ((r, RuneLen r, None), m1\<lparr>bfrnes := rs\<rparr>), m1)
           | [] \<Rightarrow> (None, m1)))"

definition mapStep :: "mr_pc \<times> mapreader \<Rightarrow> (rune_result \<times> mapreader + mr_pc \<times> mapreader) option" where
  "mapStep s =
     (case s of
        (RdBf, m) \<Rightarrow> (case readyRune m of (Some x, _) \<Rightarrow> Some (Inl x) | (None, m1) \<Rightarrow> Some (Inr (RdOrg, m1)))
      | (RdOrg, m) \<Rightarrow>
          (let ((r, sz, err), m1) = OrgRune m in
           if sz > 0 then
             (if [] \<in> set (keys m1) then None
              else
                (let mtch = filter (\<lambda>k. hd k = r) (keys m1) in
                 if mtch = [] then Some (Inl ((r, sz, err), m1)) else Some (Inr (chnxtr [r] mtch [], m1))))
           else Some (Inl ((r, sz, if err = None then Some EOF else err), m1)))
      | (RdNext tst ks lst, m) \<Rightarrow>
          (if ks = [] then
             (if lst = [] then
                (case tst of
                   [] \<Rightarrow> None
                 | t # ts \<Rightarrow> Some (Inr (RdBf, m\<lparr>bfrnes := bfrnes m @ [t], orgrnes := orgrnes m @ ts\<rparr>)))
              else
                (let (ok, m1) = capture lst (m\<lparr>orgrnes := orgrnes m @ drop (length lst) tst\<rparr>) in
                 if ok then Some (Inr (RdBf, m1)) else Some (Inr (RdNext [] [] [], m1))))
           else
             (let ((r, sz, err), m1) = OrgRune m in
              if sz > 0 then Some (Inr (chnxtr (tst @ [r]) ks lst, m1))
              else if err \<noteq> None \<and> err \<noteq> Some EOF then Some (Inl ((r, sz, err), m1))
              else if lst \<noteq> [] then
                (let (ok, m2) = capture lst (m1\<lparr>orgrnes := orgrnes m1 @ drop (length lst) tst\<rparr>) in
                 if ok then Some (Inr (RdBf, m2))
                 else if 0 < length (orgrnes m2) then Some (Inr (RdOrg, m2)) else Some (Inl ((0, 0, Some EOF), m2)))
              else Some (Inl ((0, 0, Some EOF), m1)))))"

partial_function (option) mapRun :: "mr_pc \<times> mapreader \<Rightarrow> (rune_result \<times> mapreader) option" where
  "mapRun s = do { x \<leftarrow> mapStep s; case x of Inl y \<Rightarrow> Some y | Inr s' \<Rightarrow> mapRun s' }"

definition ReadRune :: "mapreader \<Rightarrow> (rune_result \<times> mapreader) option" where
  "ReadRune m = mapRun (RdBf, m)"

partial_function (option) Runes :: "mapreader \<Rightarrow> rune list \<Rightarrow> rune list option" where
  "Runes m rns =
     do { ((r, s, err), m1) \<leftarrow> ReadRune m;
          if s > 0 then Runes m1 (rns @ [r]) else Some rns }"

section \<open>Replacing keys between labels\<close>

record mapprepostreader =
  mapr :: "mapreader option"
  mpre :: "rune list"
  mprei :: nat
  mpvr :: rune
  mprel :: nat
  mpost :: "rune list"
  mposti :: nat
  mpostl :: nat
  tstkeyrns :: "rune list"
  flshunmtchd :: "rune list \<Rightarrow> bool"

definition closePrePost :: "mapprepostreader \<Rightarrow> mapprepostreader" where
  "closePrePost p = p\<lparr>mapr := None, tstkeyrns := [], mposti := 0, mprei := 0, mpre := [], mpost := [], mpvr := 0\<rparr>"

datatype pp_pc = PBf | PNxt

text \<open>Put back one rune, make some ready.\<close>

definition ready :: "rune list \<Rightarrow> mapreader \<Rightarrow> mapreader" where
  "ready rns m = m\<lparr>bfrnes := bfrnes m @ rns\<rparr>"

definition unread :: "rune \<Rightarrow> mapreader \<Rightarrow> mapreader" where
  "unread r m = m\<lparr>orgrnes := orgrnes m @ [r]\<rparr>"

text \<open>One rune while the first label is looked for.\<close>

definition preRune :: "rune_result \<Rightarrow> mapprepostreader \<Rightarrow> mapreader \<Rightarrow>
    (rune_result \<times> mapprepostreader + pp_pc \<times> mapprepostreader) option" where
  "preRune res p m =
     (let (r, sz, err) = res in
      do {
        br \<leftarrow> (if mprei p > 0 then
                 do { x \<leftarrow> go_index (mpre p) (int (mprei p) - 1); y \<leftarrow> go_index (mpre p) (int (mprei p));
                      Some (x = mpvr p \<and> y \<noteq> r) }
               else Some False);
        if br then
          Some (Inr (PBf, p\<lparr>mprei := 0, mpvr := 0, mapr := Some (unread r (ready (take (mprei p) (mpre p)) m))\<rparr>))
        else do {
          x \<leftarrow> go_index (mpre p) (int (mprei p));
          if x = r then
            (if mprei p + 1 = mprel p then Some (Inr (PNxt, p\<lparr>mprei := mprei p + 1, mapr := Some m\<rparr>))
             else Some (Inr (PNxt, p\<lparr>mprei := mprei p + 1, mpvr := r, mapr := Some m\<rparr>)))
          else if mprei p > 0 then
            Some (Inr (PBf, p\<lparr>mprei := 0, mpvr := 0, mapr := Some (unread r (ready (take (mprei p) (mpre p)) m))\<rparr>))
          else Some (Inl ((r, sz, None), p\<lparr>mpvr := r, mapr := Some m\<rparr>)) } })"

text \<open>The second label is complete: the key is replaced, kept as written or dropped.\<close>

definition keyDone :: "mapprepostreader \<Rightarrow> mapreader \<Rightarrow> pp_pc \<times> mapprepostreader" where
  "keyDone p0 m =
     (let p = p0\<lparr>mposti := 0, mprei := 0, mpvr := 0\<rparr> in
      if 0 < length (tstkeyrns p) then
        (let (ok, m1) = capture (tstkeyrns p) m in
         if ok then (PBf, p\<lparr>tstkeyrns := [], mapr := Some m1\<rparr>)
         else if flshunmtchd p (tstkeyrns p) then
           (PBf, p\<lparr>tstkeyrns := [], mapr := Some (ready (mpre p @ tstkeyrns p @ mpost p) m1)\<rparr>)
         else (PNxt, p\<lparr>tstkeyrns := [], mapr := Some m1\<rparr>))
      else (PNxt, p\<lparr>mapr := Some m\<rparr>))"

text \<open>
  One rune behind the first label.  The code compares \<open>posti\<close> with the length of the first
  label; the rune of a longer second label would be dropped.
\<close>

definition keyRune :: "rune_result \<Rightarrow> mapprepostreader \<Rightarrow> mapreader \<Rightarrow>
    (rune_result \<times> mapprepostreader + pp_pc \<times> mapprepostreader) option" where
  "keyRune res p m =
     (let (r, sz, err) = res in
      if mprei p = mprel p \<and> mposti p < mprel p then
        do {
          x \<leftarrow> go_index (mpost p) (int (mposti p));
          if x = r then
            (let p1 = p\<lparr>mposti := mposti p + 1\<rparr> in
             if mposti p1 = mpostl p1 then Some (Inr (keyDone p1 m)) else Some (Inr (PNxt, p1\<lparr>mapr := Some m\<rparr>)))
          else if \<not> vldchr m 0 r \<or> mposti p > 0 then
            Some (Inr (PBf, p\<lparr>mprei := 0, tstkeyrns := [], mposti := 0,
              mapr := Some (unread r (ready (mpre p @ tstkeyrns p @ take (mposti p) (mpost p)) m))\<rparr>))
          else Some (Inr (PNxt, p\<lparr>tstkeyrns := tstkeyrns p @ [r], mapr := Some m\<rparr>))
        }
      else Some (Inr (PNxt, p\<lparr>mapr := Some m\<rparr>)))"

text \<open>The source has ended: what is pending is delivered as it was written.\<close>

definition flushEnd :: "go_err option \<Rightarrow> mapprepostreader \<Rightarrow> mapreader \<Rightarrow>
    rune_result \<times> mapprepostreader + pp_pc \<times> mapprepostreader" where
  "flushEnd err p m =
     (let m1 = ready ((if mprei p > 0 then take (mprei p) (mpre p) else []) @ tstkeyrns p @
                      (if mposti p > 0 then take (mposti p) (mpost p) else [])) m;
          p1 = p\<lparr>mprei := 0, tstkeyrns := [], mposti := 0, mapr := Some m1\<rparr> in
      if 0 < length (bfrnes m1) then Inr (PBf, p1) else Inl ((0, 0, err), closePrePost p1))"

definition ppStep :: "pp_pc \<times> mapprepostreader \<Rightarrow> (rune_result \<times> mapprepostreader + pp_pc \<times> mapprepostreader) option" where
  "ppStep s =
     (case s of
        (PBf, p) \<Rightarrow>
          (case mapr p of
             None \<Rightarrow> None
           | Some m \<Rightarrow>
               (case readyRune m of
                  (Some ((r, sz, err), m1), _) \<Rightarrow>
                    Some (Inl ((r, sz, err), if sz > 0 \<or> err = None then p\<lparr>mapr := Some m1\<rparr> else closePrePost p))
                | (None, m1) \<Rightarrow> Some (Inr (PNxt, p\<lparr>mapr := Some m1\<rparr>))))
      | (PNxt, p) \<Rightarrow>
          (case mapr p of
             None \<Rightarrow> None
           | Some m \<Rightarrow>
               (let ((r, sz, err), m1) = OrgRune m in
                if sz > 0 then
                  (if mposti p = 0 \<and> mprei p < mprel p then preRune (r, sz, err) p m1 else keyRune (r, sz, err) p m1)
                else if err \<noteq> None \<and> err \<noteq> Some EOF then Some (Inl ((r, sz, err), p\<lparr>mapr := Some m1\<rparr>))
                else Some (flushEnd err p m1))))"

partial_function (option) ppRun :: "pp_pc \<times> mapprepostreader \<Rightarrow> (rune_result \<times> mapprepostreader) option" where
  "ppRun s = do { x \<leftarrow> ppStep s; case x of Inl y \<Rightarrow> Some y | Inr s' \<Rightarrow> ppRun s' }"

definition ppReadRune :: "mapprepostreader \<Rightarrow> (rune_result \<times> mapprepostreader) option" where
  "ppReadRune p = ppRun (PBf, p)"

partial_function (option) ppRunes :: "mapprepostreader \<Rightarrow> rune list \<Rightarrow> rune list option" where
  "ppRunes p rns =
     do { ((r, s, err), p1) \<leftarrow> ppReadRune p;
          if s > 0 then ppRunes p1 (rns @ [r]) else Some rns }"

section \<open>Construction\<close>

text \<open>
  Keys are compared rune by rune up to the length of the shorter one; a list this short is sorted by insertion,
  here on the reversed list.
\<close>

fun keyCmp :: "rune list \<Rightarrow> rune list \<Rightarrow> int" where
  "keyCmp (a # as) (b # bs) = (if a < b then - 1 else if a > b then 1 else keyCmp as bs)"
| "keyCmp as bs = 0"

fun insertKey :: "rune list \<Rightarrow> rune list list \<Rightarrow> rune list list" where
  "insertKey k [] = [k]"
| "insertKey k (x # xs) = (if keyCmp k x < 0 then x # insertKey k xs else k # x # xs)"

definition sortKeys :: "rune list list \<Rightarrow> rune list list" where
  "sortKeys ks = rev (fold insertKey ks [])"

text \<open>
  \<open>MapReplaceReader\<close> with its variadic arguments sorted out: the filter for unmatched keys, the
  capture function, the test for name runes, and the labels.  One label alone panics.
\<close>

definition MapReplaceReader ::
  "item list \<Rightarrow> (rune list \<times> map_val) list \<Rightarrow> (rune list \<Rightarrow> bool) option \<Rightarrow>
   (rune list \<Rightarrow> map_val \<Rightarrow> map_val \<times> bool) option \<Rightarrow> (rune \<Rightarrow> rune \<Rightarrow> bool) option \<Rightarrow> rune list list \<Rightarrow>
   (mapreader + mapprepostreader) option" where
  "MapReplaceReader src m flsh cptr vld labels =
     (let mr = \<lparr>orgreadrne = Some src, orgrnes = [], bfrnes = [], bfrdr = None, mp = m, keys = sortKeys (map fst m),
                vldchr = (case vld of Some f \<Rightarrow> f | None \<Rightarrow> (\<lambda>prvr r. True)),
                cptrkeyval = (case cptr of Some f \<Rightarrow> f | None \<Rightarrow> (\<lambda>k v. (v, True)))\<rparr> in
      case take 2 (filter (\<lambda>l. l \<noteq> []) labels) of
        [] \<Rightarrow> Some (Inl mr)
      | [l] \<Rightarrow> None
      | pre # post # _ \<Rightarrow>
          Some (Inr \<lparr>mapr = Some mr, mpre = pre, mprei = 0, mpvr = 0, mprel = length pre, mpost = post, mposti = 0,
                     mpostl = length post, tstkeyrns = [],
                     flshunmtchd = (case flsh of Some f \<Rightarrow> f | None \<Rightarrow> (\<lambda>s. False))\<rparr>))"

section \<open>Running a reader\<close>

declare mapRun.simps [code] Runes.simps [code] ppRun.simps [code] ppRunes.simps [code]

lemma mapRun_goto: "mapStep s = Some (Inr s') \<Longrightarrow> mapRun s = mapRun s'"
  by (subst mapRun.simps) simp

lemma mapRun_return: "mapStep s = Some (Inl y) \<Longrightarrow> mapRun s = Some y"
  by (subst mapRun.simps) simp

lemma ppRun_goto: "ppStep s = Some (Inr s') \<Longrightarrow> ppRun s = ppRun s'"
  by (subst ppRun.simps) simp

lemma ppRun_return: "ppStep s = Some (Inl y) \<Longrightarrow> ppRun s = Some y"
  by (subst ppRun.simps) simp

lemma RuneLen_pos: "valid_rune r \<Longrightarrow> RuneLen r > 0"
  by (auto simp: RuneLen_def valid_rune_def)

text \<open>The runes a reader has still to look at: those put back and those of a source without errors.\<close>

definition feeds :: "mapreader \<Rightarrow> rune list \<Rightarrow> bool" where
  "feeds m rs \<longleftrightarrow>
     (case orgreadrne m of
        Some xs \<Rightarrow> (\<exists>s. xs = map Rn s \<and> rs = orgrnes m @ s)
      | None \<Rightarrow> rs = orgrnes m)"

lemma OrgRune_feeds:
  assumes "feeds m (r # rs)" "valid_rune r"
  obtains o' s' where "OrgRune m = ((r, RuneLen r, None), m\<lparr>orgrnes := o', orgreadrne := s'\<rparr>)"
    "feeds (m\<lparr>orgrnes := o', orgreadrne := s'\<rparr>) rs" "length o' = length (orgrnes m) - 1"
proof (cases "orgrnes m")
  case Nil
  with assms(1) obtain s where "orgreadrne m = Some (map Rn s)" "s = r # rs"
    by (auto simp: feeds_def split: option.splits)
  with Nil show ?thesis
    using that [of "Some (map Rn rs)" "[]"] RuneLen_pos [OF assms(2)] by (auto simp: OrgRune_def feeds_def)
next
  case (Cons x xs)
  with assms(1) have "x = r" by (auto simp: feeds_def split: option.splits)
  with Cons show ?thesis
    using that [of "orgreadrne m" xs] assms(1) by (auto simp: OrgRune_def feeds_def split: option.splits)
qed

lemma OrgRune_ended:
  assumes "feeds m []"
  shows "OrgRune m = ((0, 0, Some EOF), m\<lparr>orgreadrne := None\<rparr>)" "feeds (m\<lparr>orgreadrne := None\<rparr>) []"
  using assms by (auto simp: OrgRune_def feeds_def split: option.splits)

lemma feeds_unread: "feeds m rs \<Longrightarrow> orgrnes m = [] \<Longrightarrow> feeds (m\<lparr>orgrnes := [r]\<rparr>) (r # rs)"
  by (auto simp: feeds_def split: option.splits)

lemma feeds_fields [simp]:
  "feeds (m\<lparr>bfrnes := b\<rparr>) rs = feeds m rs" "feeds (m\<lparr>bfrdr := d\<rparr>) rs = feeds m rs"
  by (auto simp: feeds_def split: option.splits)

lemma readyRune_simps:
  "bfrdr m = None \<Longrightarrow> bfrnes m = [] \<Longrightarrow> readyRune m = (None, m)"
  "bfrdr m = None \<Longrightarrow> bfrnes m = r # rs \<Longrightarrow> readyRune m = (Some ((r, RuneLen r, None), m\<lparr>bfrnes := rs\<rparr>), m)"
  by (simp_all add: readyRune_def)

section \<open>Escaping\<close>

text \<open>
  The map with which the template engine prepares text for a JavaScript template literal: a back
  quote and the sequence \<open>${\<close> get backslashes.
\<close>

definition esc_map :: "(rune list \<times> map_val) list" where
  "esc_map = [([96], VStr [92, 96]), ([36, 123], VStr [92, 36, 92, 123])]"

text \<open>What the reader makes of a text.  A dollar sign at the very end is lost.\<close>

fun esc :: "rune list \<Rightarrow> rune list" where
  "esc [] = []"
| "esc [c] = (if c = 96 then [92, 96] else if c = 36 then [] else [c])"
| "esc (c # d # cs) =
     (if c = 96 then [92, 96] @ esc (d # cs)
      else if c = 36 \<and> d = 123 then [92, 36, 92, 123] @ esc cs
      else c # esc (d # cs))"

definition esc_reader :: "mapreader \<Rightarrow> bool" where
  "esc_reader m \<longleftrightarrow> mp m = esc_map \<and> keys m = [[36, 123], [96]] \<and> bfrdr m = None \<and>
     cptrkeyval m = (\<lambda>k v. (v, True)) \<and> length (orgrnes m) \<le> 1"

lemma esc_reader_fields [simp]:
  "esc_reader (m\<lparr>bfrnes := b\<rparr>) = esc_reader m" "esc_reader (m\<lparr>orgreadrne := s\<rparr>) = esc_reader m"
  by (simp_all add: esc_reader_def)

text \<open>What one \<open>ReadRune\<close> achieves on such a reader with nothing ready.\<close>

definition esc_read :: "mapreader \<Rightarrow> rune list \<Rightarrow> bool" where
  "esc_read m inp \<longleftrightarrow>
     (if esc inp = [] then
        \<exists>m'. ReadRune m = Some ((0, 0, Some EOF), m') \<and> esc_reader m' \<and> feeds m' [] \<and> bfrnes m' = []
      else \<exists>r m' inp'. ReadRune m = Some ((r, RuneLen r, None), m') \<and> esc_reader m' \<and> feeds m' inp' \<and>
        set inp' \<subseteq> set inp \<and> valid_rune r \<and> (\<forall>x \<in> set (bfrnes m'). valid_rune x) \<and> esc inp = r # bfrnes m' @ esc inp')"

lemma esc_cons: "c \<noteq> 96 \<Longrightarrow> c \<noteq> 36 \<Longrightarrow> esc (c # cs) = c # esc cs" "esc (96 # cs) = [92, 96] @ esc cs"
  by (cases cs; simp)+

lemma run_ready:
  "bfrdr m = None \<Longrightarrow> bfrnes m = r # rs \<Longrightarrow> mapRun (RdBf, m) = Some ((r, RuneLen r, None), m\<lparr>bfrnes := rs\<rparr>)"
  by (rule mapRun_return) (simp add: mapStep_def readyRune_simps)

lemma run_org: "bfrdr m = None \<Longrightarrow> bfrnes m = [] \<Longrightarrow> mapRun (RdBf, m) = mapRun (RdOrg, m)"
  by (rule mapRun_goto) (simp add: mapStep_def readyRune_simps)

lemma esc_capture:
  assumes "esc_reader m" "bfrnes m = []" "(k, VStr v) \<in> set esc_map"
  shows "mapRun (RdNext k [] k, m) = Some ((hd v, RuneLen (hd v), None), m\<lparr>bfrnes := tl v\<rparr>)"
proof -
  have "capture k m = (True, m\<lparr>bfrnes := v\<rparr>)" "k \<noteq> []" "v \<noteq> []"
    using assms by (auto simp: capture_def esc_reader_def esc_map_def tobuf_def)
  then have "mapStep (RdNext k [] k, m) = Some (Inr (RdBf, m\<lparr>bfrnes := v\<rparr>))" by (simp add: mapStep_def)
  from mapRun_goto [OF this] run_ready [of "m\<lparr>bfrnes := v\<rparr>" "hd v" "tl v"] show ?thesis
    using assms(1) \<open>v \<noteq> []\<close> by (simp add: esc_reader_def)
qed

lemma esc_dollar:
  assumes m: "esc_reader m" "orgrnes m = []" "bfrnes m = []" "feeds m cs" and v: "\<forall>r \<in> set cs. valid_rune r"
    and red: "ReadRune m0 = mapRun (RdNext [36] [[36, 123]] [], m)"
  shows "esc_read m0 (36 # cs)"
proof (cases cs)
  case Nil
  have "mapStep (RdNext [36] [[36, 123]] [], m) = Some (Inl ((0, 0, Some EOF), m\<lparr>orgreadrne := None\<rparr>))"
    using OrgRune_ended [of m] m(4) Nil by (simp add: mapStep_def)
  then show ?thesis using Nil m OrgRune_ended(2) [of m] by (simp add: esc_read_def red mapRun_return)
next
  case (Cons d ds)
  obtain o' s' where org: "OrgRune m = ((d, RuneLen d, None), m\<lparr>orgrnes := o', orgreadrne := s'\<rparr>)"
      "feeds (m\<lparr>orgrnes := o', orgreadrne := s'\<rparr>) ds" "length o' = length (orgrnes m) - 1"
    using OrgRune_feeds [of m d ds] m(4) v Cons by auto metis
  define m1 where "m1 = m\<lparr>orgrnes := o', orgreadrne := s'\<rparr>"
  have m1: "esc_reader m1" "orgrnes m1 = []" "bfrnes m1 = []" "feeds m1 ds" "OrgRune m = ((d, RuneLen d, None), m1)"
    using m org by (auto simp: m1_def esc_reader_def)
  have "RuneLen d > 0" using v Cons RuneLen_pos by simp
  then have st: "mapStep (RdNext [36] [[36, 123]] [], m) = Some (Inr (chnxtr [36, d] [[36, 123]] [], m1))"
    using m1(5) by (simp add: mapStep_def)
  show ?thesis
  proof (cases "d = 123")
    case True
    then have "ReadRune m0 = mapRun (RdNext [36, 123] [] [36, 123], m1)"
      using red mapRun_goto [OF st] by (simp add: chnxtr_def)
    also have "\<dots> = Some ((92, RuneLen 92, None), m1\<lparr>bfrnes := [36, 92, 123]\<rparr>)"
      using esc_capture [of m1 "[36, 123]" "[92, 36, 92, 123]"] m1 by (simp add: esc_map_def)
    finally show ?thesis using True Cons m1 by (auto simp: esc_read_def valid_rune_def)
  next
    case False
    let ?m2 = "m1\<lparr>bfrnes := [36], orgrnes := [d]\<rparr>"
    have "mapStep (RdNext [36, d] [] [], m1) = Some (Inr (RdBf, ?m2))" using m1 by (simp add: mapStep_def)
    then have "ReadRune m0 = Some ((36, RuneLen 36, None), ?m2\<lparr>bfrnes := []\<rparr>)"
      using red mapRun_goto [OF st] False run_ready [of ?m2 36 "[]"] m1(1)
      by (simp add: chnxtr_def mapRun_goto esc_reader_def)
    moreover have "feeds (?m2\<lparr>bfrnes := []\<rparr>) (d # ds)"
      using feeds_unread [OF m1(4,2), of d] by (auto simp: feeds_def split: option.splits)
    moreover have "esc_reader (?m2\<lparr>bfrnes := []\<rparr>)" using m1(1) by (simp add: esc_reader_def)
    ultimately show ?thesis using False Cons by (auto simp: esc_read_def valid_rune_def)
  qed
qed

lemma esc_read_step:
  assumes m: "esc_reader m" "bfrnes m = []" "feeds m inp" and v: "\<forall>r \<in> set inp. valid_rune r"
  shows "esc_read m inp"
proof (cases inp)
  case Nil
  have "mapStep (RdOrg, m) = Some (Inl ((0, 0, Some EOF), m\<lparr>orgreadrne := None\<rparr>))"
    using OrgRune_ended [of m] m(3) Nil by (simp add: mapStep_def)
  then show ?thesis
    using Nil m OrgRune_ended(2) [of m] by (simp add: esc_read_def ReadRune_def run_org esc_reader_def mapRun_return)
next
  case (Cons c cs)
  have vc: "valid_rune c" "RuneLen c > 0" using v Cons RuneLen_pos by auto
  obtain o' s' where org: "OrgRune m = ((c, RuneLen c, None), m\<lparr>orgrnes := o', orgreadrne := s'\<rparr>)"
      "feeds (m\<lparr>orgrnes := o', orgreadrne := s'\<rparr>) cs" "length o' = length (orgrnes m) - 1"
    using OrgRune_feeds [of m c cs] m(3) vc Cons by metis
  define m1 where "m1 = m\<lparr>orgrnes := o', orgreadrne := s'\<rparr>"
  have m1: "esc_reader m1" "orgrnes m1 = []" "bfrnes m1 = []" "feeds m1 cs" "keys m1 = [[36, 123], [96]]"
    using m org by (auto simp: m1_def esc_reader_def)
  have rd: "ReadRune m = mapRun (RdOrg, m)" using m by (simp add: ReadRune_def run_org esc_reader_def)
  have st: "mapStep (RdOrg, m) = (let mtch = filter (\<lambda>k. hd k = c) [[36, 123], [96]] in
      if mtch = [] then Some (Inl ((c, RuneLen c, None), m1)) else Some (Inr (chnxtr [c] mtch [], m1)))"
    using org(1) vc m1(5) by (simp add: mapStep_def m1_def)
  consider (plain) "c \<noteq> 96" "c \<noteq> 36" | (quote) "c = 96" | (dollar) "c = 36" by blast
  then show ?thesis
  proof cases
    case plain
    with st have "ReadRune m = Some ((c, RuneLen c, None), m1)" by (simp add: rd mapRun_return)
    with plain m1 Cons vc show ?thesis by (auto simp: esc_read_def esc_cons)
  next
    case quote
    with st have "ReadRune m = mapRun (RdNext [96] [] [96], m1)" by (simp add: rd mapRun_goto chnxtr_def)
    also have "\<dots> = Some ((92, RuneLen 92, None), m1\<lparr>bfrnes := [96]\<rparr>)"
      using esc_capture [of m1 "[96]" "[92, 96]"] m1 by (simp add: esc_map_def)
    finally show ?thesis using quote Cons m1 by (auto simp: esc_read_def esc_cons valid_rune_def)
  next
    case dollar
    with st have "ReadRune m = mapRun (RdNext [36] [[36, 123]] [], m1)" by (simp add: rd mapRun_goto chnxtr_def)
    with esc_dollar [OF m1(1-4)] v Cons dollar show ?thesis by simp
  qed
qed

lemma Runes_esc:
  assumes "esc_reader m" "feeds m inp" "\<forall>r \<in> set (bfrnes m @ inp). valid_rune r"
  shows "Runes m acc = Some (acc @ bfrnes m @ esc inp)"
  using assms
proof (induction "length (bfrnes m @ esc inp)" arbitrary: m inp acc)
  case 0
  then have "esc_read m inp" "esc inp = []" "bfrnes m = []" using esc_read_step by auto
  then show ?case by (subst Runes.simps) (auto simp: esc_read_def)
next
  case (Suc n)
  show ?case
  proof (cases "bfrnes m")
    case (Cons r b)
    then have "ReadRune m = Some ((r, RuneLen r, None), m\<lparr>bfrnes := b\<rparr>)"
      using Suc.prems(1) run_ready by (simp add: ReadRune_def esc_reader_def)
    then show ?thesis
      using Suc.hyps(1) [of "m\<lparr>bfrnes := b\<rparr>" inp "acc @ [r]"] Suc.hyps(2) Suc.prems Cons RuneLen_pos [of r]
      by (subst Runes.simps) simp
  next
    case Nil
    with Suc have "esc_read m inp" "esc inp \<noteq> []" using esc_read_step by auto
    then obtain r m' inp' where r: "ReadRune m = Some ((r, RuneLen r, None), m')" "esc_reader m'" "feeds m' inp'"
        "set inp' \<subseteq> set inp" "valid_rune r" "\<forall>x \<in> set (bfrnes m'). valid_rune x" "esc inp = r # bfrnes m' @ esc inp'"
      by (auto simp: esc_read_def)
    moreover have "n = length (bfrnes m' @ esc inp')" using Suc.hyps(2) Nil r(7) by simp
    ultimately have "Runes m' (acc @ [r]) = Some ((acc @ [r]) @ bfrnes m' @ esc inp')"
      using Suc.prems by (intro Suc.hyps(1)) auto
    then show ?thesis using r Nil RuneLen_pos [of r] by (subst Runes.simps) simp
  qed
qed

section \<open>Substitution between labels\<close>

text \<open>Reading on from any point of the program.\<close>

definition ppFrom :: "pp_pc \<times> mapprepostreader \<Rightarrow> rune list \<Rightarrow> rune list option" where
  "ppFrom s rns = do { ((r, sz, err), p1) \<leftarrow> ppRun s; if sz > 0 then ppRunes p1 (rns @ [r]) else Some rns }"

lemma ppRunes_from: "ppRunes p rns = ppFrom (PBf, p) rns"
  by (subst ppRunes.simps) (simp add: ppFrom_def ppReadRune_def)

lemma ppFrom_goto: "ppStep s = Some (Inr s') \<Longrightarrow> ppFrom s rns = ppFrom s' rns"
  by (simp add: ppFrom_def ppRun_goto)

lemma ppFrom_rune: "ppStep s = Some (Inl ((r, sz, err), p)) \<Longrightarrow> sz > 0 \<Longrightarrow> ppFrom s rns = ppFrom (PBf, p) (rns @ [r])"
  by (simp add: ppFrom_def ppRun_return ppRunes_from)

lemma ppFrom_end: "ppStep s = Some (Inl ((r, sz, err), p)) \<Longrightarrow> \<not> sz > 0 \<Longrightarrow> ppFrom s rns = Some rns"
  by (simp add: ppFrom_def ppRun_return)

text \<open>Reader states: what is left of the source, what is ready, and how far the labels have been matched.\<close>

definition msrc :: "mapreader \<Rightarrow> rune list \<Rightarrow> rune list \<Rightarrow> item list option \<Rightarrow> mapreader" where
  "msrc m0 inp b d = m0\<lparr>orgreadrne := Some (map Rn inp), orgrnes := [], bfrnes := b, bfrdr := d\<rparr>"

definition ppst :: "rune list \<Rightarrow> rune list \<Rightarrow> (rune list \<Rightarrow> bool) \<Rightarrow> nat \<Rightarrow> rune \<Rightarrow> nat \<Rightarrow> rune list \<Rightarrow> mapreader \<Rightarrow> mapprepostreader" where
  "ppst pre post fl i v j t m = \<lparr>mapr = Some m, mpre = pre, mprei = i, mpvr = v, mprel = length pre, mpost = post,
     mposti = j, mpostl = length post, tstkeyrns = t, flshunmtchd = fl\<rparr>"

lemma OrgRune_msrc: "valid_rune r \<Longrightarrow> OrgRune (msrc m0 (r # inp) b d) = ((r, RuneLen r, None), msrc m0 inp b d)"
  by (simp add: OrgRune_def msrc_def RuneLen_pos)

lemma ready_rune:
  "valid_rune r \<Longrightarrow> ppFrom (PBf, ppst pre post fl i v j t (msrc m0 inp (r # b) None)) rns =
    ppFrom (PBf, ppst pre post fl i v j t (msrc m0 inp b None)) (rns @ [r])"
  by (rule ppFrom_rune [where sz = "RuneLen r" and err = None]) (auto simp: ppStep_def ppst_def msrc_def readyRune_simps RuneLen_pos)

lemma ready_reader:
  "valid_rune r \<Longrightarrow> ppFrom (PBf, ppst pre post fl i v j t (msrc m0 inp b (Some (map Rn (r # d))))) rns =
    ppFrom (PBf, ppst pre post fl i v j t (msrc m0 inp b (Some (map Rn d)))) (rns @ [r])"
  by (rule ppFrom_rune [where sz = "RuneLen r" and err = None]) (auto simp: ppStep_def ppst_def msrc_def readyRune_def RuneLen_pos Let_def)

lemma ready_none:
  "ppFrom (PBf, ppst pre post fl i v j t (msrc m0 inp [] None)) rns =
   ppFrom (PNxt, ppst pre post fl i v j t (msrc m0 inp [] None)) rns"
  by (rule ppFrom_goto) (simp add: ppStep_def ppst_def msrc_def readyRune_simps)

lemma reader_ended:
  "ppFrom (PBf, ppst pre post fl i v j t (msrc m0 inp [] (Some []))) rns =
   ppFrom (PNxt, ppst pre post fl i v j t (msrc m0 inp [] None)) rns"
  by (rule ppFrom_goto) (simp add: ppStep_def ppst_def msrc_def readyRune_def Let_def)

text \<open>Everything ready is delivered first.\<close>

lemma drain:
  "\<forall>r \<in> set b. valid_rune r \<Longrightarrow> ppFrom (PBf, ppst pre post fl i v j t (msrc m0 inp b None)) rns =
   ppFrom (PNxt, ppst pre post fl i v j t (msrc m0 inp [] None)) (rns @ b)"
  by (induction b arbitrary: rns) (simp_all add: ready_none ready_rune)

lemma drain_reader:
  "\<forall>r \<in> set d. valid_rune r \<Longrightarrow> ppFrom (PBf, ppst pre post fl i v j t (msrc m0 inp [] (Some (map Rn d)))) rns =
   ppFrom (PNxt, ppst pre post fl i v j t (msrc m0 inp [] None)) (rns @ d)"
proof (induction d arbitrary: rns)
  case Nil
  then show ?case by (simp add: reader_ended)
next
  case (Cons r d)
  then show ?case using ready_reader [of r pre post fl i v j t m0 inp "[]" d rns] by simp
qed

lemma plain_runes:
  assumes "\<forall>r \<in> set a. valid_rune r \<and> r \<noteq> hd pre" "pre \<noteq> []"
  shows "\<exists>v'. ppFrom (PNxt, ppst pre post fl 0 v 0 t (msrc m0 (a @ inp) [] None)) rns =
    ppFrom (PNxt, ppst pre post fl 0 v' 0 t (msrc m0 inp [] None)) (rns @ a)"
  using assms
proof (induction a arbitrary: rns v)
  case (Cons r a)
  have "go_index pre 0 = Some (hd pre)" using assms(2) by (simp add: go_index_def hd_conv_nth)
  then have "ppStep (PNxt, ppst pre post fl 0 v 0 t (msrc m0 ((r # a) @ inp) [] None)) =
      Some (Inl ((r, RuneLen r, None), ppst pre post fl 0 r 0 t (msrc m0 (a @ inp) [] None)))"
    using Cons.prems OrgRune_msrc [of r m0 "a @ inp" "[]" None] RuneLen_pos [of r] assms(2)
    by (simp add: ppStep_def ppst_def preRune_def)
  then show ?case
    using Cons.IH [of r "rns @ [r]"] Cons.prems RuneLen_pos [of r] by (simp add: ppFrom_rune ready_none)
qed auto

lemma pre_label:
  assumes "i < length pre" "\<forall>r \<in> set pre. valid_rune r"
  shows "\<exists>v'. ppFrom (PNxt, ppst pre post fl i v 0 t (msrc m0 (drop i pre @ inp) [] None)) rns =
    ppFrom (PNxt, ppst pre post fl (length pre) v' 0 t (msrc m0 inp [] None)) rns"
  using assms
proof (induction "length pre - i" arbitrary: i v)
  case (Suc n)
  let ?r = "pre ! i"
  have d: "drop i pre = ?r # drop (Suc i) pre" using Suc.prems by (simp add: Cons_nth_drop_Suc)
  have v: "valid_rune ?r" using Suc.prems by simp
  have idx: "go_index pre (int i) = Some ?r" "i > 0 \<Longrightarrow> go_index pre (int i - 1) = Some (pre ! (i - 1))"
    using Suc.prems by (auto simp: go_index_def nat_diff_distrib)
  let ?v = "if Suc i = length pre then v else ?r"
  have "ppStep (PNxt, ppst pre post fl i v 0 t (msrc m0 (drop i pre @ inp) [] None)) =
      Some (Inr (PNxt, ppst pre post fl (Suc i) ?v 0 t (msrc m0 (drop (Suc i) pre @ inp) [] None)))"
    unfolding d using Suc.prems OrgRune_msrc [OF v, of m0 "drop (Suc i) pre @ inp" "[]" None] RuneLen_pos [OF v] idx
    by (auto simp: ppStep_def ppst_def preRune_def)
  note g = ppFrom_goto [OF this]
  show ?case
  proof (cases "Suc i = length pre")
    case True
    then show ?thesis using g by auto
  next
    case False
    then show ?thesis using g Suc.hyps(1) [of "Suc i"] Suc.hyps(2) Suc.prems by simp
  qed
qed simp

lemma key_runes:
  assumes "\<forall>r \<in> set k. valid_rune r \<and> r \<noteq> hd post \<and> vldchr m0 0 r" "post \<noteq> []" "pre \<noteq> []"
  shows "ppFrom (PNxt, ppst pre post fl (length pre) v 0 t (msrc m0 (k @ inp) [] None)) rns =
    ppFrom (PNxt, ppst pre post fl (length pre) v 0 (t @ k) (msrc m0 inp [] None)) rns"
  using assms
proof (induction k arbitrary: t)
  case (Cons r k)
  have "go_index post 0 = Some (hd post)" using assms(2) by (simp add: go_index_def hd_conv_nth)
  then have "ppStep (PNxt, ppst pre post fl (length pre) v 0 t (msrc m0 ((r # k) @ inp) [] None)) =
      Some (Inr (PNxt, ppst pre post fl (length pre) v 0 (t @ [r]) (msrc m0 (k @ inp) [] None)))"
    using Cons.prems OrgRune_msrc [of r m0 "k @ inp" "[]" None] RuneLen_pos [of r]
    by (auto simp: ppStep_def ppst_def keyRune_def) (simp_all add: msrc_def)
  then show ?case using Cons.IH [of "t @ [r]"] Cons.prems by (simp add: ppFrom_goto)
qed simp

lemma post_label:
  assumes "j < length post" "length post \<le> length pre" "\<forall>r \<in> set post. valid_rune r"
  shows "ppFrom (PNxt, ppst pre post fl (length pre) v j t (msrc m0 (drop j post @ inp) [] None)) rns =
    ppFrom (keyDone (ppst pre post fl (length pre) v (length post) t (msrc m0 inp [] None)) (msrc m0 inp [] None)) rns"
  using assms
proof (induction "length post - j" arbitrary: j)
  case (Suc n)
  let ?r = "post ! j"
  have d: "drop j post = ?r # drop (Suc j) post" using Suc.prems by (simp add: Cons_nth_drop_Suc)
  have v: "valid_rune ?r" using Suc.prems by simp
  have idx: "go_index post (int j) = Some ?r" using Suc.prems by (simp add: go_index_def)
  have "ppStep (PNxt, ppst pre post fl (length pre) v j t (msrc m0 (drop j post @ inp) [] None)) =
      Some (Inr (if Suc j = length post
        then keyDone (ppst pre post fl (length pre) v (length post) t (msrc m0 inp [] None)) (msrc m0 inp [] None)
        else (PNxt, ppst pre post fl (length pre) v (Suc j) t (msrc m0 (drop (Suc j) post @ inp) [] None))))"
    unfolding d using Suc.prems OrgRune_msrc [OF v, of m0 "drop (Suc j) post @ inp" "[]" None] RuneLen_pos [OF v] idx
    by (auto simp: ppStep_def ppst_def keyRune_def keyDone_def Let_def split: prod.splits)
  note g = ppFrom_goto [OF this]
  show ?case
  proof (cases "Suc j = length post")
    case True
    then show ?thesis using g by simp
  next
    case False
    then show ?thesis using g Suc.hyps(1) [of "Suc j"] Suc.hyps(2) Suc.prems by simp
  qed
qed simp

text \<open>The text a value contributes, and what becomes of a key.\<close>

definition value_of :: "(rune list \<times> map_val) list \<Rightarrow> rune list \<Rightarrow> rune list option" where
  "value_of m k =
     (case map_of m k of
        Some (VStr s) \<Rightarrow> if s \<noteq> [] then Some s else None
      | Some (VRunes s) \<Rightarrow> if s \<noteq> [] then Some s else None
      | Some (VBuf s) \<Rightarrow> if s \<noteq> [] then Some s else None
      | _ \<Rightarrow> None)"

definition subst_key :: "(rune list \<times> map_val) list \<Rightarrow> (rune list \<Rightarrow> bool) \<Rightarrow> rune list \<Rightarrow> rune list \<Rightarrow> rune list \<Rightarrow> rune list" where
  "subst_key m fl pre post k =
     (if k = [] then []
      else (case value_of m k of Some s \<Rightarrow> s | None \<Rightarrow> if fl k then pre @ k @ post else []))"

definition val_ok :: "map_val \<Rightarrow> bool" where
  "val_ok v = (case v of VStr s \<Rightarrow> \<forall>r \<in> set s. valid_rune r | VRunes s \<Rightarrow> \<forall>r \<in> set s. valid_rune r
     | VBuf s \<Rightarrow> \<forall>r \<in> set s. valid_rune r | VRdr xs \<Rightarrow> False | VOther \<Rightarrow> True)"

lemma capture_value:
  assumes "cptrkeyval m0 = (\<lambda>k v. (v, True))" "\<forall>(k, v) \<in> set (mp m0). val_ok v"
  shows "case value_of (mp m0) k of
      None \<Rightarrow> capture k (msrc m0 inp [] None) = (False, msrc m0 inp [] None)
    | Some s \<Rightarrow> (\<forall>r \<in> set s. valid_rune r) \<and>
        (capture k (msrc m0 inp [] None) = (True, msrc m0 inp s None) \<or>
         capture k (msrc m0 inp [] None) = (True, msrc m0 inp [] (Some (map Rn s))))"
proof (cases "map_of (mp m0) k")
  case None
  then show ?thesis by (auto simp: value_of_def capture_def msrc_def)
next
  case (Some v)
  then have ok: "val_ok v" "mp m0 \<noteq> []" using assms(2) by (auto dest: map_of_SomeD)
  show ?thesis
    using Some assms(1) ok by (cases v) (auto simp: value_of_def capture_def msrc_def tobuf_def val_ok_def Let_def)
qed

lemma key_done:
  assumes m0: "cptrkeyval m0 = (\<lambda>k v. (v, True))" "\<forall>(k, v) \<in> set (mp m0). val_ok v"
    and v: "\<forall>r \<in> set (pre @ k @ post). valid_rune r"
  shows "\<exists>v'. ppFrom (keyDone (ppst pre post fl i v j k (msrc m0 inp [] None)) (msrc m0 inp [] None)) rns =
    ppFrom (PNxt, ppst pre post fl 0 v' 0 [] (msrc m0 inp [] None)) (rns @ subst_key (mp m0) fl pre post k)"
proof (cases "k = []")
  case True
  then show ?thesis by (auto simp: keyDone_def ppst_def subst_key_def)
next
  case False
  note cv = capture_value [OF m0, of k inp]
  show ?thesis
  proof (cases "value_of (mp m0) k")
    case None
    then have c: "capture k (msrc m0 inp [] None) = (False, msrc m0 inp [] None)" using cv by simp
    show ?thesis
    proof (cases "fl k")
      case True
      have r: "ready xs (msrc m0 inp [] None) = msrc m0 inp xs None" for xs by (simp add: ready_def msrc_def)
      have "keyDone (ppst pre post fl i v j k (msrc m0 inp [] None)) (msrc m0 inp [] None) =
          (PBf, ppst pre post fl 0 0 0 [] (msrc m0 inp (pre @ k @ post) None))"
        using False True c by (simp add: keyDone_def ppst_def r)
      then show ?thesis
        using drain [OF v, of pre post fl 0 0 0 "[]" m0 inp rns] None False True by (auto simp: subst_key_def)
    next
      case False
      then show ?thesis using \<open>k \<noteq> []\<close> None c by (auto simp: keyDone_def ppst_def subst_key_def)
    qed
  next
    case (Some s)
    with cv obtain m1 where c: "capture k (msrc m0 inp [] None) = (True, m1)" "\<forall>r \<in> set s. valid_rune r"
        "m1 = msrc m0 inp s None \<or> m1 = msrc m0 inp [] (Some (map Rn s))" by auto
    then have "keyDone (ppst pre post fl i v j k (msrc m0 inp [] None)) (msrc m0 inp [] None) =
        (PBf, ppst pre post fl 0 0 0 [] m1)"
      using False by (simp add: keyDone_def ppst_def)
    then show ?thesis
      using drain [OF c(2), of pre post fl 0 0 0 "[]" m0 inp rns] drain_reader [OF c(2), of pre post fl 0 0 0 "[]" m0 inp rns]
        c(3) Some False by (auto simp: subst_key_def)
  qed
qed

lemma source_end:
  "ppFrom (PNxt, ppst pre post fl 0 v 0 [] (msrc m0 [] [] None)) rns = Some rns"
  by (rule ppFrom_end [where sz = 0]) (auto simp: ppStep_def ppst_def msrc_def OrgRune_def flushEnd_def ready_def)

text \<open>A text in which keys are written between the labels.\<close>

type_synonym keyed = "(rune list \<times> rune list) list"

definition keyed_text :: "rune list \<Rightarrow> rune list \<Rightarrow> keyed \<Rightarrow> rune list \<Rightarrow> rune list" where
  "keyed_text pre post segs rest = concat (map (\<lambda>(a, k). a @ pre @ k @ post) segs) @ rest"

definition keyed_ok :: "rune list \<Rightarrow> rune list \<Rightarrow> (rune \<Rightarrow> rune \<Rightarrow> bool) \<Rightarrow> keyed \<Rightarrow> rune list \<Rightarrow> bool" where
  "keyed_ok pre post vld segs rest \<longleftrightarrow> pre \<noteq> [] \<and> post \<noteq> [] \<and> length post \<le> length pre \<and>
     (\<forall>r \<in> set (keyed_text pre post segs rest @ pre @ post). valid_rune r) \<and> hd pre \<notin> set rest \<and>
     (\<forall>(a, k) \<in> set segs. hd pre \<notin> set a \<and> hd post \<notin> set k \<and> (\<forall>r \<in> set k. vld 0 r))"

lemma keyed_runes:
  assumes "keyed_ok pre post (vldchr m0) segs rest" "cptrkeyval m0 = (\<lambda>k v. (v, True))" "\<forall>(k, v) \<in> set (mp m0). val_ok v"
  shows "ppFrom (PNxt, ppst pre post fl 0 v 0 [] (msrc m0 (keyed_text pre post segs rest) [] None)) rns =
    Some (rns @ concat (map (\<lambda>(a, k). a @ subst_key (mp m0) fl pre post k) segs) @ rest)"
  using assms
proof (induction segs arbitrary: rns v)
  case Nil
  then have "\<forall>r \<in> set rest. valid_rune r \<and> r \<noteq> hd pre" "pre \<noteq> []" by (auto simp: keyed_ok_def keyed_text_def)
  from plain_runes [OF this, of post fl v "[]" m0 "[]" rns] show ?case by (auto simp: keyed_text_def source_end)
next
  case (Cons ak segs)
  obtain a k where ak: "ak = (a, k)" by force
  let ?t = "keyed_text pre post segs rest"
  have t: "keyed_text pre post (ak # segs) rest = a @ pre @ k @ post @ ?t" by (simp add: keyed_text_def ak)
  have ok: "keyed_ok pre post (vldchr m0) segs rest" "pre \<noteq> []" "post \<noteq> []" "length post \<le> length pre"
      "\<forall>r \<in> set (pre @ k @ post). valid_rune r" "\<forall>r \<in> set a. valid_rune r \<and> r \<noteq> hd pre"
      "\<forall>r \<in> set k. valid_rune r \<and> r \<noteq> hd post \<and> vldchr m0 0 r"
    using Cons.prems(1) by (auto simp: keyed_ok_def ak t [unfolded ak])
  obtain v1 where 1: "ppFrom (PNxt, ppst pre post fl 0 v 0 [] (msrc m0 (a @ pre @ k @ post @ ?t) [] None)) rns =
      ppFrom (PNxt, ppst pre post fl 0 v1 0 [] (msrc m0 (pre @ k @ post @ ?t) [] None)) (rns @ a)"
    using plain_runes [OF ok(6,2)] by blast
  obtain v2 where 2: "ppFrom (PNxt, ppst pre post fl 0 v1 0 [] (msrc m0 (pre @ k @ post @ ?t) [] None)) (rns @ a) =
      ppFrom (PNxt, ppst pre post fl (length pre) v2 0 [] (msrc m0 (k @ post @ ?t) [] None)) (rns @ a)"
    using pre_label [of 0 pre post fl v1 "[]" m0 "k @ post @ ?t" "rns @ a"] ok(2,5) by auto
  have 3: "\<dots> = ppFrom (keyDone (ppst pre post fl (length pre) v2 (length post) k (msrc m0 ?t [] None)) (msrc m0 ?t [] None)) (rns @ a)"
    using key_runes [OF ok(7,3,2), of fl v2 "[]" "post @ ?t" "rns @ a"]
      post_label [of 0 post pre fl v2 k m0 ?t "rns @ a"] ok(3,4,5) by simp
  obtain v3 where 4: "\<dots> = ppFrom (PNxt, ppst pre post fl 0 v3 0 [] (msrc m0 ?t [] None)) ((rns @ a) @ subst_key (mp m0) fl pre post k)"
    using key_done [OF Cons.prems(2,3) ok(5)] by blast
  show ?case unfolding t 1 2 3 4 using Cons.IH [OF ok(1) Cons.prems(2,3)] by (simp add: ak)
qed

section \<open>Properties\<close>

text \<open>
  Claim C39: \<open>MapReplaceReader\<close> with two labels substitutes.  The text consists of passive parts, keys between the labels, and a tail.  The labels
  are not empty and the second is not longer than the first (the runes of a longer one get lost); the first rune of the first label does not
  occur in the passive parts and the tail, the first rune of the second not in the keys, and the runes of the keys pass the test for valid
  runes.  Then reading to the end terminates and yields the text with every label-key-label replaced by the value of the key; a key
  without a (non-empty) value is dropped, or kept as written when the filter for unmatched keys says so.
\<close>

theorem MapReplaceReader_substitutes:
  assumes "keyed_ok pre post vld segs rest" "\<forall>(k, v) \<in> set m. val_ok v"
  shows "\<exists>p. MapReplaceReader (map Rn (keyed_text pre post segs rest)) m (Some fl) None (Some vld) [pre, post] = Some (Inr p) \<and>
    ppRunes p [] = Some (concat (map (\<lambda>(a, k). a @ subst_key m fl pre post k) segs) @ rest)"
proof -
  define m0 where "m0 = \<lparr>orgreadrne = None, orgrnes = [], bfrnes = [], bfrdr = None, mp = m, keys = sortKeys (map fst m),
      vldchr = vld, cptrkeyval = (\<lambda>k v. (v, True))\<rparr>"
  let ?p = "ppst pre post fl 0 0 0 [] (msrc m0 (keyed_text pre post segs rest) [] None)"
  have "pre \<noteq> []" "post \<noteq> []" using assms(1) by (auto simp: keyed_ok_def)
  then have "MapReplaceReader (map Rn (keyed_text pre post segs rest)) m (Some fl) None (Some vld) [pre, post] = Some (Inr ?p)"
    by (simp add: MapReplaceReader_def ppst_def msrc_def m0_def)
  moreover have "ppRunes ?p [] = Some (concat (map (\<lambda>(a, k). a @ subst_key m fl pre post k) segs) @ rest)"
    using keyed_runes [of pre post m0 segs rest fl 0 "[]"] assms by (simp add: ppRunes_from ready_none m0_def)
  ultimately show ?thesis by blast
qed

theorem MapReplaceReader_substitutes_witness:
  "\<exists>p. MapReplaceReader (map Rn [97, 91, 35, 120, 35, 93, 98]) [([120], VStr [49, 50])] (Some (\<lambda>s. False)) None
      (Some (\<lambda>p r. True)) [[91, 35], [35, 93]] = Some (Inr p) \<and> ppRunes p [] = Some [97, 49, 50, 98]"
  using MapReplaceReader_substitutes [of "[91, 35]" "[35, 93]" "\<lambda>p r. True" "[([97], [120])]" "[98]"
      "[([120], VStr [49, 50])]" "\<lambda>s. False"]
  by (simp add: keyed_ok_def keyed_text_def valid_rune_def val_ok_def subst_key_def value_of_def)

text \<open>
  The escaping that protects text inside a JavaScript template literal.  Reading any text through
  the escape map terminates and yields the text with a backslash before every back quote and
  before both runes of \<open>${\<close>; everything else is unchanged, except that a dollar sign at the
  very end is lost.
\<close>

lemma MapReplaceReader_escapes:
  assumes "\<forall>r \<in> set s. valid_rune r"
  shows "\<exists>m. MapReplaceReader (map Rn s) esc_map None None None [] = Some (Inl m) \<and> Runes m [] = Some (esc s)"
proof -
  define m where "m = \<lparr>orgreadrne = Some (map Rn s), orgrnes = [], bfrnes = [], bfrdr = None, mp = esc_map,
    keys = [[36, 123], [96]], vldchr = (\<lambda>prvr r. True), cptrkeyval = (\<lambda>k v. (v, True))\<rparr>"
  have "sortKeys (map fst esc_map) = [[36, 123], [96]]" by (simp add: sortKeys_def esc_map_def)
  then have "MapReplaceReader (map Rn s) esc_map None None None [] = Some (Inl m)"
    by (simp add: MapReplaceReader_def m_def)
  moreover have "Runes m [] = Some (esc s)"
    using Runes_esc [of m s "[]"] assms by (simp add: m_def esc_reader_def feeds_def)
  ultimately show ?thesis by blast
qed

text \<open>Two defects of the reader without labels, on concrete inputs.\<close>

lemma empty_value_panics:
  "map_option fst (ReadRune \<lparr>orgreadrne = Some [Rn 97], orgrnes = [], bfrnes = [], bfrdr = None, mp = [([97], VStr [])],
     keys = [[97]], vldchr = (\<lambda>p r. True), cptrkeyval = (\<lambda>k v. (v, True))\<rparr>) = None"
  by code_simp

lemma pushback_reorders:
  "Runes \<lparr>orgreadrne = Some (map Rn [97, 98, 99, 88]), orgrnes = [], bfrnes = [], bfrdr = None,
     mp = [([97, 98, 99, 100], VStr [49]), ([98, 88], VStr [50])], keys = [[97, 98, 99, 100], [98, 88]],
     vldchr = (\<lambda>p r. True), cptrkeyval = (\<lambda>k v. (v, True))\<rparr> [] = Some [97, 98, 88, 99]"
  by code_simp

end
