(* ===== verification/RuneIO.thy ===== *)
theory RuneIO
  imports BufferText MapReader
begin

text \<open>
  The functions of \<open>src/ioext/adhoc.go\<close> and \<open>src/ioext/buffer.go\<close> that consume an \<open>io.RuneReader\<close>:
  \<open>ReadRunes\<close>, \<open>ReadRunesEOFFunc\<close>, \<open>ReaderToString\<close>, \<open>ReadLine\<close>, \<open>ReadLines\<close>, \<open>ReadRunesFrom\<close> and
  \<open>Fprint\<close>.  They are proved once against the contract of a well-behaved rune reader (locale
  \<open>rune_source\<close>), which a string reader and the escaping map reader satisfy.

  A reader need not end, so every loop is a partial function and \<open>None\<close> also stands for not
  returning; the lemmas show that the loops return on every reader that keeps the contract.
\<close>

section \<open>Consumers\<close>

text \<open>\<open>ReadRunes\<close> fills a slice of length \<open>pl\<close>; \<open>acc\<close> holds the runes stored so far.\<close>

partial_function (option) readRunesLoop ::
  "'i rune_reader \<Rightarrow> nat \<Rightarrow> 'i \<Rightarrow> rune list \<Rightarrow> (rune list \<times> go_err option \<times> 'i) option" where
  "readRunesLoop rd pl i acc =
     (if length acc < pl then
        do {
          ((r, ps, perr), i1) \<leftarrow> rd i;
          let acc1 = (if ps > 0 then acc @ [r] else acc);
          if perr \<noteq> None \<or> ps = 0 then Some (acc1, if perr = None then Some EOF else perr, i1)
          else readRunesLoop rd pl i1 acc1
        }
      else Some (acc, None, i))"

declare readRunesLoop.simps [code]

definition ReadRunes :: "'i rune_reader \<Rightarrow> nat \<Rightarrow> 'i \<Rightarrow> (rune list \<times> go_err option \<times> 'i) option" where
  "ReadRunes rd pl i =
     (if 0 < pl then
        do { (p, err, i1) \<leftarrow> readRunesLoop rd pl i [];
             Some (p, if 0 < length p \<and> err = Some EOF then None else err, i1) }
      else Some ([], None, i))"

text \<open>\<open>ReadRunesEOFFunc\<close> hands every rune to a callback on a state of its own.\<close>

partial_function (option) ReadRunesEOFFunc ::
  "'i rune_reader \<Rightarrow> (rune \<Rightarrow> 's \<Rightarrow> go_err option \<times> 's) \<Rightarrow> 'i \<Rightarrow> 's \<Rightarrow> (go_err option \<times> 'i \<times> 's) option" where
  "ReadRunesEOFFunc rd f i s =
     do {
       ((r, sz, rerr), i1) \<leftarrow> rd i;
       let (err, s1) = (if sz > 0 then f r s else (None, s));
       if err \<noteq> None then Some (err, i1, s1)
       else if rerr \<noteq> None then Some (if rerr \<noteq> Some EOF then rerr else None, i1, s1)
       else ReadRunesEOFFunc rd f i1 s1
     }"

declare ReadRunesEOFFunc.simps [code]

text \<open>Runes are collected in a block of 1024 and moved to the string when the block is full.\<close>

definition collect :: "rune \<Rightarrow> rune list \<times> rune list \<Rightarrow> rune list \<times> rune list" where
  "collect r st = (let (s, blk) = st; blk1 = blk @ [r] in if length blk1 = 1024 then (s @ blk1, []) else (s, blk1))"

definition ReaderToString :: "'i rune_reader \<Rightarrow> 'i \<Rightarrow> (rune list \<times> go_err option \<times> 'i) option" where
  "ReaderToString rd i =
     do {
       (err, i1, s, blk) \<leftarrow> ReadRunesEOFFunc rd (\<lambda>r st. (None, collect r st)) i ([], []);
       Some (if err = None \<or> err = Some EOF then s @ blk else s, if err = Some EOF then None else err, i1)
     }"

text \<open>\<open>strings.TrimFunc\<close> with a predicate.\<close>

definition TrimFunc :: "(rune \<Rightarrow> bool) \<Rightarrow> rune list \<Rightarrow> rune list" where
  "TrimFunc f s = rev (dropWhile f (rev (dropWhile f s)))"

text \<open>\<open>ReadLine\<close>: the last block of a line is trimmed, but only if the line ends with a newline.\<close>

partial_function (option) readLineLoop ::
  "'i rune_reader \<Rightarrow> 'i \<Rightarrow> rune list \<times> rune list \<Rightarrow> (rune list \<times> go_err option \<times> 'i) option" where
  "readLineLoop rd i st =
     do {
       ((r, sz, rerr), i1) \<leftarrow> rd i;
       if sz > 0 \<and> r = 10 then
         (let (s, blk) = st in Some (if 0 < length blk then s @ TrimFunc IsSpace blk else s, None, i1))
       else
         (let (s, blk) = (if sz > 0 then collect r st else st) in
          if rerr \<noteq> None then
            (if 0 < length blk then Some (s @ blk, if rerr = Some EOF then None else rerr, i1) else Some (s, rerr, i1))
          else readLineLoop rd i1 (s, blk))
     }"

declare readLineLoop.simps [code]

definition ReadLine :: "'i rune_reader \<Rightarrow> bool \<Rightarrow> 'i \<Rightarrow> (rune list \<times> go_err option \<times> 'i) option" where
  "ReadLine rd cantrim i =
     do { (s, err, i1) \<leftarrow> readLineLoop rd i ([], []); Some (if cantrim then TrimFunc IsSpace s else s, err, i1) }"

text \<open>\<open>ReadLines\<close> skips lines of length zero; \<open>strings.TrimSpace\<close> trims the others.\<close>

definition addLine :: "rune list list \<Rightarrow> rune list \<Rightarrow> rune list list" where
  "addLine lines s = (if s \<noteq> [] then lines @ [TrimFunc unicode_IsSpace s] else lines)"

partial_function (option) readLinesLoop ::
  "'i rune_reader \<Rightarrow> 'i \<Rightarrow> rune list list \<Rightarrow> rune list \<times> rune list \<Rightarrow> (rune list list \<times> go_err option \<times> 'i) option" where
  "readLinesLoop rd i lines st =
     do {
       ((r, sz, rerr), i1) \<leftarrow> rd i;
       if sz > 0 \<and> r = 10 then
         (let (s, blk) = st in readLinesLoop rd i1 (addLine lines (s @ blk)) ([], []))
       else
         (let (s, blk) = (if sz > 0 then collect r st else st) in
          if rerr \<noteq> None then Some (addLine lines (s @ blk), if rerr = Some EOF then None else rerr, i1)
          else readLinesLoop rd i1 lines (s, blk))
     }"

declare readLinesLoop.simps [code]

definition ReadLines :: "'i rune_reader \<Rightarrow> 'i \<Rightarrow> (rune list list \<times> go_err option \<times> 'i) option" where
  "ReadLines rd i = readLinesLoop rd i [] ([], [])"

text \<open>
  \<open>ReadRunesFrom\<close> appends the runes of a reader to a buffer, in blocks of 4096.  It counts every
  rune twice: once when it is read, once when it is written.
\<close>

definition flushRunes :: "Buffer \<Rightarrow> rune list \<Rightarrow> int \<Rightarrow> (Buffer \<times> int) option" where
  "flushRunes b p n =
     do { bs \<leftarrow> RunesToUTF8 p;
          if 0 < length bs then do { (wn, b1) \<leftarrow> writeBytes b (length bs) bs; Some (b1, n + int wn) } else Some (b, n) }"

partial_function (option) readRunesFromLoop ::
  "'i rune_reader \<Rightarrow> 'i \<Rightarrow> Buffer \<Rightarrow> rune list \<Rightarrow> int \<Rightarrow> (Buffer \<times> rune list \<times> int \<times> go_err option \<times> 'i) option" where
  "readRunesFromLoop rd i b p n =
     do {
       ((pr, pn, pnerr), i1) \<leftarrow> rd i;
       (b1, p1, n1) \<leftarrow>
         (if pn > 0 then
            (let p1 = p @ [pr]; n1 = n + pn in
             if length p1 = 4096 then do { (b1, n2) \<leftarrow> flushRunes b p1 n1; Some (b1, [], n2) }
             else Some (b, p1, n1))
          else Some (b, p, n));
       if pnerr \<noteq> None then Some (b1, p1, n1, pnerr, i1)
       else if pn = 0 then Some (b1, p1, n1, Some EOF, i1)
       else readRunesFromLoop rd i1 b1 p1 n1
     }"

declare readRunesFromLoop.simps [code]

definition ReadRunesFrom :: "Buffer \<Rightarrow> 'i rune_reader \<Rightarrow> 'i \<Rightarrow> (int \<times> go_err option \<times> Buffer \<times> 'i) option" where
  "ReadRunesFrom b rd i =
     do {
       (b1, p1, n1, err, i1) \<leftarrow> readRunesFromLoop rd i b [] 0;
       (b2, n2) \<leftarrow> (if 0 < length p1 then flushRunes b1 p1 n1 else Some (b1, n1));
       Some (n2, err, b2, i1)
     }"

section \<open>Printing into a buffer\<close>

text \<open>
  The arguments of \<open>Print\<close>, by the type switch of \<open>Fprint\<close>: strings, booleans, runes, lists of
  strings, nested lists, rune readers, buffers and nil.  Values that go through \<open>encoding/json\<close>
  or \<open>fmt\<close> are not represented.
\<close>

datatype 'i parg = PStr "rune list" | PBool bool | PRunes "rune list" | PStrs "rune list list"
  | PList "'i parg list" | PRdr 'i | PBuf Buffer | PNil

text \<open>The conversion \<open>string([]rune)\<close> replaces what is no code point.\<close>

definition toString :: "rune list \<Rightarrow> rune list" where
  "toString rs = map (\<lambda>r. if valid_rune r then r else RuneError) rs"

definition writeText :: "Buffer \<Rightarrow> rune list \<Rightarrow> Buffer option" where
  "writeText b s = do { bs \<leftarrow> RunesToUTF8 s; map_option snd (Write b bs) }"

fun Fprint :: "'i rune_reader \<Rightarrow> Buffer \<Rightarrow> 'i parg list \<Rightarrow> (go_err option \<times> Buffer) option" where
  "Fprint rd b [] = Some (None, b)"
| "Fprint rd b (PStr s # as) = do { b1 \<leftarrow> writeText b s; Fprint rd b1 as }"
| "Fprint rd b (PBool x # as) =
     do { b1 \<leftarrow> writeText b (if x then [116, 114, 117, 101] else [102, 97, 108, 115, 101]); Fprint rd b1 as }"
| "Fprint rd b (PRunes rs # as) =
     do { b1 \<leftarrow> (if 0 < length rs then writeText b (toString rs) else Some b); Fprint rd b1 as }"
| "Fprint rd b (PStrs ss # as) =
     do { b1 \<leftarrow> (if 0 < length ss then writeText b (concat ss) else Some b); Fprint rd b1 as }"
| "Fprint rd b (PList xs # as) =
     (if 0 < length xs then
        do { (err, b1) \<leftarrow> Fprint rd b xs; if err \<noteq> None then Some (err, b1) else Fprint rd b1 as }
      else Fprint rd b as)"
| "Fprint rd b (PRdr i # as) =
     do { (n, err, b1, i1) \<leftarrow> ReadRunesFrom b rd i;
          if err \<noteq> None \<and> err \<noteq> Some EOF then Some (err, b1) else Fprint rd b1 as }"
| "Fprint rd b (PBuf c # as) =
     do { (b1, n, err) \<leftarrow> WriteTo c bufPut b;
          if as = [] then Some (err, b1) else Fprint rd b1 as }"
| "Fprint rd b (PNil # as) = Fprint rd b as"

text \<open>\<open>NewBuffer\<close> with arguments, \<open>Print\<close> and \<open>Println\<close>.\<close>

definition NewBufferOf :: "'i rune_reader \<Rightarrow> 'i parg list \<Rightarrow> Buffer option" where
  "NewBufferOf rd as = (if 0 < length as then map_option snd (Fprint rd NewBuffer as) else Some NewBuffer)"

definition Fprintln :: "'i rune_reader \<Rightarrow> Buffer \<Rightarrow> 'i parg list \<Rightarrow> (go_err option \<times> Buffer) option" where
  "Fprintln rd b as =
     do { (err, b1) \<leftarrow> (if 0 < length as then Fprint rd b as else Some (None, b));
          if err = None then Fprint rd b1 [PStr [13, 10]] else Some (err, b1) }"

section \<open>The contract of a rune reader\<close>

locale rune_source =
  fixes rd :: "'i rune_reader" and left :: "'i \<Rightarrow> rune list" and inv :: "'i \<Rightarrow> bool"
  assumes more: "inv i \<Longrightarrow> left i = r # rs \<Longrightarrow>
      \<exists>i'. rd i = Some ((r, RuneLen r, None), i') \<and> inv i' \<and> left i' = rs"
    and ended: "inv i \<Longrightarrow> left i = [] \<Longrightarrow> \<exists>r i'. rd i = Some ((r, 0, Some EOF), i') \<and> inv i' \<and> left i' = []"
    and text_valid: "inv i \<Longrightarrow> r \<in> set (left i) \<Longrightarrow> valid_rune r"
begin

lemma more_size:
  assumes "inv i" "left i = r # rs"
  obtains i' where "rd i = Some ((r, RuneLen r, None), i')" "inv i'" "left i' = rs" "RuneLen r > 0" "valid_rune r"
  using more [OF assms] text_valid [OF assms(1), of r] RuneLen_pos [of r] assms(2) by auto

lemma readRunesLoop_reads:
  "inv i \<Longrightarrow> length acc \<le> pl \<Longrightarrow>
   \<exists>i'. readRunesLoop rd pl i acc = Some (acc @ take (pl - length acc) (left i),
       if length (left i) < pl - length acc then Some EOF else None, i') \<and>
     inv i' \<and> left i' = drop (pl - length acc) (left i)"
proof (induction "left i" arbitrary: i acc)
  case Nil
  then show ?case using ended [of i] by (cases "length acc < pl") (subst readRunesLoop.simps, auto)+
next
  case (Cons r rs)
  show ?case
  proof (cases "length acc < pl")
    case False
    then show ?thesis using Cons.prems by (subst readRunesLoop.simps) auto
  next
    case True
    obtain i' where i': "rd i = Some ((r, RuneLen r, None), i')" "inv i'" "left i' = rs" "RuneLen r > 0"
      using more_size [OF Cons.prems(1) Cons.hyps(2) [symmetric]] by metis
    then have e: "readRunesLoop rd pl i acc = readRunesLoop rd pl i' (acc @ [r])"
      using True by (subst readRunesLoop.simps) simp
    have "pl - length acc = Suc (pl - length (acc @ [r]))" using True by simp
    then show ?thesis
      using Cons.hyps(1) [OF i'(3) [symmetric] i'(2), of "acc @ [r]"] True e i'(3) Cons.hyps(2) [symmetric] by auto
  qed
qed

lemma ReadRunesEOFFunc_folds:
  "inv i \<Longrightarrow> \<exists>i'. ReadRunesEOFFunc rd (\<lambda>r st. (None, g r st)) i s = Some (None, i', fold g (left i) s) \<and> inv i' \<and> left i' = []"
proof (induction "left i" arbitrary: i s)
  case Nil
  then show ?case using ended [of i] by (subst ReadRunesEOFFunc.simps) auto
next
  case (Cons r rs)
  obtain i' where i': "rd i = Some ((r, RuneLen r, None), i')" "inv i'" "left i' = rs" "RuneLen r > 0"
    using more_size [OF Cons.prems Cons.hyps(2) [symmetric]] by metis
  then have "ReadRunesEOFFunc rd (\<lambda>r st. (None, g r st)) i s = ReadRunesEOFFunc rd (\<lambda>r st. (None, g r st)) i' (g r s)"
    by (subst ReadRunesEOFFunc.simps) simp
  with Cons.hyps(1) [OF i'(3) [symmetric] i'(2), of "g r s"] i'(3) Cons.hyps(2) [symmetric] show ?case by auto
qed

end

lemma collect_text: "fst (collect r st) @ snd (collect r st) = fst st @ snd st @ [r]"
  by (auto simp: collect_def Let_def split: prod.splits)

lemma fold_collect: "fst (fold collect rs st) @ snd (fold collect rs st) = fst st @ snd st @ rs"
  by (induction rs arbitrary: st) (simp_all add: collect_text)

text \<open>A line read so far: whole blocks and a rest.\<close>

definition blocks :: "rune list \<Rightarrow> rune list \<times> rune list \<Rightarrow> bool" where
  "blocks l st \<longleftrightarrow> st = (take (1024 * (length l div 1024)) l, drop (1024 * (length l div 1024)) l)"

lemma blocks_Nil: "blocks [] ([], [])"
  by (simp add: blocks_def)

lemma blocks_collect:
  assumes "blocks l st"
  shows "blocks (l @ [r]) (collect r st)"
proof -
  let ?k = "1024 * (length l div 1024)"
  have st: "st = (take ?k l, drop ?k l)" using assms by (simp add: blocks_def)
  have kl: "?k \<le> length l" by simp
  have m: "length (drop ?k l) = length l mod 1024" by (simp add: minus_mult_div_eq_mod)
  show ?thesis
  proof (cases "length l mod 1024 = 1023")
    case True
    then have "1024 * (Suc (length l) div 1024) = Suc (length l)"
      using mult_div_mod_eq [of 1024 "length l"] by (simp add: div_Suc mod_Suc)
    then show ?thesis
      using st m True kl by (simp add: blocks_def collect_def Let_def append_take_drop_id flip: append_assoc)
  next
    case False
    then have "Suc (length l) div 1024 = length l div 1024"
      by (simp add: div_Suc mod_Suc)
    then show ?thesis
      using st m False kl by (simp add: blocks_def collect_def Let_def)
  qed
qed

text \<open>The lines of a text, as a reference.\<close>

fun splitNL :: "rune list \<Rightarrow> rune list list" where
  "splitNL [] = [[]]"
| "splitNL (c # cs) = (if c = 10 then [] # splitNL cs else (c # hd (splitNL cs)) # tl (splitNL cs))"

lemma splitNL_nonempty [simp]: "splitNL cs \<noteq> []"
  by (cases cs) auto

lemma addLine_fold: "fold (\<lambda>l ls. addLine ls l) ls acc = acc @ map (TrimFunc unicode_IsSpace) (filter (\<lambda>l. l \<noteq> []) ls)"
  by (induction ls arbitrary: acc) (auto simp: addLine_def)

text \<open>Writing a block of runes behind the contents.\<close>

lemma flushRunes_returns:
  assumes "usable n b" "\<forall>r \<in> set p. valid_rune r"
  shows "\<exists>b1. flushRunes b p k = Some (b1, k + int (length (encode p))) \<and> contents b1 = contents b @ encode p \<and> usable n b1"
  using writeBytes_usable [OF assms(1), of "encode p"] assms by (auto simp: flushRunes_def RunesToUTF8_valid)

lemma writeText_returns:
  assumes "usable n b" "\<forall>r \<in> set s. valid_rune r"
  shows "\<exists>b1. writeText b s = Some b1 \<and> contents b1 = contents b @ encode s \<and> usable n b1"
  using Write_usable [OF assms(1), of "encode s"] assms(2) by (auto simp: writeText_def RunesToUTF8_valid)

context rune_source
begin

lemma ReadRunes_reads:
  assumes "inv i" "0 < pl"
  shows "\<exists>i'. ReadRunes rd pl i = Some (take pl (left i), if left i = [] then Some EOF else None, i') \<and>
    inv i' \<and> left i' = drop pl (left i)"
  using readRunesLoop_reads [OF assms(1), of "[]" pl] assms(2) by (auto simp: ReadRunes_def)

lemma ReaderToString_reads:
  assumes "inv i"
  shows "\<exists>i'. ReaderToString rd i = Some (left i, None, i') \<and> inv i' \<and> left i' = []"
  using ReadRunesEOFFunc_folds [OF assms, of collect "([], [])"] fold_collect [of "left i" "([], [])"]
  by (auto simp: ReaderToString_def split: prod.splits)

lemma readLineLoop_reads:
  "inv i \<Longrightarrow> blocks seen st \<Longrightarrow> left i = l @ rest \<Longrightarrow> 10 \<notin> set l \<Longrightarrow> rest = [] \<or> hd rest = 10 \<Longrightarrow>
   (let k = 1024 * (length (seen @ l) div 1024); a = take k (seen @ l); z = drop k (seen @ l) in
    \<exists>i'. readLineLoop rd i st = Some (a @ (if rest = [] then z else TrimFunc IsSpace z),
        if rest = [] \<and> z = [] then Some EOF else None, i') \<and> inv i' \<and> left i' = tl rest)"
proof (induction l arbitrary: i seen st)
  case Nil
  show ?case
  proof (cases rest)
    case empty: Nil
    then obtain r i' where "rd i = Some ((r, 0, Some EOF), i')" "inv i'" "left i' = []" using ended [of i] Nil by auto
    then show ?thesis using Nil empty by (subst readLineLoop.simps) (auto simp: blocks_def Let_def)
  next
    case (Cons c cs)
    then obtain i' where "rd i = Some ((10, RuneLen 10, None), i')" "inv i'" "left i' = cs" "RuneLen 10 > 0"
      using more_size [of i 10 cs] Nil by auto
    then show ?thesis using Nil Cons by (subst readLineLoop.simps) (auto simp: blocks_def Let_def TrimFunc_def)
  qed
next
  case (Cons r l)
  obtain i' where i': "rd i = Some ((r, RuneLen r, None), i')" "inv i'" "left i' = l @ rest" "RuneLen r > 0"
    using more_size [of i r "l @ rest"] Cons.prems(1,3) by auto
  then have "readLineLoop rd i st = readLineLoop rd i' (collect r st)"
    using Cons.prems(4) by (subst readLineLoop.simps) (auto split: prod.splits)
  then show ?case
    using Cons.IH [OF i'(2) blocks_collect [OF Cons.prems(2), of r] i'(3)] Cons.prems(4,5) by simp
qed

lemma readLinesLoop_reads:
  "inv i \<Longrightarrow> fst st @ snd st = seen \<Longrightarrow>
   \<exists>i'. readLinesLoop rd i lines st =
     Some (fold (\<lambda>l ls. addLine ls l) ((seen @ hd (splitNL (left i))) # tl (splitNL (left i))) lines, None, i')"
proof (induction "left i" arbitrary: i st seen lines)
  case Nil
  then show ?case using ended [of i] by (subst readLinesLoop.simps) (auto split: prod.splits)
next
  case (Cons r rs)
  obtain i' where i': "rd i = Some ((r, RuneLen r, None), i')" "inv i'" "rs = left i'" "RuneLen r > 0"
    using more_size [OF Cons.prems(1) Cons.hyps(2) [symmetric]] by metis
  show ?case
  proof (cases "r = 10")
    case True
    then have "readLinesLoop rd i lines st = readLinesLoop rd i' (addLine lines seen) ([], [])"
      using i' Cons.prems(2) by (subst readLinesLoop.simps) (auto split: prod.splits)
    with Cons.hyps(1) [OF i'(3,2), of "([], [])" "[]" "addLine lines seen"] True show ?thesis
      by (auto simp: Cons.hyps(2) [symmetric] i'(3))
  next
    case False
    then have "readLinesLoop rd i lines st = readLinesLoop rd i' lines (collect r st)"
      using i' by (subst readLinesLoop.simps) (auto split: prod.splits)
    with Cons.hyps(1) [OF i'(3,2), of "collect r st" "seen @ [r]" lines] False Cons.prems(2) show ?thesis
      by (auto simp: Cons.hyps(2) [symmetric] i'(3) collect_text)
  qed
qed

lemma readRunesFromLoop_reads:
  "inv i \<Longrightarrow> usable n b \<Longrightarrow> \<forall>r \<in> set p. valid_rune r \<Longrightarrow> length p < 4096 \<Longrightarrow>
   \<exists>b' p' k' i'. readRunesFromLoop rd i b p k = Some (b', p', k', Some EOF, i') \<and> usable n b' \<and> (\<forall>r \<in> set p'. valid_rune r) \<and>
     contents b' @ encode p' = contents b @ encode p @ encode (left i) \<and>
     k' + int (length (encode p')) = k + int (length (encode p)) + 2 * int (length (encode (left i)))"
proof (induction "left i" arbitrary: i b p k)
  case Nil
  then show ?case using ended [of i] by (subst readRunesFromLoop.simps) auto
next
  case (Cons r rs)
  obtain i' where i': "rd i = Some ((r, RuneLen r, None), i')" "inv i'" "rs = left i'" "RuneLen r > 0" "valid_rune r"
    using more_size [OF Cons.prems(1) Cons.hyps(2) [symmetric]] by metis
  note len = length_EncodeRune [OF i'(5)]
  have p: "\<forall>x \<in> set (p @ [r]). valid_rune x" using Cons.prems(3) i'(5) by simp
  show ?case
  proof (cases "length p = 4095")
    case True
    obtain b1 where b1: "flushRunes b (p @ [r]) (k + RuneLen r) = Some (b1, k + RuneLen r + int (length (encode (p @ [r]))))"
        "contents b1 = contents b @ encode (p @ [r])" "usable n b1"
      using flushRunes_returns [OF Cons.prems(2) p] by blast
    then have "readRunesFromLoop rd i b p k =
        readRunesFromLoop rd i' b1 [] (k + RuneLen r + int (length (encode (p @ [r]))))"
      using i' True by (subst readRunesFromLoop.simps) simp
    with Cons.hyps(1) [OF i'(3,2) b1(3), of "[]" "k + RuneLen r + int (length (encode (p @ [r])))"] b1(2) len show ?thesis
      by (auto simp: Cons.hyps(2) [symmetric] i'(3))
  next
    case False
    then have "readRunesFromLoop rd i b p k = readRunesFromLoop rd i' b (p @ [r]) (k + RuneLen r)"
      using i' by (subst readRunesFromLoop.simps) simp
    with Cons.hyps(1) [OF i'(3,2) Cons.prems(2) p, of "k + RuneLen r"] False Cons.prems(4) len show ?thesis
      by (auto simp: Cons.hyps(2) [symmetric] i'(3))
  qed
qed

lemma ReadRunesFrom_reads:
  assumes "inv i" "usable n b"
  shows "\<exists>b' i'. ReadRunesFrom b rd i = Some (2 * int (length (encode (left i))), Some EOF, b', i') \<and>
    contents b' = contents b @ encode (left i) \<and> usable n b'"
proof -
  obtain b1 p k i' where l: "readRunesFromLoop rd i b [] 0 = Some (b1, p, k, Some EOF, i')" "usable n b1"
      "\<forall>r \<in> set p. valid_rune r" "contents b1 @ encode p = contents b @ encode (left i)"
      "k + int (length (encode p)) = 2 * int (length (encode (left i)))"
    using readRunesFromLoop_reads [OF assms, of "[]" 0] by auto
  obtain b2 where "flushRunes b1 p k = Some (b2, k + int (length (encode p)))" "contents b2 = contents b1 @ encode p" "usable n b2"
    using flushRunes_returns [OF l(2,3)] by blast
  with l show ?thesis by (cases "p = []") (auto simp: ReadRunesFrom_def)
qed

end

section \<open>Rune readers of this repository\<close>

text \<open>\<open>strings.NewReader(s).ReadRune\<close>, and the reader over a rune slice in \<open>mapreader.go\<close>.\<close>

fun strRune :: "rune list rune_reader" where
  "strRune [] = Some ((0, 0, Some EOF), [])"
| "strRune (r # rs) = Some ((r, RuneLen r, None), rs)"

interpretation strsrc: rune_source strRune "\<lambda>s. s" "\<lambda>s. \<forall>r \<in> set s. valid_rune r"
  by unfold_locales auto

text \<open>The escaping map reader delivers the escaped text.\<close>

definition m_input :: "mapreader \<Rightarrow> rune list" where
  "m_input m = orgrnes m @ (case orgreadrne m of Some xs \<Rightarrow> map (\<lambda>x. case x of Rn r \<Rightarrow> r | Er e \<Rightarrow> 0) xs | None \<Rightarrow> [])"

lemma feeds_input: "feeds m rs \<Longrightarrow> m_input m = rs"
  by (auto simp: feeds_def m_input_def comp_def split: option.splits)

definition esc_left :: "mapreader \<Rightarrow> rune list" where
  "esc_left m = bfrnes m @ esc (m_input m)"

definition esc_ok :: "mapreader \<Rightarrow> bool" where
  "esc_ok m \<longleftrightarrow> esc_reader m \<and> feeds m (m_input m) \<and> (\<forall>r \<in> set (bfrnes m @ m_input m). valid_rune r)"

lemma esc_valid: "\<forall>r \<in> set s. valid_rune r \<Longrightarrow> r \<in> set (esc s) \<Longrightarrow> valid_rune r"
  by (induction s rule: esc.induct) (auto simp: valid_rune_def split: if_splits)

interpretation escsrc: rune_source ReadRune esc_left esc_ok
proof
  fix m r rs
  assume m: "esc_ok m" and l: "esc_left m = r # rs"
  show "\<exists>m'. ReadRune m = Some ((r, RuneLen r, None), m') \<and> esc_ok m' \<and> esc_left m' = rs"
  proof (cases "bfrnes m")
    case (Cons x b)
    then have "ReadRune m = Some ((x, RuneLen x, None), m\<lparr>bfrnes := b\<rparr>)"
      using run_ready [of m x b] m by (simp add: ReadRune_def esc_ok_def esc_reader_def)
    moreover have "m_input (m\<lparr>bfrnes := b\<rparr>) = m_input m" by (simp add: m_input_def)
    ultimately show ?thesis using Cons m l by (auto simp: esc_ok_def esc_left_def)
  next
    case Nil
    then have "esc_read m (m_input m)" "esc (m_input m) = r # rs"
      using esc_read_step m l by (auto simp: esc_ok_def esc_left_def)
    then obtain m' inp where r: "ReadRune m = Some ((r, RuneLen r, None), m')" "esc_reader m'" "feeds m' inp"
        "set inp \<subseteq> set (m_input m)" "\<forall>x \<in> set (bfrnes m'). valid_rune x" "rs = bfrnes m' @ esc inp"
      by (auto simp: esc_read_def)
    then show ?thesis using m feeds_input [OF r(3)] by (auto simp: esc_ok_def esc_left_def)
  qed
next
  fix m
  assume m: "esc_ok m" and l: "esc_left m = []"
  then have "esc_read m (m_input m)" "esc (m_input m) = []"
    using esc_read_step by (auto simp: esc_ok_def esc_left_def)
  then obtain m' where "ReadRune m = Some ((0, 0, Some EOF), m')" "esc_reader m'" "feeds m' []" "bfrnes m' = []"
    by (auto simp: esc_read_def)
  then show "\<exists>r m'. ReadRune m = Some ((r, 0, Some EOF), m') \<and> esc_ok m' \<and> esc_left m' = []"
    using feeds_input [of m' "[]"] by (auto simp: esc_ok_def esc_left_def)
next
  fix m r
  assume "esc_ok m" "r \<in> set (esc_left m)"
  then show "valid_rune r" using esc_valid by (auto simp: esc_ok_def esc_left_def)
qed

text \<open>A fresh escaping reader.\<close>

definition escReader :: "rune list \<Rightarrow> mapreader" where
  "escReader s = \<lparr>orgreadrne = Some (map Rn s), orgrnes = [], bfrnes = [], bfrdr = None, mp = esc_map,
    keys = [[36, 123], [96]], vldchr = (\<lambda>prvr r. True), cptrkeyval = (\<lambda>k v. (v, True))\<rparr>"

lemma escReader_MapReplaceReader: "MapReplaceReader (map Rn s) esc_map None None None [] = Some (Inl (escReader s))"
  by (simp add: MapReplaceReader_def escReader_def sortKeys_def esc_map_def)

lemma escReader_ok:
  assumes "\<forall>r \<in> set s. valid_rune r"
  shows "esc_ok (escReader s)" "esc_left (escReader s) = esc s"
  using assms by (auto simp: esc_ok_def esc_left_def escReader_def esc_reader_def m_input_def feeds_def comp_def)

section \<open>What printing appends\<close>

text \<open>The text of an argument, for arguments that cannot fail.\<close>

context rune_source
begin

fun arg_text :: "'i parg \<Rightarrow> rune list" where
  "arg_text (PStr s) = s"
| "arg_text (PRunes rs) = rs"
| "arg_text (PRdr i) = left i"
| "arg_text a = []"

fun arg_ok :: "'i parg \<Rightarrow> bool" where
  "arg_ok (PStr s) \<longleftrightarrow> (\<forall>r \<in> set s. valid_rune r)"
| "arg_ok (PRunes rs) \<longleftrightarrow> (\<forall>r \<in> set rs. valid_rune r)"
| "arg_ok (PRdr i) \<longleftrightarrow> inv i"
| "arg_ok a \<longleftrightarrow> False"

lemma toString_valid: "\<forall>r \<in> set rs. valid_rune r \<Longrightarrow> toString rs = rs"
  by (simp add: toString_def map_idI)

lemma Fprint_texts:
  "usable n b \<Longrightarrow> \<forall>a \<in> set as. arg_ok a \<Longrightarrow>
   \<exists>b'. Fprint rd b as = Some (None, b') \<and> contents b' = contents b @ encode (concat (map arg_text as)) \<and> usable n b'"
proof (induction as arbitrary: b)
  case Nil
  then show ?case by simp
next
  case (Cons a as)
  have "\<exists>b1. Fprint rd b (a # as) = Fprint rd b1 as \<and> contents b1 = contents b @ encode (arg_text a) \<and> usable n b1"
  proof (cases a)
    case (PStr s)
    then show ?thesis using writeText_returns [OF Cons.prems(1), of s] Cons.prems(2) by auto
  next
    case (PRunes rs)
    then show ?thesis
      using writeText_returns [OF Cons.prems(1), of rs] Cons.prems by (cases "rs = []") (auto simp: toString_valid)
  next
    case (PRdr i)
    then show ?thesis using ReadRunesFrom_reads [OF _ Cons.prems(1), of i] Cons.prems(2) by auto
  qed (use Cons.prems in auto)
  then obtain b1 where "Fprint rd b (a # as) = Fprint rd b1 as" "contents b1 = contents b @ encode (arg_text a)" "usable n b1" by blast
  with Cons.IH [of b1] Cons.prems(2) show ?case by auto
qed

end

section \<open>Properties\<close>

text \<open>
  \<open>ReadRunesFrom\<close> returns on every string reader, appends exactly the text to the buffer and
  reports \<open>EOF\<close>; the count it returns is twice the number of bytes appended.
\<close>

lemma ReadRunesFrom_appends:
  assumes "buf_inv b" "lck b" "\<forall>r \<in> set s. valid_rune r"
  shows "\<exists>b' s'. ReadRunesFrom b strRune s = Some (2 * int (length (encode s)), Some EOF, b', s') \<and>
    contents b' = contents b @ encode s \<and> buf_inv b' \<and> lck b'"
  using strsrc.ReadRunesFrom_reads [OF assms(3), of "length (bytes b)" b] assms(1,2) by (auto simp: usable_def)

text \<open>
  \<open>ReadLines\<close> terminates and returns the non-empty lines of the text, in order and
  trimmed, and \<open>ReaderToString\<close> returns the text itself; both whatever the position of block
  boundaries.
\<close>

lemma ReadLines_lines:
  assumes "\<forall>r \<in> set s. valid_rune r"
  shows "(\<exists>s'. ReadLines strRune s = Some (map (TrimFunc unicode_IsSpace) (filter (\<lambda>l. l \<noteq> []) (splitNL s)), None, s')) \<and>
    (\<exists>s'. ReaderToString strRune s = Some (s, None, s'))"
proof -
  have "[] @ hd (splitNL s) = hd (splitNL s)" by simp
  then have "\<exists>s'. ReadLines strRune s = Some (map (TrimFunc unicode_IsSpace) (filter (\<lambda>l. l \<noteq> []) (splitNL s)), None, s')"
    using strsrc.readLinesLoop_reads [OF assms, of "([], [])" "[]" "[]"]
    by (simp only: ReadLines_def addLine_fold fst_conv snd_conv append_Nil list.collapse [OF splitNL_nonempty])
  then show ?thesis using strsrc.ReaderToString_reads [OF assms] by auto
qed

text \<open>
  \<open>ReadLine\<close> consumes one line and its newline.  Lines shorter than a block come back
  trimmed when a newline ends them and as they are at the end of the text.  In a longer line, the
  last block is trimmed on its own, which removes spaces from inside the line.
\<close>

lemma ReadLine_line:
  assumes "\<forall>r \<in> set (l @ rest). valid_rune r" "10 \<notin> set l" "rest = [] \<or> hd rest = 10"
  shows "let k = 1024 * (length l div 1024); a = take k l; z = drop k l in
    \<exists>s'. ReadLine strRune False (l @ rest) = Some (a @ (if rest = [] then z else TrimFunc IsSpace z),
      if rest = [] \<and> z = [] then Some EOF else None, s') \<and> s' = tl rest"
  using strsrc.readLineLoop_reads [of "l @ rest" "[]" "([], [])" l rest] assms blocks_Nil
  by (auto simp: ReadLine_def Let_def)

end
