(* ===== verification/RuneReader.thy ===== *)
theory RuneReader
  imports BuffReader RuneIO
begin

text \<open>
  Reading a buffer as text: \<open>ReadRune\<close>, \<open>ReadRunes\<close>, \<open>Readln\<close>, \<open>Readlines\<close> and \<open>ReadAll\<close> of a
  \<open>BuffReader\<close> (\<open>src/ioext/buffer.go\<close>), which put a \<open>bufio.Reader\<close> of the standard library in
  front of the reader's own \<open>Read\<close>.  The reader over a buffer that holds text is another instance
  of the contract of rune readers, so everything proved for rune readers holds for it.
\<close>

section \<open>The standard library's buffered rune reader\<close>

definition FullRune :: "byte list \<Rightarrow> bool" where
  "FullRune p =
     (case p of [] \<Rightarrow> False
      | b0 # q \<Rightarrow> let x = uint b0;
          n = (if 194 \<le> x \<and> x \<le> 223 then 2 else if 224 \<le> x \<and> x \<le> 239 then 3 else if 240 \<le> x \<and> x \<le> 244 then 4 else 1 :: nat);
          lo = (if x = 224 then 160 else if x = 240 then 144 else 128);
          hi = (if x = 237 then 159 else if x = 244 then 143 else 191) in
        if length p \<ge> n then True
        else if length q > 0 \<and> \<not> (lo \<le> uint (q ! 0) \<and> uint (q ! 0) \<le> hi) then True
        else length q > 1 \<and> \<not> is_cont (q ! 1))"

text \<open>The unread bytes and the pending error; \<open>fill\<close> gives up after a hundred empty reads.\<close>

record bufio =
  unreadb :: "byte list"
  b_err :: "go_err option"

definition newBufio :: bufio where
  "newBufio = \<lparr>unreadb = [], b_err = None\<rparr>"

fun fillB :: "nat \<Rightarrow> 's get \<Rightarrow> bufio \<Rightarrow> 's \<Rightarrow> (bufio \<times> 's) option" where
  "fillB 0 get b s = Some (b\<lparr>b_err := Some (Err ''multiple Read calls return no data or error'')\<rparr>, s)"
| "fillB (Suc n) get b s =
     do {
       (bs, err, s1) \<leftarrow> get s (4096 - length (unreadb b));
       let b1 = b\<lparr>unreadb := unreadb b @ bs\<rparr>;
       if err \<noteq> None then Some (b1\<lparr>b_err := err\<rparr>, s1)
       else if bs \<noteq> [] then Some (b1, s1)
       else fillB n get b1 s1
     }"

partial_function (option) fillRune :: "'s get \<Rightarrow> bufio \<Rightarrow> 's \<Rightarrow> (bufio \<times> 's) option" where
  "fillRune get b s =
     (if length (unreadb b) < 4 \<and> \<not> FullRune (unreadb b) \<and> b_err b = None \<and> length (unreadb b) < 4096 then
        do { (b1, s1) \<leftarrow> fillB 100 get b s; fillRune get b1 s1 }
      else Some (b, s))"

declare fillRune.simps [code]

definition bufioReadRune :: "'s get \<Rightarrow> bufio \<times> 's \<Rightarrow> (rune_result \<times> bufio \<times> 's) option" where
  "bufioReadRune get bs =
     do {
       (b, s) \<leftarrow> fillRune get (fst bs) (snd bs);
       if unreadb b = [] then Some ((0, 0, b_err b), b\<lparr>b_err := None\<rparr>, s)
       else
         (let (r, size) = DecodeRune (unreadb b) in
          Some ((r, int size, None), b\<lparr>unreadb := drop size (unreadb b)\<rparr>, s))
     }"

section \<open>Runes of a BuffReader\<close>

text \<open>The reader and its field \<open>rnr\<close>.\<close>

record RuneBuffReader =
  rbr :: BuffReader
  rnr :: "bufio option"

definition bufrReadRune :: "RuneBuffReader rune_reader" where
  "bufrReadRune r =
     (if rcur (rbr r) \<noteq> None then
        (let b = (case rnr r of Some b \<Rightarrow> b | None \<Rightarrow> newBufio) in
         do { (res, b1, s1) \<leftarrow> bufioReadRune (Read CtxLive) (b, rbr r);
              Some (res, \<lparr>rbr = s1, rnr = Some b1\<rparr>) })
      else Some ((0, 0, Some EOF), r))"

definition bufrReadRunes :: "nat \<Rightarrow> RuneBuffReader \<Rightarrow> (rune list \<times> go_err option \<times> RuneBuffReader) option" where
  "bufrReadRunes pl r =
     (if rcur (rbr r) \<noteq> None then
        (let b = (case rnr r of Some b \<Rightarrow> b | None \<Rightarrow> newBufio) in
         do { (p, err, b1, s1) \<leftarrow> ReadRunes (bufioReadRune (Read CtxLive)) pl (b, rbr r);
              Some (p, err, \<lparr>rbr = s1, rnr = Some b1\<rparr>) })
      else Some ([], Some EOF, r))"

definition Readln :: "RuneBuffReader \<Rightarrow> (rune list \<times> go_err option \<times> RuneBuffReader) option" where
  "Readln r = ReadLine bufrReadRune False r"

partial_function (option) readlinesLoop :: "RuneBuffReader \<Rightarrow> rune list list \<Rightarrow> (rune list list \<times> RuneBuffReader) option" where
  "readlinesLoop r lines =
     do {
       (ln, lnerr, r1) \<leftarrow> Readln r;
       if lnerr = None then readlinesLoop r1 (if ln \<noteq> [] then lines @ [ln] else lines)
       else Some (lines, r1)
     }"

declare readlinesLoop.simps [code]

definition Readlines :: "RuneBuffReader \<Rightarrow> (rune list list \<times> RuneBuffReader) option" where
  "Readlines r = readlinesLoop r []"

definition ReadAll :: "RuneBuffReader \<Rightarrow> (rune list \<times> go_err option \<times> RuneBuffReader) option" where
  "ReadAll r = ReaderToString bufrReadRune r"

text \<open>A fresh reader, as \<open>buff.Reader(...)\<close> returns it; nil reads as a reader at its end.\<close>

definition runesOf :: "BuffReader \<Rightarrow> RuneBuffReader" where
  "runesOf r = \<lparr>rbr = r, rnr = None\<rparr>"

section \<open>Full and cut encodings\<close>

lemma FullRune_encoded:
  assumes "valid_rune r"
  shows "FullRune (EncodeRune r @ q)"
proof -
  obtain b0 t where e: "EncodeRune r = b0 # t" by (cases "EncodeRune r") auto
  show ?thesis
  proof (cases "t = []")
    case True
    then have "snd (DecodeRune (EncodeRune r @ replicate 4 0)) = 1" "length (EncodeRune r) = 1"
      using DecodeRune_EncodeRune [OF assms] e by auto
    then have "int (length (EncodeRune r)) = 1" by simp
    then have "RuneLen r = 1" using length_EncodeRune [OF assms] by simp
    then have "r \<le> 127" "0 \<le> r" by (auto simp: RuneLen_def split: if_splits)
    then have "uint b0 < 128" using e True assms by (auto simp: EncodeRune_valid utf8_bytes_def uint_byte)
    then show ?thesis using e by (simp add: FullRune_def Let_def)
  next
    case False
    then have "1 < length (EncodeRune r)" using e by (cases t) auto
    from EncodeRune_lead [OF assms this] show ?thesis using e by (auto simp: FullRune_def Let_def)
  qed
qed

lemma FullRune_cut:
  assumes "valid_rune r" "EncodeRune r = q @ t" "q \<noteq> []" "t \<noteq> []"
  shows "\<not> FullRune q"
proof -
  have l1: "1 < length (EncodeRune r)" using assms(2-4) by (cases q; cases t) auto
  have d: "DecodeRune (EncodeRune r) = (r, length (EncodeRune r))"
    using DecodeRune_EncodeRune [OF assms(1), of "[]"] by simp
  obtain b0 u where e: "EncodeRune r = b0 # u" "194 \<le> uint b0" "uint b0 \<le> 244"
      "length u = (if uint b0 \<le> 223 then 1 else if uint b0 \<le> 239 then 2 else 3)"
    using EncodeRune_lead [OF assms(1) l1] by blast
  obtain q' where q: "q = b0 # q'" "u = q' @ t" using assms(2,3) e(1) by (cases q) auto
  consider "u = [] \<or> length u = 1" | b1 b2 where "u = [b1, b2]" | b1 b2 b3 where "u = [b1, b2, b3]"
    using e(4) by (cases u rule: remdups_adj.cases; cases "tl (tl u)") (auto split: if_splits)
  then show ?thesis
  proof cases
    case 1
    then have "q' = []" using q(2) assms(4) by (cases q'; cases t) auto
    then show ?thesis using q(1) e 1 by (auto simp: FullRune_def Let_def split: if_splits)
  next
    case (2 b1 b2)
    then have "224 \<le> uint b0" "uint b0 \<le> 239" using e(4) by (auto split: if_splits)
    then have "(if uint b0 = 224 then 160 else 128) \<le> uint b1 \<and> uint b1 \<le> (if uint b0 = 237 then 159 else 191)"
      using d e(1) 2 by (auto simp: DecodeRune_def Let_def split: if_splits)
    moreover have "q' = [] \<or> q' = [b1]" using q(2) 2 assms(4) by (cases q' rule: remdups_adj.cases) (auto simp: Cons_eq_append_conv)
    ultimately show ?thesis
      using q(1) \<open>224 \<le> uint b0\<close> \<open>uint b0 \<le> 239\<close> by (auto simp: FullRune_def Let_def split: if_splits)
  next
    case (3 b1 b2 b3)
    then have x: "240 \<le> uint b0" "uint b0 \<le> 244" using e(3,4) by (auto split: if_splits)
    then have "(if uint b0 = 240 then 144 else 128) \<le> uint b1 \<and> uint b1 \<le> (if uint b0 = 244 then 143 else 191) \<and> is_cont b2"
      using d e(1) 3 by (auto simp: DecodeRune_def Let_def split: if_splits)
    moreover have "q' = [] \<or> q' = [b1] \<or> q' = [b1, b2]"
      using q(2) 3 assms(4) by (auto simp: Cons_eq_append_conv)
    ultimately show ?thesis using q(1) x by (auto simp: FullRune_def Let_def split: if_splits)
  qed
qed

section \<open>Text through the buffered reader\<close>

text \<open>
  A source that reports its end only when nothing is left; \<open>final\<close> describes what it is then, which
  may be a closed reader.
\<close>

locale text_source =
  fixes get :: "'s get" and rest :: "'s \<Rightarrow> byte list" and ok final :: "'s \<Rightarrow> bool"
  assumes data: "ok s \<Longrightarrow> rest s \<noteq> [] \<Longrightarrow> 0 < pl \<Longrightarrow>
      \<exists>bs s'. get s pl = Some (bs, None, s') \<and> ok s' \<and> rest s = bs @ rest s' \<and> bs \<noteq> [] \<and> length bs \<le> pl"
    and eof: "ok s \<Longrightarrow> rest s = [] \<Longrightarrow> 0 < pl \<Longrightarrow> \<exists>s'. get s pl = Some ([], Some EOF, s') \<and> final s'"
begin

lemma fillB_data:
  assumes "ok s" "rest s \<noteq> []" "length (unreadb b) < 4096" "b_err b = None"
  obtains bs s' where "fillB 100 get b s = Some (b\<lparr>unreadb := unreadb b @ bs\<rparr>, s')" "ok s'" "rest s = bs @ rest s'" "bs \<noteq> []"
proof -
  obtain bs s' where "get s (4096 - length (unreadb b)) = Some (bs, None, s')" "ok s'" "rest s = bs @ rest s'" "bs \<noteq> []"
    using data [OF assms(1,2), of "4096 - length (unreadb b)"] assms(3) by auto
  then show ?thesis using that [of bs s'] by (simp add: numeral_eq_Suc)
qed

lemma fillRune_more:
  "ok s \<Longrightarrow> b_err b = None \<Longrightarrow> valid_rune r \<Longrightarrow> unreadb b @ rest s = EncodeRune r @ q \<Longrightarrow>
   \<exists>b' s'. fillRune get b s = Some (b', s') \<and> ok s' \<and> b_err b' = None \<and> unreadb b' @ rest s' = EncodeRune r @ q \<and>
     length (EncodeRune r) \<le> length (unreadb b')"
proof (induction "length (rest s)" arbitrary: b s rule: less_induct)
  case less
  have split: "unreadb b = EncodeRune r @ take (length (unreadb b) - length (EncodeRune r)) q"
    if "length (EncodeRune r) \<le> length (unreadb b)"
    using that less.prems(4) by (metis append_eq_conv_conj take_append take_all)
  show ?case
  proof (cases "length (unreadb b) < 4 \<and> \<not> FullRune (unreadb b)")
    case True
    have "rest s \<noteq> []"
    proof
      assume "rest s = []"
      then have "unreadb b = EncodeRune r @ q" using less.prems(4) by simp
      then show False using True FullRune_encoded [OF less.prems(3)] by simp
    qed
    then obtain bs s' where f: "fillB 100 get b s = Some (b\<lparr>unreadb := unreadb b @ bs\<rparr>, s')" "ok s'" "rest s = bs @ rest s'" "bs \<noteq> []"
      using fillB_data [OF less.prems(1), of b] True less.prems(2) by auto
    then have "length (rest s') < length (rest s)" by (cases bs) auto
    moreover have "fillRune get b s = fillRune get (b\<lparr>unreadb := unreadb b @ bs\<rparr>) s'"
      using f True less.prems(2) by (subst fillRune.simps) simp
    ultimately show ?thesis
      using less.hyps [of s' "b\<lparr>unreadb := unreadb b @ bs\<rparr>"] f less.prems by simp
  next
    case False
    have "length (EncodeRune r) \<le> length (unreadb b)"
    proof (rule ccontr)
      assume n: "\<not> length (EncodeRune r) \<le> length (unreadb b)"
      then obtain t where t: "EncodeRune r = unreadb b @ t" "t \<noteq> []"
        using less.prems(4) by (metis append_eq_append_conv_if append_take_drop_id drop_eq_Nil linorder_le_cases)
      have "length (unreadb b) < 4" using n length_EncodeRune_le [of r] by linarith
      then have "FullRune (unreadb b)" using False by simp
      moreover from this have "unreadb b \<noteq> []" by (auto simp: FullRune_def)
      ultimately show False using FullRune_cut [OF less.prems(3) t(1) _ t(2)] by simp
    qed
    then show ?thesis using False less.prems by (subst fillRune.simps) auto
  qed
qed

lemma bufioReadRune_more:
  assumes "ok s" "b_err b = None" "valid_rune r" "unreadb b @ rest s = EncodeRune r @ q"
  obtains b' s' where "bufioReadRune get (b, s) = Some ((r, RuneLen r, None), b', s')" "ok s'" "b_err b' = None"
    "unreadb b' @ rest s' = q"
proof -
  obtain b1 s' where f: "fillRune get b s = Some (b1, s')" "ok s'" "b_err b1 = None"
      "unreadb b1 @ rest s' = EncodeRune r @ q" "length (EncodeRune r) \<le> length (unreadb b1)"
    using fillRune_more [OF assms] by blast
  then obtain q' where q': "unreadb b1 = EncodeRune r @ q'" "q = q' @ rest s'"
    by (auto simp: append_eq_append_conv_if split: if_splits) (metis append_take_drop_id)
  have "int (length (EncodeRune r)) = RuneLen r" by (rule length_EncodeRune [OF assms(3)])
  then have "bufioReadRune get (b, s) = Some ((r, RuneLen r, None), b1\<lparr>unreadb := q'\<rparr>, s')"
    using f q' DecodeRune_EncodeRune [OF assms(3), of q'] by (simp add: bufioReadRune_def)
  with f q' show ?thesis by (intro that [of "b1\<lparr>unreadb := q'\<rparr>" s']) simp_all
qed

lemma bufioReadRune_ended:
  assumes "ok s" "b_err b = None" "unreadb b = []" "rest s = []"
  obtains s' where "bufioReadRune get (b, s) = Some ((0, 0, Some EOF), b, s')" "final s'"
proof -
  obtain s' where e: "get s 4096 = Some ([], Some EOF, s')" "final s'" using eof [OF assms(1,4), of 4096] by auto
  have "fillB 100 get b s = Some (b\<lparr>b_err := Some EOF\<rparr>, s')"
    using e assms(2,3) by (simp add: numeral_eq_Suc)
  then have "fillRune get b s = fillRune get (b\<lparr>b_err := Some EOF\<rparr>) s'"
    using assms(2,3) by (subst fillRune.simps) (simp add: FullRune_def)
  also have "\<dots> = Some (b\<lparr>b_err := Some EOF\<rparr>, s')" by (subst fillRune.simps) simp
  finally show ?thesis using that e assms(2,3) by (simp add: bufioReadRune_def)
qed

end

text \<open>A reader over a buffer, whether it disposes itself at the end or not.\<close>

definition rd_ok :: "Buffer \<Rightarrow> BuffReader \<Rightarrow> bool" where
  "rd_ok b r \<longleftrightarrow> buf_inv b \<and> 2 \<le> length (bytes b) \<and> reading b r"

definition rd_final :: "Buffer \<Rightarrow> BuffReader \<Rightarrow> bool" where
  "rd_final b r \<longleftrightarrow> rcur r = None \<or> (rd_ok b r \<and> avail b r = [])"

lemma Read_data:
  assumes "rd_ok b r" "0 < pl"
  shows "\<exists>r'. Read CtxLive r pl = Some (take pl (avail b r), if avail b r = [] then Some EOF else None, r') \<and>
    (if avail b r = [] then rd_final b r' else rd_ok b r' \<and> avail b r' = drop pl (avail b r))"
proof (cases "readable r")
  case True
  have r: "buf_inv b" "2 \<le> length (bytes b)" "reading b r" using assms by (auto simp: rd_ok_def)
  from readLoop_returns [OF r, of "[]" pl] obtain r' where
    "readLoop r pl [] = Some (take pl (avail b r), r')" "reading b r'" "avail b r' = drop pl (avail b r)" by auto
  then show ?thesis
    using True assms r by (auto simp: Read_def rd_final_def rd_ok_def closeReader_def)
next
  case False
  then have "avail b r = []" by (auto simp: readable_def avail_def)
  then show ?thesis using False assms by (auto simp: Read_def rd_final_def closeReader_def)
qed

interpretation readtext: text_source "Read CtxLive" "avail b" "rd_ok b" "rd_final b" for b
proof
  fix r pl
  assume r: "rd_ok b r" and p: "0 < (pl::nat)"
  show "avail b r \<noteq> [] \<Longrightarrow> \<exists>bs r'. Read CtxLive r pl = Some (bs, None, r') \<and> rd_ok b r' \<and> avail b r = bs @ avail b r' \<and>
      bs \<noteq> [] \<and> length bs \<le> pl"
    using Read_data [OF r p] p by (auto intro!: exI [of _ "take pl (avail b r)"])
  show "avail b r = [] \<Longrightarrow> \<exists>r'. Read CtxLive r pl = Some ([], Some EOF, r') \<and> rd_final b r'"
    using Read_data [OF r p] by auto
qed

text \<open>What a rune reader over a buffer has still to deliver.\<close>

definition rr_bytes :: "Buffer \<Rightarrow> RuneBuffReader \<Rightarrow> byte list" where
  "rr_bytes b r = (if rcur (rbr r) = None then [] else (case rnr r of Some x \<Rightarrow> unreadb x | None \<Rightarrow> []) @ avail b (rbr r))"

definition rr_left :: "Buffer \<Rightarrow> RuneBuffReader \<Rightarrow> rune list" where
  "rr_left b r = decode_all (rr_bytes b r)"

definition rr_ok :: "Buffer \<Rightarrow> RuneBuffReader \<Rightarrow> bool" where
  "rr_ok b r \<longleftrightarrow> (rcur (rbr r) \<noteq> None \<longrightarrow> rd_ok b (rbr r) \<and> (case rnr r of Some x \<Rightarrow> b_err x = None | None \<Rightarrow> True)) \<and>
     rr_bytes b r = encode (rr_left b r) \<and> (\<forall>x \<in> set (rr_left b r). valid_rune x)"

lemma rr_okI:
  assumes "rcur (rbr r) \<noteq> None \<longrightarrow> rd_ok b (rbr r) \<and> (case rnr r of Some x \<Rightarrow> b_err x = None | None \<Rightarrow> True)"
    "rr_bytes b r = encode rs" "\<forall>x \<in> set rs. valid_rune x"
  shows "rr_ok b r" "rr_left b r = rs"
  using assms by (auto simp: rr_ok_def rr_left_def decode_all_encode)

interpretation bufrsrc: rune_source bufrReadRune "rr_left b" "rr_ok b" for b
proof
  fix s r rs
  assume s: "rr_ok b s" and l: "rr_left b s = r # rs"
  then have bs: "rr_bytes b s = EncodeRune r @ encode rs" and v: "valid_rune r" "\<forall>x \<in> set rs. valid_rune x"
    by (auto simp: rr_ok_def)
  have c: "rcur (rbr s) \<noteq> None"
  proof
    assume "rcur (rbr s) = None"
    then show False using bs by (simp add: rr_bytes_def)
  qed
  define x where "x = (case rnr s of Some x \<Rightarrow> x | None \<Rightarrow> newBufio)"
  have x: "unreadb x @ avail b (rbr s) = EncodeRune r @ encode rs" "b_err x = None" "rd_ok b (rbr s)"
    using bs c s by (auto simp: x_def rr_bytes_def rr_ok_def newBufio_def split: option.splits)
  obtain y r' where y: "bufioReadRune (Read CtxLive) (x, rbr s) = Some ((r, RuneLen r, None), y, r')" "rd_ok b r'"
      "b_err y = None" "unreadb y @ avail b r' = encode rs"
    using readtext.bufioReadRune_more [OF x(3,2) v(1) x(1)] .
  let ?s = "\<lparr>rbr = r', rnr = Some y\<rparr>"
  have "rcur r' \<noteq> None" using y(2) by (auto simp: rd_ok_def reading_def)
  then have "rr_ok b ?s" "rr_left b ?s = rs" using y v(2) by (auto intro!: rr_okI simp: rr_bytes_def)
  moreover have "bufrReadRune s = Some ((r, RuneLen r, None), ?s)"
    using c y(1) by (simp add: bufrReadRune_def x_def [symmetric] Let_def)
  ultimately show "\<exists>s'. bufrReadRune s = Some ((r, RuneLen r, None), s') \<and> rr_ok b s' \<and> rr_left b s' = rs" by blast
next
  fix s
  assume s: "rr_ok b s" and l: "rr_left b s = []"
  then have bs: "rr_bytes b s = []" by (auto simp: rr_ok_def)
  show "\<exists>r s'. bufrReadRune s = Some ((r, 0, Some EOF), s') \<and> rr_ok b s' \<and> rr_left b s' = []"
  proof (cases "rcur (rbr s) = None")
    case True
    then show ?thesis using s l by (auto simp: bufrReadRune_def)
  next
    case c: False
    define x where "x = (case rnr s of Some x \<Rightarrow> x | None \<Rightarrow> newBufio)"
    have x: "unreadb x = []" "avail b (rbr s) = []" "b_err x = None" "rd_ok b (rbr s)"
      using bs c s by (auto simp: x_def rr_bytes_def rr_ok_def newBufio_def split: option.splits)
    obtain r' where y: "bufioReadRune (Read CtxLive) (x, rbr s) = Some ((0, 0, Some EOF), x, r')" "rd_final b r'"
      using readtext.bufioReadRune_ended [OF x(4,3,1,2)] .
    let ?s = "\<lparr>rbr = r', rnr = Some x\<rparr>"
    have "rr_ok b ?s" "rr_left b ?s = []"
      using rr_okI [of ?s b "[]"] y(2) x by (auto simp: rr_bytes_def rd_final_def)
    moreover have "bufrReadRune s = Some ((0, 0, Some EOF), ?s)"
      using c y(1) by (simp add: bufrReadRune_def x_def [symmetric] Let_def)
    ultimately show ?thesis by blast
  qed
next
  fix s r
  assume "rr_ok b s" "r \<in> set (rr_left b s)"
  then show "valid_rune r" by (auto simp: rr_ok_def)
qed

section \<open>Properties\<close>

text \<open>A fresh reader over a buffer that holds text.\<close>

lemma Reader_runes:
  assumes "buf_inv b" "2 \<le> length (bytes b)" "contents b = encode rs" "\<forall>r \<in> set rs. valid_rune r" "rs \<noteq> []"
    "args = [] \<or> args = [ArgBool True]"
  shows "\<exists>r. Reader b args = Some r \<and> rr_ok b (runesOf r) \<and> rr_left b (runesOf r) = rs"
proof -
  have ne: "contents b \<noteq> []" using assms(3,5) by (cases rs) auto
  from Reader_whole [OF assms(1,2) this] obtain r where r: "Reader b [] = Some r" "reader_ok b r" "avail b r = contents b" by blast
  define q where "q = r\<lparr>DisposeBuffer := (args = [ArgBool True])\<rparr>"
  have "Reader b args = Some q"
    using r(1) assms(6) by (auto simp: q_def Reader_def split: if_splits)
  moreover have "rd_ok b q" "avail b q = contents b" "rcur q \<noteq> None"
    using r(2,3) by (auto simp: q_def rd_ok_def reader_ok_def reading_def avail_def left_over_def)
  ultimately show ?thesis
    using rr_okI [of "runesOf q" b rs] assms(3,4) by (auto simp: runesOf_def rr_bytes_def)
qed

text \<open>
  Claim C40: text goes through a buffer and out of a reader.  Whatever runes are written with
  \<open>WriteRunes\<close>, in any number of calls, a reader opened on the buffer (self-disposing or not) delivers
  exactly these runes: \<open>ReadAll\<close> returns them, across the boundaries of the buffer's chunks, of the
  4096 byte buffer in front of the reader and of multi-byte runes.
\<close>

theorem ReadAll_roundtrip:
  assumes "\<forall>r \<in> set (concat ts). valid_rune r" "concat ts \<noteq> []" "args = [] \<or> args = [ArgBool True]"
  shows "\<exists>b r r'. writeTexts NewBuffer ts = Some b \<and> Reader b args = Some r \<and>
    ReadAll (runesOf r) = Some (concat ts, None, r')"
proof -
  obtain b where b: "writeTexts NewBuffer ts = Some b" "contents b = encode (concat ts)" "buf_inv b" "length (bytes b) = 8192"
    using writeTexts_returns [OF usable_NewBuffer assms(1)] by (auto simp: usable_def)
  then obtain r where r: "Reader b args = Some r" "rr_ok b (runesOf r)" "rr_left b (runesOf r) = concat ts"
    using Reader_runes [OF b(3) _ b(2) assms] by auto
  from bufrsrc.ReaderToString_reads [OF r(2)] r(3) show ?thesis using b(1) r(1) by (auto simp: ReadAll_def)
qed

theorem ReadAll_roundtrip_witness:
  "\<exists>b r r'. writeTexts NewBuffer [[72, 228], [8364]] = Some b \<and> Reader b [] = Some r \<and>
     ReadAll (runesOf r) = Some ([72, 228, 8364], None, r')"
  using ReadAll_roundtrip [of "[[72, 228], [8364]]" "[]"] by (simp add: valid_rune_def)

end
