(* ===== verification/CodeParsing.thy ===== *)
theory CodeParsing
  imports TemplateParser RuneReader Search
begin

text \<open>
  The code parser of \<open>src/template/code.go\<close>.  It sits on the label parser with the labels
  \<open><%\<close> and \<open>%>\<close>: runes between the labels are code, all others are passive text.  Passive text in
  front of the first code goes to the content buffer; later passive text becomes a \<open>print\<close> of a
  back-quoted string in the code buffer, with \<open>{@x@}\<close> turned into \<open>${x}\<close>.  Inside an element that is
  still open (\<open>noncode\<close>) everything goes to the content buffer as it is.
\<close>

section \<open>Labels\<close>

abbreviation CdePre :: "rune list" where "CdePre \<equiv> [60, 37]"
abbreviation CdePost :: "rune list" where "CdePost \<equiv> [37, 62]"
abbreviation PsvPre :: "rune list" where "PsvPre \<equiv> [123, 64]"
abbreviation PsvPost :: "rune list" where "PsvPost \<equiv> [64, 125]"

section \<open>Inline expressions\<close>

text \<open>
  \<open>processInline\<close> copies a text into the code buffer with the labels of inline expressions
  replaced.  The callback for runes behind the start label writes them twice when it asks for a
  reset.
\<close>

definition inlPut :: "rune list \<Rightarrow> Buffer pst \<Rightarrow> Buffer pst option" where
  "inlPut rns s = do { (n, b) \<leftarrow> WriteRunes (snd s) rns; Some (fst s, b) }"

definition inlPost :: "bool \<Rightarrow> rune list \<Rightarrow> Buffer pst \<Rightarrow> (bool \<times> Buffer pst) option" where
  "inlPost canreset rns s =
     do { s1 \<leftarrow> (if canreset then inlPut rns s else Some s);
          s2 \<leftarrow> inlPut rns s1; Some (canreset, s2) }"

definition inlDone :: "Buffer pst \<Rightarrow> (bool \<times> Buffer pst) option" where
  "inlDone s = do { s1 \<leftarrow> inlPut [125] s; Some (False, s1) }"

definition inlEvents :: "Buffer events" where
  "inlEvents =
     \<lparr>EventCanPreParse = None, EventPreRunes = Some inlPut, EventMatchedPre = Some (inlPut [36, 123]),
      EventCanPostParse = None, EventPostRunes = Some inlPost, EventMatchedPost = Some inlDone\<rparr>"

definition processInline :: "rune list \<Rightarrow> rune list \<Rightarrow> 'i rune_reader \<Rightarrow> 'i \<Rightarrow> Buffer \<Rightarrow> Buffer option" where
  "processInline pre post rd i b =
     do {
       b1 \<leftarrow> (if pre \<noteq> [] then map_option snd (Fprint rd b [PStr pre]) else Some b);
       (i1, p1, b2) \<leftarrow> Process rd inlEvents i (New PsvPre PsvPost False False, b1);
       if post \<noteq> [] then map_option snd (Fprint rd b2 [PStr post]) else Some b2
     }"

section \<open>State of the code parser\<close>

text \<open>
  The fields of \<open>codeparsing\<close>, with the buffer of the content parser it belongs to and that
  parser's answer to \<open>noncode\<close>.  \<open>None\<close> is the nil pointer.  The label parser is the first
  component of the state the callbacks work on.
\<close>

record cdest =
  fndcde :: bool
  hsecde :: bool
  psvbf :: "Buffer option"
  cdebf :: "Buffer option"
  cbf :: "Buffer option"
  noncode :: bool

definition content :: "cdest \<Rightarrow> Buffer" where
  "content c = (case cbf c of Some b \<Rightarrow> b | None \<Rightarrow> NewBuffer)"

definition contentRunes :: "rune list \<Rightarrow> cdest \<Rightarrow> cdest option" where
  "contentRunes rns c = do { (n, b) \<leftarrow> WriteRunes (content c) rns; Some (c\<lparr>cbf := Some b\<rparr>) }"

definition contentFrom :: "Buffer \<Rightarrow> cdest \<Rightarrow> cdest option" where
  "contentFrom b c = do { (t, n, err) \<leftarrow> WriteTo b bufPut (content c); Some (c\<lparr>cbf := Some t\<rparr>) }"

text \<open>Appending runes to a buffer that may not exist yet.\<close>

definition addRunes :: "rune list \<Rightarrow> Buffer option \<Rightarrow> Buffer option option" where
  "addRunes rns b =
     (case b of
        Some b \<Rightarrow> do { (n, b1) \<leftarrow> WriteRunes b rns; Some (Some b1) }
      | None \<Rightarrow> do { b1 \<leftarrow> NewBufferOf strRune [PRunes rns]; Some (Some b1) })"

section \<open>Passive text as code\<close>

definition validLastCdeRune :: "rune \<Rightarrow> bool" where
  "validLastCdeRune cr \<longleftrightarrow> cr \<in> {61, 40, 91, 44, 43, 47, 58}"

text \<open>The reader that first hands back the rune already taken.\<close>

definition againRune :: "(rune \<times> int \<times> mapreader) rune_reader" where
  "againRune x =
     (case x of (r, sz, m) \<Rightarrow>
        if r > 0 then Some ((r, sz, None), (0, sz, m))
        else do { (res, m1) \<leftarrow> ReadRune m; Some (res, (r, sz, m1)) })"

definition PrintOpen :: "rune list" where "PrintOpen = [112, 114, 105, 110, 116, 40, 96]"
definition PrintClose :: "rune list" where "PrintClose = [96, 41, 59]"

text \<open>Printing text, or its inline form, between two strings.\<close>

definition printText :: "bool \<Rightarrow> rune list \<Rightarrow> rune list \<Rightarrow> mapreader \<Rightarrow> Buffer \<Rightarrow> Buffer option" where
  "printText isinline pre post m b =
     (if isinline then processInline pre post ReadRune m b
      else map_option snd (Fprint ReadRune b
        ((if pre \<noteq> [] then [PStr pre] else []) @ [PRdr m] @ (if post \<noteq> [] then [PStr post] else []))))"

definition setAlt :: "Parsing \<Rightarrow> Parsing" where
  "setAlt p = p\<lparr>posttxtprs := map_option (\<lambda>t. t\<lparr>alttxtr := 96\<rparr>) (posttxtprs p)\<rparr>"

definition texttocode :: "bool \<Rightarrow> item list \<Rightarrow> cdest pst \<Rightarrow> cdest pst option" where
  "texttocode isinline txtrdr s =
     (let p = fst s; b = (case cdebf (snd s) of Some b \<Rightarrow> b | None \<Rightarrow> NewBuffer);
          c = (snd s)\<lparr>cdebf := Some b, fndcde := True\<rparr> in
      do {
        lb \<leftarrow> LastByte b [True];
        la \<leftarrow> LastByte b [];
        mr \<leftarrow> MapReplaceReader txtrdr esc_map None None None [];
        (case mr of
           Inr _ \<Rightarrow> None
         | Inl m \<Rightarrow>
             (let lstr = uint lb; isspace = IsSpace (uint la); put = (\<lambda>b. Some (p, c\<lparr>cdebf := Some b\<rparr>)) in
              if IsTxtPar lstr then
                (if lstr \<noteq> 96 \<and> isinline then
                   do {
                     ((r, sz, err), m1) \<leftarrow> ReadRune m;
                     if sz > 0 then
                       do { b1 \<leftarrow> SubBuffer b [0, Size b - 1];
                            b2 \<leftarrow> processInline [96] [] againRune (r, sz, m1) b1;
                            Some (setAlt p, c\<lparr>cdebf := Some b2\<rparr>) }
                     else Some (p, c)
                   }
                 else printText isinline [] [] m b \<bind> put)
              else if validLastCdeRune lstr \<and> (lstr \<noteq> 47 \<or> \<not> isspace) then printText isinline [96] [96] m b \<bind> put
              else printText isinline PrintOpen PrintClose m b \<bind> put))
      })"

text \<open>
  The runes a reader delivers.  The reader over the cloned passive text is used by nobody else,
  so its runes can be taken ahead of the map reader that consumes them.
\<close>

partial_function (option) itemsOf :: "'i rune_reader \<Rightarrow> 'i \<Rightarrow> item list \<Rightarrow> item list option" where
  "itemsOf rd i acc =
     do {
       ((r, sz, err), i1) \<leftarrow> rd i;
       if sz > 0 then itemsOf rd i1 (acc @ [Rn r])
       else (case err of Some e \<Rightarrow> Some (if e = EOF then acc else acc @ [Er e]) | None \<Rightarrow> itemsOf rd i1 acc)
     }"

declare itemsOf.simps [code]

definition flushPsv :: "cdest pst \<Rightarrow> cdest pst option" where
  "flushPsv s =
     (let p = fst s; c = snd s in
      case psvbf c of
        None \<Rightarrow> Some s
      | Some b \<Rightarrow>
          if Empty b then Some s
          else if noncode c then
            do { c1 \<leftarrow> contentFrom b c; Some (p, c1\<lparr>psvbf := Some (Clear b)\<rparr>) }
          else
            do {
              hasPre \<leftarrow> Contains b (encode PsvPre);
              contnsinle \<leftarrow> (if hasPre then Contains b (encode PsvPost) else Some False);
              let c0 = (if \<not> fndcde c \<and> contnsinle then c\<lparr>fndcde := True\<rparr> else c);
              if \<not> fndcde c0 then
                do { c1 \<leftarrow> contentFrom b c0; Some (p, c1\<lparr>psvbf := Some (Clear b)\<rparr>) }
              else
                (let c1 = (if cdebf c0 = None then c0\<lparr>cdebf := Some NewBuffer\<rparr> else c0);
                     (clone, b1) = Clone True b in
                 do {
                   r \<leftarrow> Reader clone [ArgBool True];
                   items \<leftarrow> itemsOf bufrReadRune (runesOf r) [];
                   (p2, c2) \<leftarrow> texttocode contnsinle items (p, c1);
                   Some (p2, c2\<lparr>psvbf := Some (Clear b1)\<rparr>)
                 })
            })"

section \<open>Callbacks\<close>

definition passiveRunes :: "rune list \<Rightarrow> cdest pst \<Rightarrow> cdest pst option" where
  "passiveRunes rns s =
     do { b \<leftarrow> addRunes rns (psvbf (snd s));
          Some (fst s, (snd s)\<lparr>hsecde := False, psvbf := b\<rparr>) }"

definition startCaptureCode :: "cdest pst \<Rightarrow> cdest pst option" where
  "startCaptureCode s =
     (if noncode (snd s) then
        do { (p, c) \<leftarrow> flushPsv s; c1 \<leftarrow> contentRunes (prelbl p) c; Some (p, c1) }
      else Some s)"

definition codeRunes :: "bool \<Rightarrow> rune list \<Rightarrow> cdest pst \<Rightarrow> (bool \<times> cdest pst) option" where
  "codeRunes canreset rns s =
     do {
       (p, c) \<leftarrow>
         (if \<not> hsecde (snd s) then
            do { (p1, c1) \<leftarrow> flushPsv (fst s, (snd s)\<lparr>hsecde := True\<rparr>); Some (p1, c1\<lparr>fndcde := True\<rparr>) }
          else Some s);
       b \<leftarrow> addRunes rns (cdebf c);
       Some (False, (p, c\<lparr>cdebf := b\<rparr>))
     }"

definition doneCaptureCode :: "cdest pst \<Rightarrow> (bool \<times> cdest pst) option" where
  "doneCaptureCode s =
     (let p = fst s; c = snd s in
      if noncode c then
        do {
          c1 \<leftarrow> (case cdebf c of
                    Some b \<Rightarrow> if Empty b then Some c
                              else do { c1 \<leftarrow> contentFrom b c; Some (c1\<lparr>cdebf := Some (Clear b)\<rparr>) }
                  | None \<Rightarrow> Some c);
          c2 \<leftarrow> contentRunes (postlbl p) c1;
          Some (True, (p, c2))
        }
      else Some (True, s))"

definition cdeEvents :: "cdest events" where
  "cdeEvents =
     \<lparr>EventCanPreParse = None, EventPreRunes = Some passiveRunes, EventMatchedPre = Some startCaptureCode,
      EventCanPostParse = None, EventPostRunes = Some codeRunes, EventMatchedPost = Some doneCaptureCode\<rparr>"

definition nextCodeParsing :: "bool \<Rightarrow> bool \<Rightarrow> bool \<Rightarrow> rune list \<Rightarrow> rune list \<Rightarrow> cdest pst" where
  "nextCodeParsing nonc parsepretxt parseposttxt pre post =
     (nextparsing pre post (if parsepretxt then Some newTextparsing else None)
        (if parseposttxt then Some newTextparsing else None),
      \<lparr>fndcde = False, hsecde = False, psvbf = None, cdebf = None, cbf = None, noncode = nonc\<rparr>)"

definition cdeReset :: "cdest pst \<Rightarrow> cdest pst" where
  "cdeReset s =
     (ResetParsing (fst s),
      (snd s)\<lparr>psvbf := map_option Clear (psvbf (snd s)), cdebf := map_option Clear (cdebf (snd s)),
        fndcde := False, hsecde := False\<rparr>)"

definition cdeParse :: "rune list \<Rightarrow> cdest pst \<Rightarrow> cdest pst option" where
  "cdeParse = Parse cdeEvents"

section \<open>Parsing a rune source\<close>

text \<open>A client of the label parser together with a source of runes it is fed from.\<close>

locale template_reader = rune_source rd left inv + template_client ev pre post resets valid_rune ok abs step fpre fopen fpost fclose
  for rd :: "'i rune_reader" and left inv and ev :: "'s events" and pre post resets ok and abs :: "'s \<Rightarrow> 'a" and step
    and fpre fopen fpost fclose
begin

lemma parseReadRune_follows:
  assumes "inv i" "pars_ok pre post valid_rune p" "ok (active p) s"
  shows "\<exists>i' y. parseReadRune rd ev i (p, s) = Some (Some EOF, i', y) \<and> follows s (lex resets (left i) p) (Some y)"
  using assms
proof (induction "left i" arbitrary: i p s)
  case Nil
  then obtain r i' where "rd i = Some ((r, 0, Some EOF), i')" using ended [of i] by auto
  then have "parseReadRune rd ev i (p, s) = Some (Some EOF, i', (p, s))" by (subst parseReadRune.simps) simp
  moreover have "follows s (lex resets (left i) p) (Some (p, s))" unfolding Nil(1) [symmetric] using Nil by (simp add: follows_def)
  ultimately show ?case by blast
next
  case (Cons r rs)
  from more [OF Cons.prems(1) Cons.hyps(2) [symmetric]] obtain i1 where
    i1: "rd i = Some ((r, RuneLen r, None), i1)" "inv i1" "left i1 = rs" by blast
  have v: "valid_rune r" using text_valid [OF Cons.prems(1), of r] Cons.hyps(2) [symmetric] by simp
  obtain p1 es where l1: "lexRune resets r p = (p1, es)" by force
  from Parse_follows [OF Cons.prems(2,3), of "[r]"] v obtain s1 where
    s1: "Parse ev [r] (p, s) = Some (p1, s1)" "follows s (p1, es) (Some (p1, s1))"
    by (auto simp: follows_def l1)
  then have "pars_ok pre post valid_rune p1" "ok (active p1) s1" by (auto simp: follows_def)
  from Cons.hyps(1) [OF _ i1(2) this] i1(3) obtain i' y where
    y: "parseReadRune rd ev i1 (p1, s1) = Some (Some EOF, i', y)" "follows s1 (lex resets rs p1) (Some y)" by auto
  obtain p2 fs where l2: "lex resets rs p1 = (p2, fs)" by force
  have "lex resets (left i) p = (p2, es @ fs)" unfolding Cons.hyps(2) [symmetric] using l1 l2 by simp
  moreover have "parseReadRune rd ev i (p, s) = Some (Some EOF, i', y)"
    using i1(1) s1(1) y(1) RuneLen_pos [OF v] by (subst parseReadRune.simps) simp
  ultimately show ?case using follows_seq [OF s1(2)] y(2) l2 by auto
qed

lemma Process_follows:
  assumes "inv i" "pars_ok pre post valid_rune p" "ok (active p) s"
  shows "\<exists>i' y. Process rd ev i (p, s) = Some (i', y) \<and> follows s (lex resets (left i) p) (Some y)"
  using parseReadRune_follows [OF assms] by (auto simp: Process_def)

end

section \<open>The inline parser\<close>

text \<open>What the events of the inline parser write.\<close>

fun inlRender :: "pevent \<Rightarrow> rune list" where
  "inlRender (Passive rns) = rns"
| "inlRender Opened = [36, 123]"
| "inlRender (Active c rns) = (if c then rns @ rns else rns)"
| "inlRender Closed = [125]"

definition inlStep :: "byte list \<Rightarrow> pevent \<Rightarrow> byte list" where
  "inlStep bs e = bs @ encode (inlRender e)"

lemma foldl_inlStep: "foldl inlStep bs es = bs @ encode (concat (map inlRender es))"
  by (induction es arbitrary: bs) (auto simp: inlStep_def)

lemma inlPut_writes:
  assumes "usable n b" "\<forall>r \<in> set rns. valid_rune r"
  shows "\<exists>b'. inlPut rns (p, b) = Some (p, b') \<and> usable n b' \<and> contents b' = contents b @ encode rns"
  using WriteRunes_usable [OF assms] by (auto simp: inlPut_def)

lemma inlPost_writes:
  assumes "usable n b" "\<forall>r \<in> set rns. valid_rune r"
  shows "\<exists>b'. inlPost c rns (p, b) = Some (c, (p, b')) \<and> usable n b' \<and> contents b' = inlStep (contents b) (Active c rns)"
proof (cases c)
  case True
  obtain b1 where b1: "inlPut rns (p, b) = Some (p, b1)" "usable n b1" "contents b1 = contents b @ encode rns"
    using inlPut_writes [OF assms] by blast
  from inlPut_writes [OF b1(2) assms(2), of p] b1 True show ?thesis by (auto simp: inlPost_def inlStep_def)
next
  case False
  with inlPut_writes [OF assms, of p] show ?thesis by (auto simp: inlPost_def inlStep_def)
qed

interpretation inl: template_client inlEvents PsvPre PsvPost True valid_rune "\<lambda>m. usable n" contents inlStep
    inlPut "inlPut [36, 123]" inlPost inlDone for n
proof
  fix p :: Parsing and s rns
  assume s: "usable n s"
  show "\<forall>r \<in> set rns. valid_rune r \<Longrightarrow>
      \<exists>s'. inlPut rns (p, s) = Some (p, s') \<and> usable n s' \<and> contents s' = inlStep (contents s) (Passive rns)"
    using inlPut_writes [OF s] by (simp add: inlStep_def)
  show "\<exists>s'. inlPut [36, 123] (p, s) = Some (p, s') \<and> usable n s' \<and> contents s' = inlStep (contents s) Opened"
    using inlPut_writes [OF s, of "[36, 123]"] by (simp add: inlStep_def valid_rune_def)
  show "\<forall>r \<in> set rns. valid_rune r \<Longrightarrow> \<exists>s'. inlPost c rns (p, s) = Some (c \<and> True, (p, s')) \<and> usable n s' \<and>
      contents s' = inlStep (contents s) (Active c rns)" for c
    using inlPost_writes [OF s] by simp
  show "\<exists>b s'. inlDone (p, s) = Some (b, (p, s')) \<and> usable n s' \<and> contents s' = inlStep (contents s) Closed"
    using inlPut_writes [OF s, of "[125]" p] by (auto simp: inlDone_def inlStep_def valid_rune_def)
qed (simp_all add: inlEvents_def)

definition inlineText :: "rune list \<Rightarrow> rune list" where
  "inlineText s = concat (map inlRender (snd (lex True s (New PsvPre PsvPost False False))))"

lemma pars_ok_inline: "pars_ok PsvPre PsvPost valid_rune (New PsvPre PsvPost False False)"
  by (simp add: pars_ok_def New_def nextparsing_def txt_opt_ok_def valid_rune_def)

context rune_source
begin

lemma processInline_text:
  assumes "inv i" "usable n b" "\<forall>r \<in> set (pre @ post). valid_rune r"
  shows "\<exists>b'. processInline pre post rd i b = Some b' \<and> usable n b' \<and>
    contents b' = contents b @ encode (pre @ inlineText (left i) @ post)"
proof -
  have pr: "\<exists>b'. (if s \<noteq> [] then map_option snd (Fprint rd b [PStr s]) else Some b) = Some b' \<and> usable n b' \<and>
      contents b' = contents b @ encode s" if "usable n b" "\<forall>r \<in> set s. valid_rune r" for s b
    using Fprint_texts [OF that(1), of "[PStr s]"] that by auto
  obtain b1 where b1: "(if pre \<noteq> [] then map_option snd (Fprint rd b [PStr pre]) else Some b) = Some b1" "usable n b1"
      "contents b1 = contents b @ encode pre" using pr [OF assms(2)] assms(3) by auto
  have tr: "template_reader rd left inv inlEvents PsvPre PsvPost True (\<lambda>m. usable n) contents inlStep inlPut (inlPut [36, 123]) inlPost inlDone"
    by (intro template_reader.intro rune_source_axioms inl.template_client_axioms)
  from template_reader.Process_follows [OF tr assms(1) pars_ok_inline b1(2)] obtain i' y where
    y: "Process rd inlEvents i (New PsvPre PsvPost False False, b1) = Some (i', y)" "usable n (snd y)"
      "contents (snd y) = contents b1 @ encode (inlineText (left i))"
    by (auto simp: inl.follows_def foldl_inlStep inlineText_def)
  from pr [OF y(2), of post] y b1 assms(3) show ?thesis
    by (cases y) (auto simp: processInline_def)
qed

lemma itemsOf_reads: "inv i \<Longrightarrow> itemsOf rd i acc = Some (acc @ map Rn (left i))"
proof (induction "left i" arbitrary: i acc)
  case Nil
  then obtain r i' where "rd i = Some ((r, 0, Some EOF), i')" using ended [of i] by auto
  then show ?case using Nil(1) [symmetric] by (subst itemsOf.simps) simp
next
  case (Cons r rs)
  from more [OF Cons.prems Cons.hyps(2) [symmetric]] obtain i1 where
    i1: "rd i = Some ((r, RuneLen r, None), i1)" "inv i1" "left i1 = rs" by blast
  have "valid_rune r" using text_valid [OF Cons.prems, of r] Cons.hyps(2) [symmetric] by simp
  then show ?case
    using i1 RuneLen_pos Cons.hyps(1) [of i1 "acc @ [Rn r]"] Cons.hyps(2) [symmetric] by (subst itemsOf.simps) simp
qed

end

text \<open>The inline parser fed by the escaping reader, and by the one that hands a rune back.\<close>

interpretation inlesc: template_reader ReadRune esc_left esc_ok inlEvents PsvPre PsvPost True "\<lambda>m. usable n" contents inlStep
    inlPut "inlPut [36, 123]" inlPost inlDone for n
  by unfold_locales

definition again_left :: "rune \<times> int \<times> mapreader \<Rightarrow> rune list" where
  "again_left x = (case x of (r, sz, m) \<Rightarrow> (if r > 0 then [r] else []) @ esc_left m)"

definition again_ok :: "rune \<times> int \<times> mapreader \<Rightarrow> bool" where
  "again_ok x = (case x of (r, sz, m) \<Rightarrow> esc_ok m \<and> (r > 0 \<longrightarrow> valid_rune r \<and> sz = RuneLen r))"

interpretation againsrc: rune_source againRune again_left again_ok
proof
  fix x r rs
  assume x: "again_ok x" and l: "again_left x = r # rs"
  obtain q sz m where q: "x = (q, sz, m)" using prod_cases3 .
  show "\<exists>x'. againRune x = Some ((r, RuneLen r, None), x') \<and> again_ok x' \<and> again_left x' = rs"
    using x l escsrc.more [of m r rs] unfolding q
    by (auto simp: again_ok_def again_left_def againRune_def split: if_splits)
next
  fix x
  assume x: "again_ok x" and l: "again_left x = []"
  obtain q sz m where q: "x = (q, sz, m)" using prod_cases3 .
  show "\<exists>r x'. againRune x = Some ((r, 0, Some EOF), x') \<and> again_ok x' \<and> again_left x' = []"
    using x l escsrc.ended [of m] unfolding q
    by (auto simp: again_ok_def again_left_def againRune_def split: if_splits)
next
  fix x r
  assume "again_ok x" "r \<in> set (again_left x)"
  then show "valid_rune r"
    using escsrc.text_valid by (auto simp: again_ok_def again_left_def split: prod.splits if_splits)
qed

section \<open>What passive text becomes\<close>

text \<open>The last byte of the code, with or without white space at the end.\<close>

definition lastOf :: "(byte \<Rightarrow> bool) \<Rightarrow> byte list \<Rightarrow> byte" where
  "lastOf P bs = (case List.find P (rev bs) of Some x \<Rightarrow> x | None \<Rightarrow> 0)"

abbreviation lastCde :: "byte list \<Rightarrow> rune" where
  "lastCde bs \<equiv> uint (lastOf (\<lambda>x. \<not> IsSpace (uint x)) bs)"

definition inText :: "byte list \<Rightarrow> bool" where
  "inText bs = IsTxtPar (lastCde bs)"

definition inExpr :: "byte list \<Rightarrow> bool" where
  "inExpr bs \<longleftrightarrow> validLastCdeRune (lastCde bs) \<and> (lastCde bs \<noteq> 47 \<or> \<not> IsSpace (uint (lastOf (\<lambda>x. True) bs)))"

definition codeText :: "bool \<Rightarrow> byte list \<Rightarrow> rune list \<Rightarrow> rune list" where
  "codeText isinline bs s =
     (let t = (if isinline then inlineText (esc s) else esc s) in
      if inText bs then t else if inExpr bs then [96] @ t @ [96] else PrintOpen @ t @ PrintClose)"

lemma LastByte_lastOf:
  assumes "lck b"
  shows "LastByte b [True] = Some (lastOf (\<lambda>x. \<not> IsSpace (uint x)) (contents b))" "LastByte b [] = Some (lastOf (\<lambda>x. True) (contents b))"
  using LastByte_find [OF assms] by (simp_all add: lastOf_def)

lemma printText_prints:
  assumes "usable n b" "\<forall>r \<in> set (pre @ s @ post). valid_rune r"
  shows "\<exists>b'. printText isinline pre post (escReader s) b = Some b' \<and> usable n b' \<and>
    contents b' = contents b @ encode (pre @ (if isinline then inlineText (esc s) else esc s) @ post)"
proof (cases isinline)
  case True
  then show ?thesis
    using escsrc.processInline_text [OF escReader_ok(1) assms(1), of s pre post] assms(2) escReader_ok(2) [of s]
    by (simp add: printText_def ball_Un)
next
  case False
  let ?as = "(if pre \<noteq> [] then [PStr pre] else []) @ [PRdr (escReader s)] @ (if post \<noteq> [] then [PStr post] else [])"
  have "\<forall>a \<in> set ?as. escsrc.arg_ok a" "concat (map escsrc.arg_text ?as) = pre @ esc s @ post"
    using assms(2) escReader_ok [of s] by auto
  with escsrc.Fprint_texts [OF assms(1), of ?as] False show ?thesis by (auto simp: printText_def)
qed

text \<open>A buffer that may be nil, as the buffer the code uses in its place.\<close>

definition bufOf :: "Buffer option \<Rightarrow> Buffer" where
  "bufOf b = (case b of Some b \<Rightarrow> b | None \<Rightarrow> NewBuffer)"

lemma bufOf_simps [simp]: "bufOf None = NewBuffer" "bufOf (Some b) = b"
  by (simp_all add: bufOf_def)

lemma texttocode_code:
  assumes "usable n (bufOf (cdebf c))" "\<forall>r \<in> set s. valid_rune r"
    and "isinline \<longrightarrow> inText (contents (bufOf (cdebf c))) \<longrightarrow> lastCde (contents (bufOf (cdebf c))) = 96"
  shows "\<exists>b'. texttocode isinline (map Rn s) (p, c) = Some (p, c\<lparr>fndcde := True, cdebf := Some b'\<rparr>) \<and> usable n b' \<and>
    contents b' = contents (bufOf (cdebf c)) @ encode (codeText isinline (contents (bufOf (cdebf c))) s)"
proof -
  let ?b = "bufOf (cdebf c)"
  have lck: "lck ?b" using assms(1) by (simp add: usable_def)
  have tc: "texttocode isinline (map Rn s) (p, c) =
      (if inText (contents ?b) then printText isinline [] [] (escReader s) ?b
       else if inExpr (contents ?b) then printText isinline [96] [96] (escReader s) ?b
       else printText isinline PrintOpen PrintClose (escReader s) ?b)
      \<bind> (\<lambda>b. Some (p, c\<lparr>fndcde := True, cdebf := Some b\<rparr>))"
    using assms(3) unfolding texttocode_def bufOf_def [symmetric] fst_conv snd_conv Let_def LastByte_lastOf [OF lck]
      escReader_MapReplaceReader by (auto simp: inText_def inExpr_def)
  have v: "\<forall>r \<in> set (pre @ s @ post). valid_rune r" if "\<forall>r \<in> set (pre @ post). valid_rune r" for pre post
    using assms(2) that by auto
  have "\<forall>r \<in> set (PrintOpen @ PrintClose). valid_rune r" by (simp add: PrintOpen_def PrintClose_def valid_rune_def)
  then show ?thesis
    unfolding tc
    using printText_prints [OF assms(1) v, of "[]" "[]" isinline] printText_prints [OF assms(1) v, of "[96]" "[96]" isinline]
      printText_prints [OF assms(1) v, of PrintOpen PrintClose isinline]
    by (auto simp: codeText_def Let_def valid_rune_def)
qed

section \<open>Buffers that hold text\<close>

definition textOf :: "Buffer option \<Rightarrow> rune list" where
  "textOf b = decode_all (contents (bufOf b))"

definition txtbuf :: "Buffer option \<Rightarrow> bool" where
  "txtbuf b \<longleftrightarrow> usable 8192 (bufOf b) \<and> contents (bufOf b) = encode (textOf b) \<and> (\<forall>r \<in> set (textOf b). valid_rune r)"

lemma txtbufI:
  assumes "usable 8192 (bufOf b)" "contents (bufOf b) = encode rs" "\<forall>r \<in> set rs. valid_rune r"
  shows "txtbuf b" "textOf b = rs"
  using assms by (simp_all add: txtbuf_def textOf_def decode_all_encode)

lemma txtbuf_None [simp]: "txtbuf None" "textOf None = []"
  using txtbufI [of None "[]"] by simp_all

lemma txtbuf_append:
  assumes "txtbuf b" "usable 8192 b'" "contents b' = contents (bufOf b) @ encode rs" "\<forall>r \<in> set rs. valid_rune r"
  shows "txtbuf (Some b')" "textOf (Some b') = textOf b @ rs"
proof -
  have "\<forall>r \<in> set (textOf b @ rs). valid_rune r" "contents b' = encode (textOf b @ rs)" using assms by (auto simp: txtbuf_def)
  with txtbufI [of "Some b'" "textOf b @ rs"] assms(2) show "txtbuf (Some b')" "textOf (Some b') = textOf b @ rs" by auto
qed

lemma txtbuf_Clear:
  assumes "txtbuf (Some b)"
  shows "txtbuf (Some (Clear b))" "textOf (Some (Clear b)) = []"
  using txtbufI [of "Some (Clear b)" "[]"] Clear_usable [of 8192 b] assms by (auto simp: txtbuf_def)

lemma txtbuf_Empty: "txtbuf (Some b) \<Longrightarrow> Empty b \<longleftrightarrow> textOf (Some b) = []"
  using Empty_contents [of b] by (cases "textOf (Some b)") (auto simp: txtbuf_def usable_def)

lemma addRunes_adds:
  assumes "txtbuf b" "\<forall>r \<in> set rns. valid_rune r"
  shows "\<exists>b'. addRunes rns b = Some b' \<and> txtbuf b' \<and> textOf b' = textOf b @ rns"
proof (cases b)
  case None
  obtain b' where "NewBufferOf strRune [PRunes rns] = Some b'" "usable 8192 b'" "contents b' = encode rns"
    using strsrc.Fprint_texts [OF usable_NewBuffer, of "[PRunes rns]"] assms(2) by (auto simp: NewBufferOf_def)
  then show ?thesis using None txtbuf_append [of None b' rns] assms by (auto simp: addRunes_def)
next
  case (Some x)
  then obtain b' where "WriteRunes x rns = Some (length rns, b')" "usable 8192 b'" "contents b' = contents x @ encode rns"
    using WriteRunes_usable [of 8192 x rns] assms by (auto simp: txtbuf_def)
  then show ?thesis using Some txtbuf_append [of b b' rns] assms by (auto simp: addRunes_def)
qed

lemma content_bufOf: "content c = bufOf (cbf c)"
  by (simp add: content_def bufOf_def)

lemma contentRunes_adds:
  assumes "txtbuf (cbf c)" "\<forall>r \<in> set rns. valid_rune r"
  shows "\<exists>b. contentRunes rns c = Some (c\<lparr>cbf := b\<rparr>) \<and> txtbuf b \<and> textOf b = textOf (cbf c) @ rns"
proof -
  have "usable 8192 (content c)" using assms(1) by (simp add: txtbuf_def content_bufOf)
  from WriteRunes_usable [OF this assms(2)] obtain b where
    "WriteRunes (content c) rns = Some (length rns, b)" "contents b = contents (content c) @ encode rns" "usable 8192 b" by blast
  then show ?thesis using txtbuf_append [OF assms(1) _ _ assms(2), of b] by (auto simp: contentRunes_def content_bufOf)
qed

lemma contentFrom_adds:
  assumes "txtbuf (cbf c)" "txtbuf (Some x)"
  shows "\<exists>b. contentFrom x c = Some (c\<lparr>cbf := b\<rparr>) \<and> txtbuf b \<and> textOf b = textOf (cbf c) @ textOf (Some x)"
proof -
  have u: "usable 8192 x" "usable 8192 (content c)" using assms by (simp_all add: txtbuf_def content_bufOf)
  from WriteTo_usable [OF u] obtain b where
    "WriteTo x bufPut (content c) = Some (b, Size x, None)" "contents b = contents (content c) @ contents x" "usable 8192 b" by blast
  then show ?thesis
    using txtbuf_append [OF assms(1), of b "textOf (Some x)"] assms(2) by (auto simp: contentFrom_def content_bufOf txtbuf_def)
qed

section \<open>Inside an open element\<close>

text \<open>
  Inside an open element the code parser is transparent: its three buffers, in the order content,
  passive text, code, hold the text read so far.  Between the labels no passive text is waiting,
  outside them no code is.
\<close>

definition verb_ok :: "bool \<Rightarrow> cdest \<Rightarrow> bool" where
  "verb_ok m c \<longleftrightarrow> noncode c \<and> txtbuf (cbf c) \<and> txtbuf (psvbf c) \<and> txtbuf (cdebf c) \<and>
     (if m then textOf (psvbf c) = [] else textOf (cdebf c) = [])"

definition verb_text :: "cdest \<Rightarrow> rune list" where
  "verb_text c = textOf (cbf c) @ textOf (psvbf c) @ textOf (cdebf c)"

definition verbStep :: "rune list \<Rightarrow> pevent \<Rightarrow> rune list" where
  "verbStep t e = t @ render CdePre CdePost e"

lemma foldl_verbStep: "foldl verbStep t es = t @ concat (map (render CdePre CdePost) es)"
  by (induction es arbitrary: t) (auto simp: verbStep_def)

lemma flushPsv_nothing:
  assumes "txtbuf (psvbf c)" "textOf (psvbf c) = []"
  shows "flushPsv (p, c) = Some (p, c)"
  using assms txtbuf_Empty by (cases "psvbf c") (simp_all add: flushPsv_def)

lemma flushPsv_noncode:
  assumes "noncode c" "txtbuf (cbf c)" "txtbuf (psvbf c)"
  shows "\<exists>x y. flushPsv (p, c) = Some (p, c\<lparr>cbf := x, psvbf := y\<rparr>) \<and> txtbuf x \<and> txtbuf y \<and> textOf y = [] \<and>
    textOf x = textOf (cbf c) @ textOf (psvbf c)"
proof (cases "textOf (psvbf c) = []")
  case True
  then show ?thesis using flushPsv_nothing [OF assms(3) True] assms by (intro exI [of _ "cbf c"] exI [of _ "psvbf c"]) simp
next
  case False
  then obtain b where b: "psvbf c = Some b" "\<not> Empty b" using assms(3) txtbuf_Empty by (cases "psvbf c") auto
  from contentFrom_adds [OF assms(2), of b] assms(3) b(1) obtain x where
    "contentFrom b c = Some (c\<lparr>cbf := x\<rparr>)" "txtbuf x" "textOf x = textOf (cbf c) @ textOf (Some b)" by auto
  with b assms txtbuf_Clear [of b] show ?thesis
    by (intro exI [of _ x] exI [of _ "Some (Clear b)"]) (simp add: flushPsv_def)
qed

lemma verb_passive:
  assumes "verb_ok False c" "\<forall>r \<in> set rns. valid_rune r"
  shows "\<exists>c'. passiveRunes rns (p, c) = Some (p, c') \<and> verb_ok False c' \<and> verb_text c' = verbStep (verb_text c) (Passive rns)"
  using addRunes_adds [of "psvbf c" rns] assms
  by (auto simp: passiveRunes_def verb_ok_def verb_text_def verbStep_def)

lemma verb_opened:
  assumes "verb_ok False c" "prelbl p = CdePre"
  shows "\<exists>c'. startCaptureCode (p, c) = Some (p, c') \<and> verb_ok True c' \<and> verb_text c' = verbStep (verb_text c) Opened"
proof -
  obtain x y where f: "flushPsv (p, c) = Some (p, c\<lparr>cbf := x, psvbf := y\<rparr>)" "txtbuf x" "txtbuf y" "textOf y = []"
      "textOf x = textOf (cbf c) @ textOf (psvbf c)"
    using flushPsv_noncode [of c p] assms(1) by (auto simp: verb_ok_def)
  from contentRunes_adds [of "c\<lparr>cbf := x, psvbf := y\<rparr>" CdePre] f(2) obtain z where
    "contentRunes CdePre (c\<lparr>cbf := x, psvbf := y\<rparr>) = Some (c\<lparr>psvbf := y, cbf := z\<rparr>)" "txtbuf z" "textOf z = textOf x @ CdePre"
    by (auto simp: valid_rune_def)
  with f assms show ?thesis by (auto simp: startCaptureCode_def verb_ok_def verb_text_def verbStep_def)
qed

lemma verb_active:
  assumes "verb_ok True c" "\<forall>r \<in> set rns. valid_rune r"
  shows "\<exists>c'. codeRunes b rns (p, c) = Some (False, (p, c')) \<and> verb_ok True c' \<and> verb_text c' = verbStep (verb_text c) (Active b rns)"
proof -
  have "flushPsv (p, c\<lparr>hsecde := True\<rparr>) = Some (p, c\<lparr>hsecde := True\<rparr>)"
    using assms(1) by (intro flushPsv_nothing) (auto simp: verb_ok_def)
  with addRunes_adds [of "cdebf c" rns] assms show ?thesis
    by (auto simp: codeRunes_def verb_ok_def verb_text_def verbStep_def)
qed

lemma verb_closed:
  assumes "verb_ok True c" "postlbl p = CdePost"
  shows "\<exists>c'. doneCaptureCode (p, c) = Some (True, (p, c')) \<and> verb_ok False c' \<and> verb_text c' = verbStep (verb_text c) Closed"
proof -
  let ?move = "case cdebf c of Some b \<Rightarrow> if Empty b then Some c
      else do { c1 \<leftarrow> contentFrom b c; Some (c1\<lparr>cdebf := Some (Clear b)\<rparr>) } | None \<Rightarrow> Some c"
  have "\<exists>x y. ?move = Some (c\<lparr>cbf := x, cdebf := y\<rparr>) \<and> txtbuf x \<and> txtbuf y \<and> textOf y = [] \<and> textOf x = textOf (cbf c) @ textOf (cdebf c)"
  proof (cases "textOf (cdebf c) = []")
    case True
    then have "?move = Some c" using assms(1) txtbuf_Empty by (auto simp: verb_ok_def split: option.splits)
    then show ?thesis using True assms(1) by (intro exI [of _ "cbf c"] exI [of _ "cdebf c"]) (simp add: verb_ok_def)
  next
    case False
    then obtain b where b: "cdebf c = Some b" "\<not> Empty b" using assms(1) txtbuf_Empty by (cases "cdebf c") (auto simp: verb_ok_def)
    then have "txtbuf (cbf c)" "txtbuf (Some b)" using assms(1) by (auto simp: verb_ok_def)
    with contentFrom_adds [of c b] txtbuf_Clear [of b] obtain x where
      "contentFrom b c = Some (c\<lparr>cbf := x\<rparr>)" "txtbuf x" "textOf x = textOf (cbf c) @ textOf (Some b)"
      "txtbuf (Some (Clear b))" "textOf (Some (Clear b)) = []" by blast
    with b show ?thesis by (intro exI [of _ x] exI [of _ "Some (Clear b)"]) simp
  qed
  then obtain x y where m: "?move = Some (c\<lparr>cbf := x, cdebf := y\<rparr>)" "txtbuf x" "txtbuf y" "textOf y = []"
    "textOf x = textOf (cbf c) @ textOf (cdebf c)" by blast
  from contentRunes_adds [of "c\<lparr>cbf := x, cdebf := y\<rparr>" CdePost] m(2) obtain z where
    z: "contentRunes CdePost (c\<lparr>cbf := x, cdebf := y\<rparr>) = Some (c\<lparr>cdebf := y, cbf := z\<rparr>)" "txtbuf z" "textOf z = textOf x @ CdePost"
    by (auto simp: valid_rune_def)
  have "doneCaptureCode (p, c) = Some (True, (p, c\<lparr>cdebf := y, cbf := z\<rparr>))"
    unfolding doneCaptureCode_def Let_def fst_conv snd_conv m(1) using assms z(1) by (simp add: verb_ok_def)
  with m z assms show ?thesis by (auto simp: verb_ok_def verb_text_def verbStep_def)
qed

interpretation verb: template_client cdeEvents CdePre CdePost False valid_rune verb_ok verb_text verbStep
    passiveRunes startCaptureCode codeRunes doneCaptureCode
  by unfold_locales (simp_all add: cdeEvents_def verb_passive verb_opened verb_active, blast dest: verb_closed)

section \<open>Specification of the code parser\<close>

text \<open>
  Outside elements the code parser is specified on rune lists: what waits as passive text, the
  code, the content, and whether code has been found and is being read.
\<close>

record acode =
  t_fnd :: bool
  t_hse :: bool
  t_psv :: "rune list"
  t_cde :: "rune list"
  t_cnt :: "rune list"

definition hasInline :: "rune list \<Rightarrow> bool" where
  "hasInline s \<longleftrightarrow> sublist (encode PsvPre) (encode s) \<and> sublist (encode PsvPost) (encode s)"

definition flushSpec :: "acode \<Rightarrow> acode" where
  "flushSpec a =
     (if t_psv a = [] then a
      else if t_fnd a \<or> hasInline (t_psv a) then
        a\<lparr>t_fnd := True, t_cde := t_cde a @ codeText (hasInline (t_psv a)) (encode (t_cde a)) (t_psv a), t_psv := []\<rparr>
      else a\<lparr>t_cnt := t_cnt a @ t_psv a, t_psv := []\<rparr>)"

fun cdeStep :: "acode \<Rightarrow> pevent \<Rightarrow> acode" where
  "cdeStep a (Passive rns) = a\<lparr>t_hse := False, t_psv := t_psv a @ rns\<rparr>"
| "cdeStep a Opened = a"
| "cdeStep a (Active c rns) =
     (let a1 = (if t_hse a then a else (flushSpec (a\<lparr>t_hse := True\<rparr>))\<lparr>t_fnd := True\<rparr>) in
      a1\<lparr>t_cde := t_cde a1 @ rns\<rparr>)"
| "cdeStep a Closed = a"

definition view :: "cdest \<Rightarrow> acode" where
  "view c = \<lparr>t_fnd = fndcde c, t_hse = hsecde c, t_psv = textOf (psvbf c), t_cde = textOf (cdebf c), t_cnt = textOf (cbf c)\<rparr>"

text \<open>
  Where an inline expression follows code that ends in a quote, the code parser cuts the quote
  off and changes the label parser.  The refinement leaves this case out: either the text has no
  at sign, hence no inline expression, or it has no single and double quotes.
\<close>

definition tame :: "bool \<Rightarrow> rune \<Rightarrow> bool" where
  "tame q r \<longleftrightarrow> valid_rune r \<and> (if q then r \<noteq> 64 else r \<noteq> 34 \<and> r \<noteq> 39)"

definition run_ok :: "bool \<Rightarrow> bool \<Rightarrow> cdest \<Rightarrow> bool" where
  "run_ok q m c \<longleftrightarrow> \<not> noncode c \<and> txtbuf (cbf c) \<and> txtbuf (psvbf c) \<and> txtbuf (cdebf c) \<and>
     (\<forall>r \<in> set (textOf (psvbf c)) \<union> set (textOf (cdebf c)). tame q r)"

lemma ascii_EncodeRune:
  assumes "valid_rune r" "x \<in> set (EncodeRune r)" "uint x < 128"
  shows "r = uint x"
proof -
  have big: "\<not> uint (word_of_int k :: byte) < 128" if "128 \<le> k" "k < 256" for k
    using that by (simp add: uint_word_of_int take_bit_eq_mod)
  have "0 \<le> r" "r \<le> 1114111" using assms(1) by (auto simp: valid_rune_def)
  then show ?thesis
    using assms(2,3) big [of "192 + r div 64"] big [of "128 + r mod 64"] big [of "224 + r div 4096"] big [of "128 + r div 64 mod 64"]
      big [of "240 + r div 262144"] big [of "128 + r div 4096 mod 64"]
    by (auto simp: EncodeRune_valid [OF assms(1)] utf8_bytes_def uint_word_of_int take_bit_eq_mod split: if_splits)
qed

lemma ascii_encode:
  "\<forall>r \<in> set rs. valid_rune r \<Longrightarrow> x \<in> set (encode rs) \<Longrightarrow> uint x < 128 \<Longrightarrow> uint x \<in> set rs"
  by (induction rs) (auto dest: ascii_EncodeRune)

lemma esc_set: "set (esc s) \<subseteq> set s \<union> {92, 96, 36, 123}"
  by (induction s rule: esc.induct) auto

lemma lexRune_runes:
  assumes "pretxtprs p = None" "posttxtprs p = None" "lexRune c r p = (p', es)"
  shows "pretxtprs p' = None \<and> posttxtprs p' = None \<and> prelbl p' = prelbl p \<and> postlbl p' = postlbl p \<and>
    (\<forall>e \<in> set es. set (inlRender e) \<subseteq> {r, 36, 123, 125} \<union> set (prelbl p) \<union> set (postlbl p))"
proof -
  have l: "pretxtprs p' = None \<and> posttxtprs p' = None \<and> prelbl p' = prelbl q \<and> postlbl p' = postlbl q \<and>
      (\<forall>e \<in> set es. set (inlRender e) \<subseteq> {r, 36, 123, 125} \<union> set (prelbl q) \<union> set (postlbl q))"
    if "lexPre r q = (p', es)" "pretxtprs q = None" "posttxtprs q = None" for q p' es
    using that by (auto simp: lexPre_def txtParseOpt_def lexLabel_def Let_def dest!: in_set_takeD split: if_splits)
  have "lexPost c r p = (p', es) \<Longrightarrow> ?thesis"
    using assms l [of "ResetParsing (p\<lparr>posttxtprs := None\<rparr>)" p'] by (auto simp: lexPost_def txtParseOpt_def Let_def ResetParsing_def dest!: in_set_takeD split: if_splits prod.splits)
  then show ?thesis using assms l [of p p' es] by (auto simp: lexRune_def split: if_splits)
qed

lemma lex_runes:
  assumes "pretxtprs p = None" "posttxtprs p = None" "lex c rs p = (p', es)" "e \<in> set es"
  shows "set (inlRender e) \<subseteq> set rs \<union> {36, 123, 125} \<union> set (prelbl p) \<union> set (postlbl p)"
  using assms
proof (induction rs arbitrary: p es)
  case (Cons r rs)
  obtain p1 fs where l1: "lexRune c r p = (p1, fs)" by force
  obtain gs where l2: "lex c rs p1 = (p', gs)" "es = fs @ gs" using Cons.prems(3) l1 by (auto split: prod.splits)
  note h = lexRune_runes [OF Cons.prems(1,2) l1]
  show ?case
  proof (cases "e \<in> set fs")
    case True
    then show ?thesis using h by auto
  next
    case False
    then have "set (inlRender e) \<subseteq> set rs \<union> {36, 123, 125} \<union> set (prelbl p1) \<union> set (postlbl p1)"
      using Cons.IH [OF _ _ l2(1)] Cons.prems(4) l2(2) h by auto
    then show ?thesis using h by auto
  qed
qed simp

lemma inlineText_set: "set (inlineText s) \<subseteq> set s \<union> {36, 64, 123, 125}"
proof -
  obtain p' es where l: "lex True s (New PsvPre PsvPost False False) = (p', es)" by force
  have "set (inlRender e) \<subseteq> set s \<union> {36, 64, 123, 125}" if "e \<in> set es" for e
    using lex_runes [OF _ _ l that] by (auto simp: New_def nextparsing_def)
  then show ?thesis unfolding inlineText_def l by auto
qed

text \<open>What passive text becomes is tame again.\<close>

lemma codeText_tame:
  assumes "\<forall>r \<in> set s. tame q r" "q \<longrightarrow> \<not> isinline" "r \<in> set (codeText isinline bs s)"
  shows "tame q r"
proof -
  have "set (codeText isinline bs s) \<subseteq> set s \<union> {92, 96, 36, 123} \<union> (if isinline then {64, 125} else {}) \<union> set PrintOpen \<union> set PrintClose"
    using esc_set [of s] inlineText_set [of "esc s"] by (auto simp: codeText_def Let_def PrintOpen_def split: if_splits)
  then show ?thesis
    using assms by (auto simp: tame_def valid_rune_def PrintOpen_def PrintClose_def split: if_splits)
qed

section \<open>The code parser implements its specification\<close>

lemma Clone_usable:
  assumes "usable 8192 b"
  shows "usable 8192 (fst (Clone c b))" "usable 8192 (snd (Clone c b))"
  using assms Clear_usable [of 8192 "b\<lparr>buffer := []\<rparr>"] Clear_usable [OF assms]
  by (auto simp: usable_def Clone_def Let_def NewBuffer_def buf_inv_def min_def)

lemma Contains_text:
  assumes "txtbuf (Some b)" "t \<noteq> []" "lead_unique (encode t)"
  shows "Contains b (encode t) = Some (sublist (encode t) (encode (textOf (Some b))))"
  using internalContainsBytes_contained [of b "encode t"] assms
  by (cases t) (auto simp: Contains_def ContainsBytes_def searchable_def txtbuf_def usable_def)

lemma psv_labels: "lead_unique (encode PsvPre)" "lead_unique (encode PsvPost)"
  by (simp_all add: lead_unique_def EncodeRune_def valid_rune_def utf8_bytes_def)

lemma tame_plain:
  assumes "\<forall>r \<in> set s. tame True r"
  shows "\<not> hasInline s"
proof
  assume "hasInline s"
  then have "(64 :: byte) \<in> set (encode s)"
    using set_mono_sublist [of "encode PsvPre" "encode s"]
    by (auto simp: hasInline_def EncodeRune_def valid_rune_def utf8_bytes_def)
  then have "uint (64 :: byte) \<in> set s" using assms by (intro ascii_encode) (auto simp: tame_def)
  then show False using assms by (auto simp: tame_def)
qed

lemma tame_quote:
  assumes "\<forall>r \<in> set s. tame False r" "inText (encode s)"
  shows "lastCde (encode s) = 96"
proof (rule ccontr)
  assume no: "lastCde (encode s) \<noteq> 96"
  let ?P = "\<lambda>x :: byte. \<not> IsSpace (uint x)"
  have l: "lastCde (encode s) = 34 \<or> lastCde (encode s) = 39" using assms(2) no by (auto simp: inText_def IsTxtPar_def)
  have "lastOf ?P (encode s) \<in> set (encode s)"
  proof (cases "List.find ?P (rev (encode s))")
    case None
    then show ?thesis using l by (simp add: lastOf_def)
  next
    case (Some x)
    then have "x \<in> set (rev (encode s))" unfolding find_Some_iff by (metis nth_mem)
    with Some show ?thesis by (simp add: lastOf_def)
  qed
  then have "lastCde (encode s) \<in> set s" using l assms(1) by (intro ascii_encode) (auto simp: tame_def)
  with l assms(1) show False by (auto simp: tame_def)
qed

text \<open>The reader over the cloned text delivers that text.\<close>

lemma clone_items:
  assumes "txtbuf (Some b)" "textOf (Some b) \<noteq> []"
  shows "\<exists>r. Reader (fst (Clone True b)) [ArgBool True] = Some r \<and>
    itemsOf bufrReadRune (runesOf r) [] = Some (map Rn (textOf (Some b)))"
proof -
  let ?k = "fst (Clone True b)"
  have b: "usable 8192 b" "\<forall>r \<in> set (textOf (Some b)). valid_rune r" using assms(1) by (auto simp: txtbuf_def)
  then have "contents ?k = contents b" using Clone_contents(1) [of b True] by (simp add: usable_def)
  then have "contents ?k = encode (textOf (Some b))" using assms(1) by (simp add: txtbuf_def)
  moreover have "buf_inv ?k" "2 \<le> length (bytes ?k)" using Clone_usable(1) [OF b(1), of True] by (auto simp: usable_def)
  ultimately obtain r where "Reader ?k [ArgBool True] = Some r" "rr_ok ?k (runesOf r)" "rr_left ?k (runesOf r) = textOf (Some b)"
    using Reader_runes [of ?k "textOf (Some b)" "[ArgBool True]"] b(2) assms(2) by auto
  then show ?thesis using bufrsrc.itemsOf_reads [of ?k "runesOf r" "[]"] by auto
qed

lemma flushPsv_code:
  assumes ok: "run_ok q m c" and psv: "psvbf c = Some b" "textOf (Some b) \<noteq> []"
    and fnd: "fndcde c \<or> hasInline (textOf (Some b))"
  shows "\<exists>x y. flushPsv (p, c) = Some (p, c\<lparr>fndcde := True, cdebf := x, psvbf := y\<rparr>) \<and> txtbuf x \<and> txtbuf y \<and> textOf y = [] \<and>
    textOf x = textOf (cdebf c) @ codeText (hasInline (textOf (Some b))) (encode (textOf (cdebf c))) (textOf (Some b))"
proof -
  let ?s = "textOf (Some b)" and ?inl = "hasInline (textOf (Some b))" and ?d = "bufOf (cdebf c)"
  have b: "txtbuf (Some b)" "usable 8192 b" "\<not> Empty b" "txtbuf (cdebf c)" "\<not> noncode c" "\<forall>r \<in> set ?s. tame q r"
      "\<forall>r \<in> set (textOf (cdebf c)). tame q r"
    using ok psv txtbuf_Empty [of b] by (auto simp: run_ok_def txtbuf_def)
  have d: "usable 8192 ?d" "contents ?d = encode (textOf (cdebf c))" using b(4) by (simp_all add: txtbuf_def)
  have ni: "q \<longrightarrow> \<not> ?inl" using tame_plain b(6) by (cases q) auto
  have quote: "?inl \<longrightarrow> inText (contents ?d) \<longrightarrow> lastCde (contents ?d) = 96"
    unfolding d(2) using ni tame_quote b(7) by (cases q) auto
  from clone_items [OF b(1) psv(2)] obtain r where
    r: "Reader (fst (Clone True b)) [ArgBool True] = Some r" "itemsOf bufrReadRune (runesOf r) [] = Some (map Rn ?s)" by blast
  define c1 where "c1 = (let c0 = (if \<not> fndcde c \<and> ?inl then c\<lparr>fndcde := True\<rparr> else c) in
    if cdebf c0 = None then c0\<lparr>cdebf := Some NewBuffer\<rparr> else c0)"
  have c1: "bufOf (cdebf c1) = ?d" "c1\<lparr>fndcde := True, cdebf := Some x, psvbf := y\<rparr> = c\<lparr>fndcde := True, cdebf := Some x, psvbf := y\<rparr>" for x y
    by (auto simp: c1_def Let_def)
  have sv: "\<forall>r \<in> set ?s. valid_rune r" using b(6) by (auto simp: tame_def)
  from texttocode_code [of 8192 c1 ?s ?inl p] d(1) quote sv obtain x where
    x: "texttocode ?inl (map Rn ?s) (p, c1) = Some (p, c1\<lparr>fndcde := True, cdebf := Some x\<rparr>)" "usable 8192 x"
      "contents x = contents ?d @ encode (codeText ?inl (contents ?d) ?s)"
    unfolding c1(1) by blast
  have "\<forall>r \<in> set (codeText ?inl (contents ?d) ?s). valid_rune r"
    using codeText_tame [OF b(6) ni] by (auto simp: tame_def)
  note tx = txtbuf_append [OF b(4) x(2,3) this]
  let ?y = "Some (Clear (snd (Clone True b)))"
  have y: "txtbuf ?y" "textOf ?y = []"
    using Clear_usable [OF Clone_usable(2) [OF b(2)], of True] txtbufI [of ?y "[]"] by auto
  have cont: "Contains b (encode PsvPre) = Some h \<and> (if h then Contains b (encode PsvPost) else Some False) = Some ?inl"
    if "h = sublist (encode PsvPre) (encode ?s)" for h
    using Contains_text [OF b(1) _ psv_labels(1)] Contains_text [OF b(1) _ psv_labels(2)] that by (simp add: hasInline_def)
  have "flushPsv (p, c) = do { (p2, c2) \<leftarrow> texttocode ?inl (map Rn ?s) (p, c1); Some (p2, c2\<lparr>psvbf := ?y\<rparr>) }"
    unfolding flushPsv_def Let_def fst_conv snd_conv psv(1) option.case cont [OF refl, THEN conjunct1] cont [OF refl, THEN conjunct2] bind.bind_lunit
    using b(3,5) fnd r by (cases "Clone True b") (auto simp: c1_def Let_def)
  then have "flushPsv (p, c) = Some (p, c\<lparr>fndcde := True, cdebf := Some x, psvbf := ?y\<rparr>)" using x(1) c1(2) by simp
  with tx y show ?thesis unfolding d(2) by blast
qed

lemma flushPsv_content:
  assumes ok: "run_ok q m c" and psv: "psvbf c = Some b" "textOf (Some b) \<noteq> []"
    and fnd: "\<not> fndcde c" "\<not> hasInline (textOf (Some b))"
  shows "\<exists>x y. flushPsv (p, c) = Some (p, c\<lparr>cbf := x, psvbf := y\<rparr>) \<and> txtbuf x \<and> txtbuf y \<and> textOf y = [] \<and>
    textOf x = textOf (cbf c) @ textOf (Some b)"
proof -
  have b: "txtbuf (Some b)" "txtbuf (cbf c)" "\<not> noncode c" "\<not> Empty b"
    using ok psv txtbuf_Empty [of b] by (auto simp: run_ok_def)
  have cont: "Contains b (encode PsvPre) = Some h \<and> (if h then Contains b (encode PsvPost) else Some False) = Some False"
    if "h = sublist (encode PsvPre) (encode (textOf (Some b)))" for h
    using Contains_text [OF b(1) _ psv_labels(1)] Contains_text [OF b(1) _ psv_labels(2)] that fnd(2) by (simp add: hasInline_def)
  from contentFrom_adds [OF b(2,1)] obtain x where
    x: "contentFrom b c = Some (c\<lparr>cbf := x\<rparr>)" "txtbuf x" "textOf x = textOf (cbf c) @ textOf (Some b)" by blast
  have "flushPsv (p, c) = Some (p, c\<lparr>cbf := x, psvbf := Some (Clear b)\<rparr>)"
    unfolding flushPsv_def Let_def fst_conv snd_conv psv(1) option.case cont [OF refl, THEN conjunct1] cont [OF refl, THEN conjunct2] bind.bind_lunit
    using b(3,4) fnd(1) x(1) by simp
  with x(2,3) txtbuf_Clear [OF b(1)] show ?thesis by blast
qed

lemma flushPsv_spec:
  assumes ok: "run_ok q m c"
  shows "\<exists>c'. flushPsv (p, c) = Some (p, c') \<and> run_ok q m c' \<and> view c' = flushSpec (view c)"
proof (cases "textOf (psvbf c) = []")
  case True
  then have "flushPsv (p, c) = Some (p, c)" "flushSpec (view c) = view c"
    using ok by (auto simp: run_ok_def flushSpec_def view_def intro: flushPsv_nothing)
  then show ?thesis using ok by auto
next
  case False
  then obtain b where b: "psvbf c = Some b" "textOf (Some b) \<noteq> []" by (cases "psvbf c") auto
  let ?s = "textOf (Some b)"
  have t: "\<forall>r \<in> set ?s. tame q r" "\<forall>r \<in> set (textOf (cdebf c)). tame q r" using ok b by (auto simp: run_ok_def)
  then have ni: "q \<longrightarrow> \<not> hasInline ?s" using tame_plain by (cases q) auto
  show ?thesis
  proof (cases "fndcde c \<or> hasInline ?s")
    case True
    from flushPsv_code [OF ok b True, of p] obtain x y where
      f: "flushPsv (p, c) = Some (p, c\<lparr>fndcde := True, cdebf := x, psvbf := y\<rparr>)" "txtbuf x" "txtbuf y" "textOf y = []"
        "textOf x = textOf (cdebf c) @ codeText (hasInline ?s) (encode (textOf (cdebf c))) ?s" by blast
    have "run_ok q m (c\<lparr>fndcde := True, cdebf := x, psvbf := y\<rparr>)"
      using ok f codeText_tame [OF t(1) ni] t(2) by (auto simp: run_ok_def)
    then show ?thesis using f b True by (auto simp: view_def flushSpec_def)
  next
    case False
    with flushPsv_content [OF ok b, of p] ok b show ?thesis
      by (fastforce simp: view_def flushSpec_def run_ok_def)
  qed
qed

lemma tame_set: "(\<forall>r \<in> set rs. tame q r) \<Longrightarrow> \<forall>r \<in> set rs. valid_rune r"
  by (auto simp: tame_def)

lemma run_passive:
  assumes "run_ok q m c" "\<forall>r \<in> set rns. tame q r"
  shows "\<exists>c'. passiveRunes rns (p, c) = Some (p, c') \<and> run_ok q m c' \<and> view c' = cdeStep (view c) (Passive rns)"
  using addRunes_adds [OF _ tame_set [OF assms(2)], of "psvbf c"] assms by (auto simp: passiveRunes_def run_ok_def view_def)

lemma run_active:
  assumes "run_ok q m c" "\<forall>r \<in> set rns. tame q r"
  shows "\<exists>c'. codeRunes b rns (p, c) = Some (False, (p, c')) \<and> run_ok q m c' \<and> view c' = cdeStep (view c) (Active b rns)"
proof -
  have add: "\<exists>c'. do { x \<leftarrow> addRunes rns (cdebf c); Some (False, (p, c\<lparr>cdebf := x\<rparr>)) } = Some (False, (p, c')) \<and> run_ok q m c' \<and>
      view c' = (view c)\<lparr>t_cde := t_cde (view c) @ rns\<rparr>" if "run_ok q m c" for c
    using addRunes_adds [OF _ tame_set [OF assms(2)], of "cdebf c"] that assms(2) by (auto simp: run_ok_def view_def)
  show ?thesis
  proof (cases "hsecde c")
    case True
    with add [OF assms(1)] show ?thesis by (simp add: codeRunes_def view_def)
  next
    case False
    have "run_ok q m (c\<lparr>hsecde := True\<rparr>)" using assms(1) by (simp add: run_ok_def)
    from flushPsv_spec [OF this, of p] obtain c1 where
      c1: "flushPsv (p, c\<lparr>hsecde := True\<rparr>) = Some (p, c1)" "run_ok q m c1" "view c1 = flushSpec (view (c\<lparr>hsecde := True\<rparr>))" by blast
    moreover have "run_ok q m (c1\<lparr>fndcde := True\<rparr>)" "view (c1\<lparr>fndcde := True\<rparr>) = (view c1)\<lparr>t_fnd := True\<rparr>"
      using c1(2) by (simp_all add: run_ok_def view_def)
    moreover have "view (c\<lparr>hsecde := True\<rparr>) = (view c)\<lparr>t_hse := True\<rparr>" "t_hse (view c) = hsecde c" by (simp_all add: view_def)
    ultimately show ?thesis using add [of "c1\<lparr>fndcde := True\<rparr>"] False by (simp add: codeRunes_def Let_def)
  qed
qed

lemma run_silent:
  assumes "run_ok q m c"
  shows "startCaptureCode (p, c) = Some (p, c)" "doneCaptureCode (p, c) = Some (True, (p, c))"
  using assms by (simp_all add: run_ok_def startCaptureCode_def doneCaptureCode_def)

lemma run_ok_mode: "run_ok q m c \<Longrightarrow> run_ok q m' c"
  by (simp add: run_ok_def)

interpretation run: template_client cdeEvents CdePre CdePost False "tame q" "run_ok q" view cdeStep
    passiveRunes startCaptureCode codeRunes doneCaptureCode for q
proof
  fix p :: Parsing and c rns b
  show "run_ok q False c \<Longrightarrow> \<forall>r \<in> set rns. tame q r \<Longrightarrow>
      \<exists>c'. passiveRunes rns (p, c) = Some (p, c') \<and> run_ok q False c' \<and> view c' = cdeStep (view c) (Passive rns)"
    by (rule run_passive)
  show "run_ok q False c \<Longrightarrow> \<exists>c'. startCaptureCode (p, c) = Some (p, c') \<and> run_ok q True c' \<and> view c' = cdeStep (view c) Opened"
    by (auto simp: run_silent intro: run_ok_mode)
  show "run_ok q True c \<Longrightarrow> \<forall>r \<in> set rns. tame q r \<Longrightarrow>
      \<exists>c'. codeRunes b rns (p, c) = Some (b \<and> False, (p, c')) \<and> run_ok q (\<not> (b \<and> False)) c' \<and> view c' = cdeStep (view c) (Active b rns)"
    using run_active by simp
  show "run_ok q True c \<Longrightarrow> \<exists>x c'. doneCaptureCode (p, c) = Some (x, (p, c')) \<and> run_ok q False c' \<and> view c' = cdeStep (view c) Closed"
    by (auto simp: run_silent intro: run_ok_mode)
qed (simp_all add: cdeEvents_def)

section \<open>Documents\<close>

lemma pars_ok_code:
  assumes "\<And>r. r \<in> {37, 60, 62} \<Longrightarrow> P r"
  shows "pars_ok CdePre CdePost P (fst (nextCodeParsing nonc t True CdePre CdePost))"
  using assms by (auto simp: pars_ok_def nextCodeParsing_def nextparsing_def txt_opt_ok_def newTextparsing_def txt_ok_def)

lemma fresh_quiet: "quiet (fst (nextCodeParsing nonc t True CdePre CdePost))" "pending (fst (nextCodeParsing nonc t True CdePre CdePost)) = []"
  "\<not> active (fst (nextCodeParsing nonc t True CdePre CdePost))"
  by (auto simp: quiet_def txt_quiet_def nextCodeParsing_def nextparsing_def newTextparsing_def txt_ok_def pending_def active_def)

definition freshCode :: acode where
  "freshCode = \<lparr>t_fnd = False, t_hse = False, t_psv = [], t_cde = [], t_cnt = []\<rparr>"

lemma fresh_run: "run_ok q False (snd (nextCodeParsing False t u CdePre CdePost))" "view (snd (nextCodeParsing False t u CdePre CdePost)) = freshCode"
  by (simp_all add: run_ok_def nextCodeParsing_def view_def freshCode_def)

text \<open>The code a document becomes: the code of its segments with the passive text between them.\<close>

definition emit :: "rune list \<Rightarrow> rune list \<Rightarrow> rune list" where
  "emit cde a = (if a = [] then [] else codeText (hasInline a) (encode cde) a)"

fun docCode :: "rune list \<Rightarrow> doc \<Rightarrow> rune list \<Rightarrow> rune list" where
  "docCode cde [] rest = cde @ emit cde rest"
| "docCode cde ((a, b) # segs) rest = docCode (cde @ emit cde a @ b) segs rest"

lemma fold_passives:
  "[] \<notin> set es \<Longrightarrow> foldl cdeStep a (map Passive es) = (if concat es = [] then a else a\<lparr>t_hse := False, t_psv := t_psv a @ concat es\<rparr>)"
  by (induction es arbitrary: a) auto

lemma fold_actives_more:
  "t_hse a \<Longrightarrow> foldl cdeStep a (map (\<lambda>(c, rs). Active c rs) es) = a\<lparr>t_cde := t_cde a @ concat (map snd es)\<rparr>"
  by (induction es arbitrary: a) (auto simp: Let_def)

lemma fold_actives:
  assumes "concat (map snd es) \<noteq> []"
  shows "foldl cdeStep a (map (\<lambda>(c, rs). Active c rs) es) =
    (let a1 = (if t_hse a then a else (flushSpec (a\<lparr>t_hse := True\<rparr>))\<lparr>t_fnd := True\<rparr>) in a1\<lparr>t_cde := t_cde a1 @ concat (map snd es)\<rparr>)"
proof -
  obtain c rs fs where es: "es = (c, rs) # fs" using assms by (cases es) auto
  have "t_hse (flushSpec (a\<lparr>t_hse := True\<rparr>))" by (simp add: flushSpec_def)
  then show ?thesis by (simp add: es fold_actives_more Let_def)
qed

lemma lex_fold:
  "lex c xs p = (p1, es) \<Longrightarrow> foldl f a es = a1 \<Longrightarrow> zs = xs @ ys \<Longrightarrow> foldl f a (snd (lex c zs p)) = foldl f a1 (snd (lex c ys p1))"
  using lex_then by (metis foldl_append)

text \<open>
  A segment of a page: passive text without the start label, and code that is not empty.  Strings in the code are closed, and a percent
  sign outside of them is followed by a rune other than a percent sign, a greater sign and a quote.
\<close>

definition page_start :: "Parsing \<Rightarrow> bool" where
  "page_start p \<longleftrightarrow> (\<exists>t. at_start CdePre CdePost None (Some t) p \<and> txt_ok t \<and> alttxtr t = 0)"

definition page_seg :: "rune list \<times> rune list \<Rightarrow> bool" where
  "page_seg s \<longleftrightarrow> \<not> sublist CdePre (fst s) \<and> snd s \<noteq> [] \<and> code_ok 37 62 0 0 (snd s)"

lemma lex_segment:
  assumes "page_start p" "page_seg (x, b)"
  shows "\<exists>p1 es fs. lex False (x @ CdePre @ b @ CdePost) p = (p1, map Passive es @ [Opened] @ map (\<lambda>(c, rs). Active c rs) fs @ [Closed]) \<and>
    page_start p1 \<and> [] \<notin> set es \<and> concat es = x \<and> concat (map snd fs) = b"
proof -
  obtain t where t: "at_start CdePre CdePost None (Some t) p" "txt_ok t" "alttxtr t = 0" using assms(1) by (auto simp: page_start_def)
  have s: "\<not> sublist CdePre x" "code_ok 37 62 0 0 b" using assms(2) by (simp_all add: page_seg_def)
  from lex_passive [OF t(1) _ s(1), of False] obtain v es where
    1: "lex False (x @ CdePre) p = (p\<lparr>prei := 2, prvr := v\<rparr>, map Passive es @ [Opened])" "[] \<notin> set es" "concat es = x" by auto
  let ?p = "p\<lparr>prei := 2, prvr := v\<rparr>"
  have p: "at_start CdePre CdePost None (Some t) (?p\<lparr>prei := 0, posti := 0, posttxtprs := Some t\<rparr>)" "posttxtprs ?p = Some t" "posti ?p = 0" "txtr t = 0"
    using t(1) by (auto simp: at_start_def)
  from lex_code [OF p(1) _ p(2) t(2,3), of 0 b] p(3,4) s(2) obtain t1 fs where
    2: "lex False b ?p = (?p\<lparr>posti := 0, posttxtprs := Some t1\<rparr>, map (\<lambda>(c, rs). Active c rs) fs)"
      "txt_ok t1" "alttxtr t1 = 0" "txtr t1 = 0" "concat (map snd fs) = b" by (auto simp: IsTxtPar_def)
  let ?q = "?p\<lparr>posti := 0, posttxtprs := Some t1\<rparr>"
  have q: "at_start CdePre CdePost None (Some t1) (?q\<lparr>prei := 0, posti := 0\<rparr>)" using t(1) 2(4) by (auto simp: at_start_def)
  have 3: "lex False CdePost ?q = (ResetParsing ?q, [Closed])" using lex_postlabel [OF q, of False] by (simp add: IsTxtPar_def)
  have "at_start CdePre CdePost None (Some t1) (ResetParsing ?q)" using q by (auto simp: at_start_def ResetParsing_def)
  then have "page_start (ResetParsing ?q)" using 2(2,3) by (auto simp: page_start_def)
  moreover have "lex False ((x @ CdePre) @ b @ CdePost) p =
      (ResetParsing ?q, map Passive es @ [Opened] @ map (\<lambda>(c, rs). Active c rs) fs @ [Closed])"
    unfolding lex_append [of _ "x @ CdePre"] lex_append [of _ b] using 1(1) 2(1) 3 by simp
  ultimately show ?thesis using 1(2,3) 2(5) by auto
qed

lemma page_code:
  assumes "page_start p" "t_fnd a" "t_hse a" "t_psv a = []" "\<forall>s \<in> set segs. page_seg s" "\<not> sublist CdePre rest" "rest \<noteq> [] \<longrightarrow> last rest \<noteq> 60"
  shows "let z = flushSpec (foldl cdeStep a (snd (lex False (doc_text CdePre CdePost segs rest) p))) in
    t_cde z = docCode (t_cde a) segs rest \<and> t_cnt z = t_cnt a"
  using assms
proof (induction segs arbitrary: p a)
  case Nil
  obtain t where t: "at_start CdePre CdePost None (Some t) p" using Nil(1) by (auto simp: page_start_def)
  then have p: "at_start CdePre CdePost None (Some t) (p\<lparr>prei := 0\<rparr>)" "prei p = 0" by (auto simp: at_start_def)
  from lex_loose [OF p(1), of rest False] p(2) Nil(6) obtain m v es where
    1: "m < 2" "lex False rest p = (p\<lparr>prei := m, prvr := v\<rparr>, map Passive es)" "[] \<notin> set es" "concat es @ replicate m 60 = rest" by auto
  then have "m = 0" using Nil(7) by (cases "m = 1") auto
  then have "concat es = rest" using 1(4) by simp
  then show ?case using Nil(2-4) 1(2) fold_passives [OF 1(3), of a] by (auto simp: doc_text_def flushSpec_def emit_def)
next
  case (Cons s segs)
  obtain x b where s: "s = (x, b)" by force
  from lex_segment [OF Cons.prems(1), of x b] Cons.prems(5) s obtain p1 es fs where
    1: "lex False (x @ CdePre @ b @ CdePost) p = (p1, map Passive es @ [Opened] @ map (\<lambda>(c, rs). Active c rs) fs @ [Closed])"
      "page_start p1" "[] \<notin> set es" "concat es = x" "concat (map snd fs) = b" by auto
  have b: "b \<noteq> []" using Cons.prems(5) s by (simp add: page_seg_def)
  let ?a = "a\<lparr>t_cde := t_cde a @ emit (t_cde a) x @ b\<rparr>" and ?d = "doc_text CdePre CdePost segs rest"
  have f: "foldl cdeStep a (map Passive es @ [Opened] @ map (\<lambda>(c, rs). Active c rs) fs @ [Closed]) = ?a"
    using Cons.prems(2-4) b 1(4,5) fold_passives [OF 1(3), of a] by (auto simp: fold_actives flushSpec_def emit_def Let_def)
  have "foldl cdeStep a (snd (lex False (doc_text CdePre CdePost (s # segs) rest) p)) = foldl cdeStep ?a (snd (lex False ?d p1))"
    by (rule lex_fold [OF 1(1) f]) (simp add: doc_text_def s)
  then show ?case using Cons.IH [OF 1(2), of ?a] Cons.prems s by (simp add: Let_def)
qed

lemma inline_segment:
  assumes "at_start PsvPre PsvPost None None p" "\<not> sublist PsvPre a" "64 \<notin> set b"
  shows "\<exists>p1 es. lex True (a @ PsvPre @ b @ PsvPost) p = (p1, es) \<and> at_start PsvPre PsvPost None None p1 \<and>
    concat (map inlRender es) = a @ [36, 123] @ b @ [125]"
proof -
  from lex_passive [OF assms(1) _ assms(2), of True] obtain v es where
    1: "lex True (a @ PsvPre) p = (p\<lparr>prei := 2, prvr := v\<rparr>, map Passive es @ [Opened])" "concat es = a" by auto
  let ?p = "p\<lparr>prei := 2, prvr := v\<rparr>"
  have p: "at_start PsvPre PsvPost None None (?p\<lparr>prei := 0\<rparr>)" "at_start PsvPre PsvPost None None (?p\<lparr>prei := 0, posti := 0\<rparr>)" "posti ?p = 0"
    using assms(1) by (auto simp: at_start_def)
  have 2: "lex True b ?p = (?p, map (\<lambda>r. Active False [r]) b)" using lex_active [OF p(1), of b True] assms(3) by (simp add: plain_for_def)
  have 3: "lex True PsvPost ?p = (ResetParsing ?p, [Closed])" using lex_postlabel [OF p(2), of True] p(3) by simp
  have "at_start PsvPre PsvPost None None (ResetParsing ?p)" using p(2) by (auto simp: at_start_def ResetParsing_def)
  moreover have "concat (map inlRender (map Passive es)) = a" "concat (map inlRender (map (\<lambda>r. Active False [r]) b)) = b"
    using 1(2) by (simp_all add: comp_def)
  moreover have "lex True ((a @ PsvPre) @ b @ PsvPost) p = (ResetParsing ?p, (map Passive es @ [Opened]) @ map (\<lambda>r. Active False [r]) b @ [Closed])"
    unfolding lex_append [of _ "a @ PsvPre"] lex_append [of _ b] using 1(1) 2 3 by simp
  ultimately show ?thesis by auto
qed

lemma inlineText_document:
  assumes "\<forall>(a, b) \<in> set segs. \<not> sublist PsvPre a \<and> 64 \<notin> set b" "\<not> sublist PsvPre rest" "rest \<noteq> [] \<longrightarrow> last rest \<noteq> 123"
  shows "inlineText (doc_text PsvPre PsvPost segs rest) = concat (map (\<lambda>(a, b). a @ [36, 123] @ b @ [125]) segs) @ rest"
proof -
  have "concat (map inlRender (snd (lex True (doc_text PsvPre PsvPost segs rest) p))) = concat (map (\<lambda>(a, b). a @ [36, 123] @ b @ [125]) segs) @ rest"
    if "at_start PsvPre PsvPost None None p" for p
    using that assms(1)
  proof (induction segs arbitrary: p)
    case Nil
    then have p: "at_start PsvPre PsvPost None None (p\<lparr>prei := 0\<rparr>)" "prei p = 0" by (auto simp: at_start_def)
    from lex_loose [OF p(1), of rest True] p(2) assms(2) obtain m v es where
      1: "m < 2" "lex True rest p = (p\<lparr>prei := m, prvr := v\<rparr>, map Passive es)" "concat es @ replicate m 123 = rest" by auto
    then have "m = 0" using assms(3) by (cases "m = 1") auto
    moreover have "concat (map inlRender (map Passive es)) = concat es" by (simp add: comp_def)
    ultimately show ?case using 1(2,3) by (simp add: doc_text_def)
  next
    case (Cons s segs)
    obtain a b where s: "s = (a, b)" by force
    from inline_segment [OF Cons.prems(1), of a b] Cons.prems(2) s obtain p1 es where
      1: "lex True (a @ PsvPre @ b @ PsvPost) p = (p1, es)" "at_start PsvPre PsvPost None None p1" "concat (map inlRender es) = a @ [36, 123] @ b @ [125]"
      by auto
    have "snd (lex True (doc_text PsvPre PsvPost (s # segs) rest) p) = es @ snd (lex True (doc_text PsvPre PsvPost segs rest) p1)"
      by (rule lex_then [OF 1(1)]) (simp add: doc_text_def s)
    then show ?case using Cons.IH [OF 1(2)] Cons.prems(2) 1(3) s by simp
  qed
  moreover have "at_start PsvPre PsvPost None None (New PsvPre PsvPost False False)" by (simp add: at_start_def New_def nextparsing_def)
  ultimately show ?thesis by (simp add: inlineText_def)
qed

text \<open>A whole run from the start.\<close>

lemma code_runs:
  assumes "\<forall>r \<in> set rs. tame q r"
  shows "\<exists>p c c'. cdeParse rs (nextCodeParsing False t True CdePre CdePost) = Some (p, c) \<and> flushPsv (p, c) = Some (p, c') \<and>
    view c' = flushSpec (foldl cdeStep freshCode (snd (lex False rs (fst (nextCodeParsing False t True CdePre CdePost)))))"
proof -
  let ?s = "nextCodeParsing False t True CdePre CdePost"
  have p: "pars_ok CdePre CdePost (tame q) (fst ?s)" by (rule pars_ok_code) (auto simp: tame_def valid_rune_def)
  have "run_ok q (active (fst ?s)) (snd ?s)" using fresh_run(1) fresh_quiet(3) by simp
  from run.Parse_follows [OF p this assms] obtain c where
    c: "Parse cdeEvents rs ?s = Some (fst (lex False rs (fst ?s)), c)" "run_ok q (active (fst (lex False rs (fst ?s)))) c"
      "view c = foldl cdeStep freshCode (snd (lex False rs (fst ?s)))"
    by (auto simp: run.follows_def fresh_run(2))
  from flushPsv_spec [OF c(2), of "fst (lex False rs (fst ?s))"] c(1,3) show ?thesis by (auto simp: cdeParse_def)
qed

text \<open>
  Defect: a failed end label is written twice, and the start of a label at the end of the text is
  dropped.
\<close>

lemma inline_label_doubled: "inlineText [123, 64, 64, 97] = [36, 123, 64, 64, 97]"
  by code_simp

lemma inline_tail_lost: "inlineText [97, 123] = [97]"
  by code_simp

section \<open>Properties\<close>

text \<open>
  Claim C1: the code parser on buffers implements its specification on rune lists.  For every text of valid runes that contains no at sign
  at all, or no single and double quotes at all, parsing from the start and flushing at the end returns, and the code, content and flags are
  those of the specification run over the events of the reference lexer.  A text with both is left out: there an inline expression may
  follow code that ends in a quote, where the code parser cuts the quote off and changes the label parser.
\<close>

theorem code_refines:
  assumes "\<forall>r \<in> set rs. tame q r"
  shows "\<exists>p c c'. cdeParse rs (nextCodeParsing False t True CdePre CdePost) = Some (p, c) \<and> flushPsv (p, c) = Some (p, c') \<and>
    view c' = flushSpec (foldl cdeStep freshCode (snd (lex False rs (fst (nextCodeParsing False t True CdePre CdePost)))))"
  by (rule code_runs [OF assms])

theorem code_refines_witness:
  "\<exists>p c c'. cdeParse [97, 60, 37, 98] (nextCodeParsing False False True CdePre CdePost) = Some (p, c) \<and> flushPsv (p, c) = Some (p, c') \<and>
     view c' = \<lparr>t_fnd = True, t_hse = True, t_psv = [], t_cde = [98], t_cnt = [97]\<rparr>"
proof -
  have "lex False [97, 60, 37, 98] (fst (nextCodeParsing False False True CdePre CdePost)) =
      (fst (lex False [97, 60, 37, 98] (fst (nextCodeParsing False False True CdePre CdePost))), [Passive [97], Opened, Active False [98]])"
    by code_simp
  then have l: "snd (lex False [97, 60, 37, 98] (fst (nextCodeParsing False False True CdePre CdePost))) = [Passive [97], Opened, Active False [98]]"
    by (metis snd_conv)
  have "flushSpec (foldl cdeStep freshCode [Passive [97], Opened, Active False [98]]) =
      \<lparr>t_fnd = True, t_hse = True, t_psv = [], t_cde = [98], t_cnt = [97]\<rparr>"
    using tame_plain [of "[97]"] by (simp add: freshCode_def flushSpec_def Let_def tame_def valid_rune_def)
  with code_refines [of "[97, 60, 37, 98]" True False] show ?thesis unfolding l by (simp add: tame_def valid_rune_def)
qed

text \<open>
  Claim C2: what a page becomes.  A page is a list of passive parts and non-empty code segments and a tail.  The passive parts may hold
  markup: they only must not contain the start label, and the tail does not end in a less sign.  In the code, strings are closed and a
  percent sign outside of them is followed by a rune other than a percent sign, a greater sign and a quote.  All runes are valid, and the page
  has no at sign at all or no single and double quotes at all.  Then parsing and flushing returns.  The part before the first code is the
  content, unless it holds an inline expression; then the content is empty and the part is code like the others.  The code is the code of all
  segments, and every later passive part stands between them as a \<open>print\<close> of the escaped text in back quotes, as a back quoted string where
  the code before ends in an operator or an opening bracket, and as bare text where it ends in a quote (\<open>emit\<close>, \<open>codeText\<close>).
\<close>

theorem code_document:
  assumes "\<forall>r \<in> set (doc_text CdePre CdePost ((a, b) # segs) rest). tame q r"
    and "\<forall>s \<in> set ((a, b) # segs). page_seg s" "\<not> sublist CdePre rest" "rest \<noteq> [] \<longrightarrow> last rest \<noteq> 60"
  shows "\<exists>p c c'. cdeParse (doc_text CdePre CdePost ((a, b) # segs) rest) (nextCodeParsing False False True CdePre CdePost) = Some (p, c) \<and>
    flushPsv (p, c) = Some (p, c') \<and> textOf (cbf c') = (if hasInline a then [] else a) \<and>
    textOf (cdebf c') = docCode ((if hasInline a then emit [] a else []) @ b) segs rest"
proof -
  let ?s = "nextCodeParsing False False True CdePre CdePost" and ?d = "doc_text CdePre CdePost ((a, b) # segs) rest"
  have st: "page_start (fst ?s)"
    by (auto simp: page_start_def at_start_def nextCodeParsing_def nextparsing_def newTextparsing_def txt_ok_def)
  from lex_segment [OF st, of a b] assms(2) obtain p1 es fs where
    1: "lex False (a @ CdePre @ b @ CdePost) (fst ?s) = (p1, map Passive es @ [Opened] @ map (\<lambda>(c, rs). Active c rs) fs @ [Closed])"
      "page_start p1" "[] \<notin> set es" "concat es = a" "concat (map snd fs) = b" by auto
  have b: "b \<noteq> []" using assms(2) by (simp add: page_seg_def)
  let ?a = "\<lparr>t_fnd = True, t_hse = True, t_psv = [], t_cde = (if hasInline a then emit [] a else []) @ b, t_cnt = if hasInline a then [] else a\<rparr>"
  have e: "foldl cdeStep freshCode (map Passive es @ [Opened] @ map (\<lambda>(c, rs). Active c rs) fs @ [Closed]) = ?a"
    using b 1(4,5) fold_passives [OF 1(3), of freshCode] by (auto simp: fold_actives flushSpec_def emit_def Let_def freshCode_def)
  have f: "foldl cdeStep freshCode (snd (lex False ?d (fst ?s))) = foldl cdeStep ?a (snd (lex False (doc_text CdePre CdePost segs rest) p1))"
    by (rule lex_fold [OF 1(1) e]) (simp add: doc_text_def)
  from code_runs [OF assms(1), of False] obtain p c c' where
    c: "cdeParse ?d ?s = Some (p, c)" "flushPsv (p, c) = Some (p, c')"
      "view c' = flushSpec (foldl cdeStep ?a (snd (lex False (doc_text CdePre CdePost segs rest) p1)))" unfolding f by blast
  with page_code [OF 1(2), of ?a segs rest] assms(2-4)
  have "t_cde (view c') = docCode ((if hasInline a then emit [] a else []) @ b) segs rest" "t_cnt (view c') = (if hasInline a then [] else a)"
    by (auto simp: Let_def)
  then show ?thesis using c(1,2) by (auto simp: view_def)
qed

theorem code_document_witness:
  "\<exists>p c c'. cdeParse [60, 112, 62, 60, 37, 120, 61, 34, 37, 62, 34, 59, 37, 62, 60, 47, 112, 62] (nextCodeParsing False False True CdePre CdePost) = Some (p, c) \<and>
     flushPsv (p, c) = Some (p, c') \<and> textOf (cbf c') = [60, 112, 62] \<and>
     textOf (cdebf c') = [120, 61, 34, 37, 62, 34, 59] @ PrintOpen @ [60, 47, 112, 62] @ PrintClose"
proof -
  have "docCode [120, 61, 34, 37, 62, 34, 59] [] [60, 47, 112, 62] = [120, 61, 34, 37, 62, 34, 59] @ PrintOpen @ [60, 47, 112, 62] @ PrintClose"
    using tame_plain [of "[60, 47, 112, 62]"]
    by (simp add: emit_def codeText_def inText_def inExpr_def lastOf_def EncodeRune_def valid_rune_def utf8_bytes_def tame_def
        IsSpace_def IsTxtPar_def validLastCdeRune_def)
  moreover have "\<not> hasInline [60, 112, 62]" using tame_plain [of "[60, 112, 62]"] by (simp add: tame_def valid_rune_def)
  ultimately show ?thesis
    using code_document [of "[60, 112, 62]" "[120, 61, 34, 37, 62, 34, 59]" "[]" "[60, 47, 112, 62]" True]
    by (simp add: doc_text_def tame_def valid_rune_def IsTxtPar_def page_seg_def sublist_code)
qed

text \<open>
  Claim C20: inside an open element nothing is interpreted and nothing is lost.  For every text of valid runes in which no quote directly
  follows a less sign or a percent sign, the content, the waiting passive text, the open code and the undecided prefix of a label together are
  exactly the text read so far.  Texts where a quote does follow one of them are left out, because the parser may drop
  the pending sign there.
\<close>

theorem noncode_verbatim:
  assumes "\<forall>r \<in> set rs. valid_rune r" "calm (butlast CdePre @ butlast CdePost) 0 rs"
  shows "\<exists>p c. cdeParse rs (nextCodeParsing True t True CdePre CdePost) = Some (p, c) \<and>
    textOf (cbf c) @ textOf (psvbf c) @ textOf (cdebf c) @ pending p = rs"
proof -
  let ?s = "nextCodeParsing True t True CdePre CdePost"
  obtain p es where l: "lex False rs (fst ?s) = (p, es)" by force
  have ok: "pars_ok CdePre CdePost valid_rune (fst ?s)" by (rule pars_ok_code) (auto simp: valid_rune_def)
  have "verb_ok (active (fst ?s)) (snd ?s)" "verb_text (snd ?s) = []"
    using fresh_quiet(3) by (simp_all add: verb_ok_def verb_text_def nextCodeParsing_def)
  with verb.Parse_follows [OF ok _ assms(1), of "snd ?s"] obtain c where
    c: "Parse cdeEvents rs ?s = Some (p, c)" "verb_text c = concat (map (render CdePre CdePost) es)"
    by (auto simp: verb.follows_def l foldl_verbStep)
  have "pending (fst ?s) @ rs = concat (map (render CdePre CdePost) es) @ pending p"
    using lex_lossless [OF ok fresh_quiet(1) assms _ l] fresh_quiet(2) by simp
  then show ?thesis using c fresh_quiet(2) by (auto simp: cdeParse_def verb_text_def)
qed

theorem noncode_verbatim_witness:
  "\<exists>p c. cdeParse [97, 60, 37, 98, 37, 62, 60] (nextCodeParsing True True True CdePre CdePost) = Some (p, c) \<and>
     textOf (cbf c) @ textOf (psvbf c) @ textOf (cdebf c) @ pending p = [97, 60, 37, 98, 37, 62, 60]"
  using noncode_verbatim [of "[97, 60, 37, 98, 37, 62, 60]" True] by (simp add: valid_rune_def IsTxtPar_def)

text \<open>
  Claim C21: \<open>processInline\<close> returns and writes, between the two strings it is given, the text with every inline expression \<open>{@x@}\<close>
  rewritten to \<open>${x}\<close>.  The text consists of passive parts, expressions and a tail, all of valid runes; other braces may stand in it, but
  \<open>{@\<close> only where an expression starts, no at sign inside an expression, and no opening brace at the very end (where the code
  writes a failed end label twice and drops the brace, \<open>inline_label_doubled\<close> and \<open>inline_tail_lost\<close>).
\<close>

theorem processInline_document:
  assumes "\<forall>r \<in> set (pre @ doc_text PsvPre PsvPost segs rest @ post). valid_rune r" "usable n b"
    and "\<forall>(x, y) \<in> set segs. \<not> sublist PsvPre x \<and> 64 \<notin> set y" "\<not> sublist PsvPre rest" "rest \<noteq> [] \<longrightarrow> last rest \<noteq> 123"
  shows "\<exists>b'. processInline pre post strRune (doc_text PsvPre PsvPost segs rest) b = Some b' \<and> usable n b' \<and>
    contents b' = contents b @ encode (pre @ concat (map (\<lambda>(x, y). x @ [36, 123] @ y @ [125]) segs) @ rest @ post)"
  using strsrc.processInline_text [of "doc_text PsvPre PsvPost segs rest" n b pre post] assms(1,2) inlineText_document [OF assms(3-5)]
  by (simp add: ball_Un)

theorem processInline_document_witness:
  "\<exists>b'. processInline [96] [96] strRune [123, 97, 123, 64, 98, 64, 125, 99] NewBuffer = Some b' \<and> usable 8192 b' \<and>
     contents b' = [96, 123, 97, 36, 123, 98, 125, 99, 96]"
  using processInline_document [of "[96]" "[([123, 97], [98])]" "[99]" "[96]" 8192 NewBuffer]
  by (simp add: doc_text_def valid_rune_def EncodeRune_def utf8_bytes_def sublist_code)

end
