(* ===== verification/AttributeParser.thy ===== *)
theory AttributeParser
  imports TemplateParser
begin

text \<open>
  The attribute parser of \<open>src/template/attributeparser.go\<close> and the character classes of
  \<open>src/template/content.go\<close>.  It reads the attributes of an element, \<open>name="value"\<close> with any kind
  of quotes or \<open>name=[$value$]\<close>, rune by rune, and reports each complete one to its client.  It is
  a client of the label parser with the labels \<open>[$\<close> and \<open>$]\<close>.
\<close>

section \<open>Character classes\<close>

definition validElmchar :: "rune \<Rightarrow> bool" where
  "validElmchar cr \<longleftrightarrow> (97 \<le> cr \<and> cr \<le> 122) \<or> (65 \<le> cr \<and> cr \<le> 90) \<or> cr = 58 \<or> cr = 46 \<or> cr = 45 \<or> cr = 95 \<or>
     (48 \<le> cr \<and> cr \<le> 57)"

definition validNameChar :: "rune \<Rightarrow> rune \<Rightarrow> bool" where
  "validNameChar prv r =
     (if IsSpace r then False
      else if prv > 0 then validElmchar prv \<and> validElmchar r
      else validElmchar r)"

text \<open>\<open>validElemChar\<close> calls \<open>funcspace\<close> on a white space rune; the second component says so.\<close>

definition validElemChar :: "rune \<Rightarrow> rune \<Rightarrow> bool \<times> bool" where
  "validElemChar prv r =
     (if IsSpace r then (False, True)
      else if prv > 0 then (validElmchar prv \<and> validElmchar r, False)
      else (validElmchar r, False))"

section \<open>State\<close>

datatype proplevel = AttribUknown | AttribName | AttribAssign | AttribValue | AttribInline | AttribContinue

text \<open>
  The fields of \<open>attributeparser\<close> besides the embedded label parser.  \<open>found\<close> lists the calls of
  \<open>eventFoundValue\<close> (name, value, empty) in the order they are made; a nil slice is \<open>[]\<close>.
\<close>

record attrst =
  txttst :: "textparsing option"
  raw :: "rune list"
  rawl :: nat
  invdl :: bool
  at_lvl :: proplevel
  at_name :: "rune list"
  at_value :: "rune list"
  at_prvr :: rune
  atvrnes :: "rune list"
  found :: "(rune list \<times> rune list \<times> bool) list"

definition ParseValue :: "rune list \<Rightarrow> rune list \<Rightarrow> bool \<Rightarrow> attrst \<Rightarrow> attrst" where
  "ParseValue name val emp a = a\<lparr>found := found a @ [(name, val, emp)]\<rparr>"

text \<open>The end of a value: the name is reported and the text parsers of the label parser are dropped.\<close>

definition attrFound :: "rune list \<Rightarrow> attrst pst \<Rightarrow> attrst pst" where
  "attrFound val s =
     ((fst s)\<lparr>pretxtprs := None, posttxtprs := None\<rparr>,
      ParseValue (at_name (snd s)) val (length val = 0)
        ((snd s)\<lparr>at_name := [], at_value := [], at_lvl := AttribContinue, at_prvr := 0\<rparr>))"

section \<open>Callbacks\<close>

text \<open>One round of the loop of \<open>passiveRunes\<close>; the flag says whether the loop goes on.\<close>

definition attrRune :: "rune \<Rightarrow> attrst pst \<Rightarrow> bool \<times> attrst pst" where
  "attrRune r s =
     (let p = fst s; a = snd s; (valid, fndspace) = validElemChar (at_prvr a) r;
          invalid = (False, (p, a\<lparr>invdl := True\<rparr>)) in
      case at_lvl a of
        AttribName \<Rightarrow>
          if valid then (True, (p, a\<lparr>at_name := at_name a @ [r]\<rparr>))
          else if r = 61 then (True, (p, a\<lparr>at_lvl := AttribAssign\<rparr>))
          else if fndspace then (True, s)
          else invalid
      | AttribAssign \<Rightarrow>
          (case txttst a of
             None \<Rightarrow> if IsSpace r then (True, s) else invalid
           | Some t \<Rightarrow>
               if \<not> isText t then
                 (if IsSpace r then (True, s)
                  else
                    (let (b, t1) = txtParse t r; s1 = (p, a\<lparr>txttst := Some t1\<rparr>) in
                     if b then (True, s1) else (False, (p, (snd s1)\<lparr>invdl := True\<rparr>))))
               else
                 (let (b, t1) = txtParse t r; a1 = a\<lparr>txttst := Some t1\<rparr> in
                  if b \<and> \<not> isText t1 then (True, attrFound (at_value a1) (p, a1))
                  else (True, (p, a1\<lparr>at_value := at_value a1 @ [r]\<rparr>))))
      | AttribValue \<Rightarrow> (True, s)
      | AttribInline \<Rightarrow> (True, s)
      | _ \<Rightarrow>
          if valid then (True, (p, a\<lparr>at_name := at_name a @ [r], at_lvl := AttribName\<rparr>))
          else if fndspace then (True, s)
          else invalid)"

fun attrPassive :: "rune list \<Rightarrow> attrst pst \<Rightarrow> attrst pst" where
  "attrPassive [] s = s"
| "attrPassive (r # rs) s = (let (goon, s1) = attrRune r s in if goon then attrPassive rs s1 else s1)"

definition passiveDone :: "attrst pst \<Rightarrow> attrst pst" where
  "passiveDone s = s"

definition activeRunes :: "bool \<Rightarrow> rune list \<Rightarrow> attrst pst \<Rightarrow> bool \<times> attrst pst" where
  "activeRunes canreset rns s =
     (if canreset then (True, s) else (False, (fst s, (snd s)\<lparr>atvrnes := atvrnes (snd s) @ rns\<rparr>)))"

definition activeDone :: "attrst pst \<Rightarrow> bool \<times> attrst pst" where
  "activeDone s =
     (let val = atvrnes (snd s) in
      if at_lvl (snd s) = AttribAssign then
        (let (p, a) = attrFound val s in (False, (p, a\<lparr>atvrnes := []\<rparr>)))
      else
        (let a = (if 0 < length val then ParseValue [] val False (snd s) else snd s) in
         (False, (fst s, a\<lparr>atvrnes := []\<rparr>))))"

definition attrEvents :: "attrst events" where
  "attrEvents =
     \<lparr>EventCanPreParse = None, EventPreRunes = Some (\<lambda>rns s. Some (attrPassive rns s)),
      EventMatchedPre = Some (\<lambda>s. Some (passiveDone s)), EventCanPostParse = None,
      EventPostRunes = Some (\<lambda>canreset rns s. Some (activeRunes canreset rns s)),
      EventMatchedPost = Some (\<lambda>s. Some (activeDone s))\<rparr>"

section \<open>Operations\<close>

text \<open>The embedded label parser is nil after \<open>Close\<close>.\<close>

type_synonym attributeparser = "Parsing option \<times> attrst"

definition nextattrbprsr :: "rune list \<Rightarrow> rune list \<Rightarrow> attributeparser" where
  "nextattrbprsr pre post =
     (Some (nextparsing pre post None (Some newTextparsing)),
      \<lparr>txttst = Some newTextparsing, raw = [], rawl = 0, invdl = False, at_lvl = AttribUknown, at_name = [], at_value = [],
       at_prvr = 0, atvrnes = [], found = []\<rparr>)"

definition attrParse :: "rune list \<Rightarrow> attributeparser \<Rightarrow> attributeparser option" where
  "attrParse rns x =
     (case x of (po, a) \<Rightarrow>
        (case po of
           Some p \<Rightarrow>
             if 0 < length rns then
               do { (p1, a1) \<leftarrow> Parse attrEvents rns (p, a\<lparr>raw := raw a @ rns, rawl := rawl a + length rns\<rparr>);
                    Some (Some p1, a1) }
             else Some x
         | None \<Rightarrow> Some x))"

definition attrBusy :: "attributeparser \<Rightarrow> bool" where
  "attrBusy x = (case fst x of Some p \<Rightarrow> Busy p | None \<Rightarrow> False)"

definition attrClose :: "attributeparser \<Rightarrow> attributeparser" where
  "attrClose x = (None, (snd x)\<lparr>txttst := None, raw := [], atvrnes := []\<rparr>)"

section \<open>Reading one attribute\<close>

abbreviation AttrPre :: "rune list" where "AttrPre \<equiv> [91, 36]"
abbreviation AttrPost :: "rune list" where "AttrPost \<equiv> [36, 93]"

text \<open>The label parser outside \<open>[$\<close> and \<open>$]\<close>, and inside after \<open>i\<close> runes of the end label.\<close>

definition idle :: "Parsing \<Rightarrow> bool" where
  "idle p \<longleftrightarrow> prelbl p = AttrPre \<and> preL p = 2 \<and> postlbl p = AttrPost \<and> postL p = 2 \<and> prei p = 0 \<and> posti p = 0 \<and>
     pretxtprs p = None \<and> (case posttxtprs p of None \<Rightarrow> True | Some t \<Rightarrow> txtr t = 0) \<and> bufdrns p = []"

definition within :: "nat \<Rightarrow> Parsing \<Rightarrow> bool" where
  "within i p \<longleftrightarrow> idle (p\<lparr>prei := 0, posti := 0\<rparr>) \<and> prei p = 2 \<and> posti p = i \<and> i < 2"

lemma idle_prvr [simp]: "idle (p\<lparr>prvr := r\<rparr>) = idle p"
  by (simp add: idle_def)

lemma step_passive:
  assumes "idle p" "r \<noteq> 91"
  shows "parse attrEvents r (p, a) = Some (snd (attrRune r (p\<lparr>prvr := r\<rparr>, a)))"
  using assms
  by (cases p, subst parse.simps) (auto simp: idle_def parsePre_def txtParseOpt_def matchPre_def CanPreParse_def attrEvents_def
      brokenPre_def go_index_def passPre_def evtpre_def split: prod.splits)

lemma step_bracket:
  assumes "idle p"
  shows "parse attrEvents 91 (p, a) = Some (p\<lparr>prei := 1, prvr := 91\<rparr>, a)"
  using assms
  by (subst parse.simps) (auto simp: idle_def parsePre_def txtParseOpt_def matchPre_def CanPreParse_def attrEvents_def brokenPre_def
      go_index_def Let_def)

lemma step_opened:
  assumes "idle p"
  shows "\<exists>q. parse attrEvents 36 (p\<lparr>prei := 1, prvr := 91\<rparr>, a) = Some (q, a) \<and> within 0 q"
  using assms
  by (subst parse.simps) (auto simp: idle_def within_def parsePre_def txtParseOpt_def matchPre_def CanPreParse_def attrEvents_def
      brokenPre_def go_index_def passiveDone_def Let_def nat_diff_distrib)

lemma within_text: "within i p \<Longrightarrow> \<not> IsTxtPar r \<Longrightarrow> txtParseOpt (posttxtprs p) r = (False, posttxtprs p)"
  by (intro txtParseOpt_outside) (auto simp: within_def idle_def)

lemma step_active:
  assumes "within 0 p" "r \<noteq> 36" "\<not> IsTxtPar r"
  shows "parse attrEvents r (p, a) = Some (p, a\<lparr>atvrnes := atvrnes a @ [r]\<rparr>)"
  using assms within_text [OF assms(1,3)]
  by (subst parse.simps) (auto simp: within_def idle_def matchPost_def CanPostParse_def attrEvents_def go_index_def evtpost_def activeRunes_def)

lemma step_dollar:
  assumes "within 0 p"
  shows "parse attrEvents 36 (p, a) = Some (p\<lparr>posti := 1\<rparr>, a)"
  using assms within_text [OF assms, of 36]
  by (subst parse.simps) (auto simp: within_def idle_def matchPost_def CanPostParse_def attrEvents_def go_index_def IsTxtPar_def Let_def)

lemma step_closed:
  assumes "within 0 p"
  shows "parse attrEvents 93 (p\<lparr>posti := 1\<rparr>, a) = Some (rewind (snd (activeDone (p\<lparr>posti := 2\<rparr>, a))))"
  using assms within_text [OF assms, of 93]
  by (subst parse.simps) (auto simp: within_def idle_def matchPost_def CanPostParse_def attrEvents_def go_index_def IsTxtPar_def Let_def numeral_2_eq_2)

text \<open>Between two attributes nothing is pending.\<close>

definition between :: "attrst \<Rightarrow> bool" where
  "between a \<longleftrightarrow> at_lvl a \<in> {AttribUknown, AttribContinue} \<and> at_name a = [] \<and> at_value a = [] \<and> at_prvr a = 0 \<and> atvrnes a = [] \<and>
     \<not> invdl a \<and> (\<exists>t. txttst a = Some t \<and> txtr t = 0 \<and> alttxtr t = 0 \<and> txt_prvr t = 0)"

lemma validElmchar_no_space: "validElmchar r \<Longrightarrow> \<not> IsSpace r \<and> r \<noteq> 91 \<and> r \<noteq> 61"
  by (auto simp: validElmchar_def IsSpace_def unicode_IsSpace_def)

lemma IsSpace_no_label: "IsSpace r \<Longrightarrow> r \<noteq> 91"
  by (auto simp: IsSpace_def unicode_IsSpace_def)

lemma read_spaces:
  "idle p \<Longrightarrow> between a \<Longrightarrow> \<forall>r \<in> set sp. IsSpace r \<Longrightarrow> \<exists>q. parseAll attrEvents sp (p, a) = Some (q, a) \<and> idle q"
proof (induction sp arbitrary: p)
  case (Cons r sp)
  have "attrRune r (p\<lparr>prvr := r\<rparr>, a) = (True, (p\<lparr>prvr := r\<rparr>, a))"
    using Cons.prems by (auto simp: attrRune_def between_def validElemChar_def Let_def)
  then show ?case using step_passive [OF Cons.prems(1)] IsSpace_no_label Cons.IH [of "p\<lparr>prvr := r\<rparr>"] Cons.prems by simp
qed simp

lemma read_name:
  "idle p \<Longrightarrow> at_lvl a = AttribName \<Longrightarrow> at_prvr a = 0 \<Longrightarrow> \<forall>r \<in> set n. validElmchar r \<Longrightarrow>
   \<exists>q. parseAll attrEvents n (p, a) = Some (q, a\<lparr>at_name := at_name a @ n\<rparr>) \<and> idle q"
proof (induction n arbitrary: p a)
  case (Cons r n)
  have "attrRune r (p\<lparr>prvr := r\<rparr>, a) = (True, (p\<lparr>prvr := r\<rparr>, a\<lparr>at_name := at_name a @ [r]\<rparr>))"
    using Cons.prems validElmchar_no_space [of r] by (auto simp: attrRune_def validElemChar_def Let_def)
  then show ?case
    using step_passive [OF Cons.prems(1), of r a] validElmchar_no_space [of r] Cons.prems
      Cons.IH [of "p\<lparr>prvr := r\<rparr>" "a\<lparr>at_name := at_name a @ [r]\<rparr>"] by simp
qed simp

lemma parseAll_append: "parseAll ev (xs @ ys) s = do { s1 \<leftarrow> parseAll ev xs s; parseAll ev ys s1 }"
proof (induction xs arbitrary: s)
  case (Cons r xs)
  then show ?case by (cases "parse ev r s") auto
qed simp

text \<open>White space, a name and the equals sign.\<close>

lemma read_head:
  assumes "idle p" "between a" "\<forall>r \<in> set sp. IsSpace r" "n \<noteq> []" "\<forall>r \<in> set n. validElmchar r"
  shows "\<exists>q. parseAll attrEvents (sp @ n @ [61]) (p, a) = Some (q, a\<lparr>at_name := n, at_lvl := AttribAssign\<rparr>) \<and> idle q"
proof -
  obtain r m where n: "n = r # m" using assms(4) by (cases n) auto
  obtain p1 where p1: "parseAll attrEvents sp (p, a) = Some (p1, a)" "idle p1" using read_spaces [OF assms(1-3)] by blast
  let ?a = "a\<lparr>at_name := [r], at_lvl := AttribName\<rparr>"
  have v: "validElmchar r" "\<forall>x \<in> set m. validElmchar x" using assms(5) n by auto
  have "attrRune r (p1\<lparr>prvr := r\<rparr>, a) = (True, (p1\<lparr>prvr := r\<rparr>, ?a))"
    using v validElmchar_no_space [of r] assms(2) by (auto simp: attrRune_def between_def validElemChar_def Let_def)
  then have h: "parse attrEvents r (p1, a) = Some (p1\<lparr>prvr := r\<rparr>, ?a)"
    using step_passive [OF p1(2)] validElmchar_no_space [OF v(1)] by simp
  have "at_prvr ?a = 0" using assms(2) by (simp add: between_def)
  with read_name [of "p1\<lparr>prvr := r\<rparr>" ?a m] v(2) p1(2) obtain p2 where
    p2: "parseAll attrEvents m (p1\<lparr>prvr := r\<rparr>, ?a) = Some (p2, ?a\<lparr>at_name := r # m\<rparr>)" "idle p2" by auto
  have e: "\<not> validElmchar 61" "\<not> IsSpace 61" by (simp_all add: validElmchar_def IsSpace_def unicode_IsSpace_def)
  have "attrRune 61 (p2\<lparr>prvr := 61\<rparr>, ?a\<lparr>at_name := r # m\<rparr>) = (True, (p2\<lparr>prvr := 61\<rparr>, a\<lparr>at_name := r # m, at_lvl := AttribAssign\<rparr>))"
    using e by (simp add: attrRune_def validElemChar_def Let_def)
  then have "parse attrEvents 61 (p2, ?a\<lparr>at_name := r # m\<rparr>) = Some (p2\<lparr>prvr := 61\<rparr>, a\<lparr>at_name := r # m, at_lvl := AttribAssign\<rparr>)"
    using step_passive [OF p2(2), of 61 "?a\<lparr>at_name := r # m\<rparr>"] by simp
  then show ?thesis using p1(1) h p2 n by (auto simp: parseAll_append)
qed

lemma assign_rune:
  assumes "idle p" "at_lvl a = AttribAssign" "txttst a = Some t" "isText t" "r \<noteq> 91"
  shows "parse attrEvents r (p, a) = Some (let (b, t1) = txtParse t r; a1 = a\<lparr>txttst := Some t1\<rparr> in
    if b \<and> \<not> isText t1 then attrFound (at_value a1) (p\<lparr>prvr := r\<rparr>, a1)
    else (p\<lparr>prvr := r\<rparr>, a1\<lparr>at_value := at_value a1 @ [r]\<rparr>))"
  using step_passive [OF assms(1,5), of a] assms(2-4) by (auto simp: attrRune_def Let_def split: prod.splits)

lemma read_value:
  assumes "idle p" "at_lvl a = AttribAssign" "txttst a = Some t" "txtr t = q" "alttxtr t = 0" "IsTxtPar q"
    "body_ok q (txt_prvr t) v" "91 \<notin> set v"
  shows "\<exists>p' t'. idle p' \<and> txtr t' = 0 \<and> alttxtr t' = 0 \<and> txt_prvr t' = 0 \<and>
    parseAll attrEvents (v @ [q]) (p, a) = Some (attrFound (at_value a @ v) (p', a\<lparr>txttst := Some t', at_value := at_value a @ v\<rparr>))"
  using assms
proof (induction v arbitrary: p a t)
  case Nil
  let ?t = "t\<lparr>lstr := q, txtr := 0, txt_prvr := 0\<rparr>"
  have "isText t" "q \<noteq> 91" using Nil by (auto simp: isText_def IsTxtPar_def)
  moreover have "txtParse t q = (True, ?t)" "\<not> isText ?t" using Nil by (auto simp: txtParse_def isText_def IsTxtPar_def Let_def)
  ultimately have "parse attrEvents q (p, a) = Some (attrFound (at_value a) (p\<lparr>prvr := q\<rparr>, a\<lparr>txttst := Some ?t\<rparr>))"
    using assign_rune [OF Nil(1-3)] by simp
  then show ?case using Nil by (intro exI [of _ "p\<lparr>prvr := q\<rparr>"] exI [of _ ?t]) (simp add: attrFound_def)
next
  case (Cons r v)
  let ?t = "t\<lparr>lstr := r, txt_prvr := r\<rparr>" and ?a = "a\<lparr>txttst := Some (t\<lparr>lstr := r, txt_prvr := r\<rparr>), at_value := at_value a @ [r]\<rparr>"
  have "isText t" "txtParse t r = (True, ?t)" "isText ?t" "r \<noteq> 91"
    using Cons.prems by (auto simp: txtParse_def isText_def IsTxtPar_def Let_def)
  then have "parse attrEvents r (p, a) = Some (p\<lparr>prvr := r\<rparr>, ?a)" using assign_rune [OF Cons.prems(1-3)] by simp
  moreover have "\<exists>p' t'. idle p' \<and> txtr t' = 0 \<and> alttxtr t' = 0 \<and> txt_prvr t' = 0 \<and>
      parseAll attrEvents (v @ [q]) (p\<lparr>prvr := r\<rparr>, ?a) =
        Some (attrFound (at_value ?a @ v) (p', ?a\<lparr>txttst := Some t', at_value := at_value ?a @ v\<rparr>))"
    using Cons.prems by (intro Cons.IH [of _ _ ?t]) auto
  ultimately show ?case by simp
qed

lemma read_inline:
  "within 0 p \<Longrightarrow> \<forall>r \<in> set v. r \<noteq> 36 \<and> \<not> IsTxtPar r \<Longrightarrow>
   parseAll attrEvents v (p, a) = Some (p, a\<lparr>atvrnes := atvrnes a @ v\<rparr>)"
  by (induction v arbitrary: a) (auto simp: step_active)

section \<open>Lists of attributes\<close>

text \<open>
  The text of an attribute: white space, name, and the value in quotes (\<open>Some\<close> of the quote) or
  between the labels.
\<close>

type_synonym attribute = "rune list \<times> rune list \<times> rune option \<times> rune list"

fun attr_text :: "attribute \<Rightarrow> rune list" where
  "attr_text (sp, n, Some q, v) = (sp @ n @ [61]) @ q # v @ [q]"
| "attr_text (sp, n, None, v) = (sp @ n @ [61]) @ AttrPre @ v @ AttrPost"

fun attr_ok :: "attribute \<Rightarrow> bool" where
  "attr_ok (sp, n, q, v) \<longleftrightarrow> (\<forall>r \<in> set sp. IsSpace r) \<and> n \<noteq> [] \<and> (\<forall>r \<in> set n. validElmchar r) \<and>
     (case q of Some q \<Rightarrow> IsTxtPar q \<and> body_ok q 0 v \<and> 91 \<notin> set v | None \<Rightarrow> \<forall>r \<in> set v. r \<noteq> 36 \<and> \<not> IsTxtPar r)"

fun attr_value :: "attribute \<Rightarrow> rune list \<times> rune list \<times> bool" where
  "attr_value (sp, n, q, v) = (n, v, v = [])"

definition attr_ready :: "attrst pst \<Rightarrow> bool" where
  "attr_ready s \<longleftrightarrow> idle (fst s) \<and> between (snd s)"

lemma read_quoted:
  assumes "attr_ready (p, a)" "attr_ok (sp, n, Some q, v)"
  shows "\<exists>s'. parseAll attrEvents (attr_text (sp, n, Some q, v)) (p, a) = Some s' \<and> attr_ready s' \<and>
    found (snd s') = found a @ [(n, v, v = [])] \<and> raw (snd s') = raw a"
proof -
  obtain t where t: "txttst a = Some t" "txtr t = 0" "alttxtr t = 0" "txt_prvr t = 0"
    using assms(1) by (auto simp: attr_ready_def between_def)
  let ?a = "a\<lparr>at_name := n, at_lvl := AttribAssign\<rparr>" and ?t = "t\<lparr>lstr := q, txtr := q\<rparr>"
  obtain p1 where p1: "parseAll attrEvents (sp @ n @ [61]) (p, a) = Some (p1, ?a)" "idle p1"
    using read_head [of p a sp n] assms by (auto simp: attr_ready_def)
  have q: "IsTxtPar q" "body_ok q 0 v" "91 \<notin> set v" "q \<noteq> 91" "\<not> IsSpace q" using assms(2) by (auto simp: IsTxtPar_def IsSpace_def)
  have "attrRune q (p1\<lparr>prvr := q\<rparr>, ?a) = (True, (p1\<lparr>prvr := q\<rparr>, ?a\<lparr>txttst := Some ?t\<rparr>))"
    using t q IsTxtPar_pos [of q] by (auto simp: attrRune_def txtParse_def isText_def Let_def)
  then have h: "parse attrEvents q (p1, ?a) = Some (p1\<lparr>prvr := q\<rparr>, ?a\<lparr>txttst := Some ?t\<rparr>)"
    using step_passive [OF p1(2) q(4), of ?a] by simp
  obtain p2 t2 where r: "idle p2" "txtr t2 = 0" "alttxtr t2 = 0" "txt_prvr t2 = 0"
      "parseAll attrEvents (v @ [q]) (p1\<lparr>prvr := q\<rparr>, ?a\<lparr>txttst := Some ?t\<rparr>) =
        Some (attrFound v (p2, ?a\<lparr>txttst := Some t2, at_value := v\<rparr>))"
    using read_value [of "p1\<lparr>prvr := q\<rparr>" "?a\<lparr>txttst := Some ?t\<rparr>" ?t q v] p1(2) t q assms(1)
    by (auto simp: attr_ready_def between_def)
  have "parseAll attrEvents (attr_text (sp, n, Some q, v)) (p, a) = Some (attrFound v (p2, ?a\<lparr>txttst := Some t2, at_value := v\<rparr>))"
    using p1(1) h r(5) by (simp only: attr_text.simps parseAll_append parseAll.simps bind.bind_lunit)
  then show ?thesis
    using r(1-4) assms(1) by (auto simp: attr_ready_def attrFound_def ParseValue_def between_def idle_def)
qed

lemma read_labelled:
  assumes "attr_ready (p, a)" "attr_ok (sp, n, None, v)"
  shows "\<exists>s'. parseAll attrEvents (attr_text (sp, n, None, v)) (p, a) = Some s' \<and> attr_ready s' \<and>
    found (snd s') = found a @ [(n, v, v = [])] \<and> raw (snd s') = raw a"
proof -
  let ?a = "a\<lparr>at_name := n, at_lvl := AttribAssign\<rparr>"
  obtain p1 where p1: "parseAll attrEvents (sp @ n @ [61]) (p, a) = Some (p1, ?a)" "idle p1"
    using read_head [of p a sp n] assms by (auto simp: attr_ready_def)
  obtain p2 where p2: "parse attrEvents 36 (p1\<lparr>prei := 1, prvr := 91\<rparr>, ?a) = Some (p2, ?a)" "within 0 p2"
    using step_opened [OF p1(2)] by blast
  have "atvrnes ?a = []" using assms(1) by (simp add: attr_ready_def between_def)
  then have v: "parseAll attrEvents v (p2, ?a) = Some (p2, ?a\<lparr>atvrnes := v\<rparr>)"
    using read_inline [OF p2(2), of v ?a] assms(2) by simp
  have "parseAll attrEvents (attr_text (sp, n, None, v)) (p, a) = Some (rewind (snd (activeDone (p2\<lparr>posti := 2\<rparr>, ?a\<lparr>atvrnes := v\<rparr>))))"
    using p1(1) step_bracket [OF p1(2), of ?a] p2(1) v step_dollar [OF p2(2)] step_closed [OF p2(2)]
    by (simp only: attr_text.simps parseAll_append append_Cons append_Nil parseAll.simps bind.bind_lunit)
  then show ?thesis
    using p2(2) assms(1)
    by (auto simp: attr_ready_def activeDone_def attrFound_def ParseValue_def between_def within_def idle_def rewind_def ResetParsing_def Let_def)
qed

lemma read_attributes:
  "attr_ready s \<Longrightarrow> \<forall>x \<in> set xs. attr_ok x \<Longrightarrow>
   \<exists>s'. parseAll attrEvents (concat (map attr_text xs)) s = Some s' \<and> attr_ready s' \<and> found (snd s') = found (snd s) @ map attr_value xs \<and>
     raw (snd s') = raw (snd s)"
proof (induction xs arbitrary: s)
  case (Cons x xs)
  obtain sp n q v where x: "x = (sp, n, q, v)" by (metis prod_cases4)
  have "\<exists>s1. parseAll attrEvents (attr_text x) s = Some s1 \<and> attr_ready s1 \<and> found (snd s1) = found (snd s) @ [attr_value x] \<and>
      raw (snd s1) = raw (snd s)"
    using read_quoted [of "fst s" "snd s" sp n "the q" v] read_labelled [of "fst s" "snd s" sp n v] Cons.prems x by (cases q) auto
  then obtain s1 where "parseAll attrEvents (attr_text x) s = Some s1" "attr_ready s1" "found (snd s1) = found (snd s) @ [attr_value x]"
    "raw (snd s1) = raw (snd s)" by blast
  then show ?case using Cons.IH [of s1] Cons.prems by (auto simp: parseAll_append)
qed simp

section \<open>No panic\<close>

text \<open>The states the label parser of the attributes can be in.\<close>

definition lab_ok :: "Parsing \<Rightarrow> bool" where
  "lab_ok p \<longleftrightarrow> prelbl p = AttrPre \<and> preL p = 2 \<and> postlbl p = AttrPost \<and> postL p = 2 \<and> pretxtprs p = None \<and> bufdrns p = [] \<and>
     (prei p = 0 \<and> posti p = 0 \<or> prei p = 1 \<and> posti p = 0 \<and> prvr p = 91 \<or> prei p = 2 \<and> posti p < 2)"

lemma attrRune_keeps:
  assumes "lab_ok p"
  shows "\<exists>p' a'. snd (attrRune r (p, a)) = (p', a') \<and> lab_ok p' \<and> prei p' = prei p \<and> posti p' = posti p \<and> raw a' = raw a"
  using assms
  by (auto simp: attrRune_def Let_def attrFound_def ParseValue_def lab_ok_def split: proplevel.splits option.splits prod.splits if_splits)

lemma attrPassive_keeps:
  "lab_ok p \<Longrightarrow> \<exists>p' a'. attrPassive rs (p, a) = (p', a') \<and> lab_ok p' \<and> prei p' = prei p \<and> posti p' = posti p \<and> raw a' = raw a"
proof (induction rs arbitrary: p a)
  case (Cons r rs)
  obtain b p1 a1 where r: "attrRune r (p, a) = (b, (p1, a1))" by (metis prod.exhaust)
  then have "lab_ok p1" "prei p1 = prei p" "posti p1 = posti p" "raw a1 = raw a" using attrRune_keeps [OF Cons.prems, of r a] by auto
  then show ?case using Cons.IH [of p1 a1] r by (auto split: if_splits)
qed simp

lemma attrParse_pre:
  assumes "lab_ok p" "prei p < 2"
  shows "\<exists>p' a'. parse attrEvents r (p, a) = Some (p', a') \<and> lab_ok p' \<and> raw a' = raw a"
proof -
  show ?thesis
  proof (cases "prei p = 0")
    case True
    then show ?thesis
      using assms attrPassive_keeps [of "p\<lparr>pretxtprs := None, prvr := r\<rparr>" "[r]" a]
      by (subst parse.simps) (auto simp: lab_ok_def parsePre_def txtParseOpt_def matchPre_def CanPreParse_def attrEvents_def brokenPre_def
          go_index_def passPre_def evtpre_def Let_def)
  next
    case False
    then have one: "prei p = 1" "posti p = 0" "prvr p = 91" using assms by (auto simp: lab_ok_def)
    let ?p = "p\<lparr>pretxtprs := None\<rparr>"
    have "lab_ok ?p" using assms by (simp add: lab_ok_def)
    from attrPassive_keeps [OF this, of "[91]" a] one obtain p1 a1 where
      f: "attrPassive [91] (?p, a) = (p1, a1)" "lab_ok p1" "raw a1 = raw a" "prei p1 = 1" "posti p1 = 0" by auto
    obtain p2 a2 where g: "attrPassive [r] (p1\<lparr>prei := 0, prvr := r\<rparr>, a1) = (p2, a2)" "lab_ok p2" "raw a2 = raw a"
      using attrPassive_keeps [of "p1\<lparr>prei := 0, prvr := r\<rparr>" "[r]" a1] f by (auto simp: lab_ok_def)
    show ?thesis
      using one f g assms
      by (subst parse.simps) (auto simp: lab_ok_def parsePre_def txtParseOpt_def matchPre_def CanPreParse_def attrEvents_def brokenPre_def
          go_index_def go_slice_def passPre_def evtpre_def rewindPre_def passiveDone_def Let_def simp del: attrPassive.simps)
  qed
qed

lemma activeDone_keeps:
  assumes "lab_ok (p\<lparr>posti := 0\<rparr>)"
  shows "\<exists>p' a'. rewind (snd (activeDone (p, a))) = (p', a') \<and> lab_ok p' \<and> raw a' = raw a"
  using assms by (auto simp: activeDone_def attrFound_def ParseValue_def rewind_def ResetParsing_def lab_ok_def Let_def)

lemma attrParse_post:
  assumes "lab_ok p" "prei p = 2"
  shows "\<exists>p' a'. parse attrEvents r (p, a) = Some (p', a') \<and> lab_ok p' \<and> raw a' = raw a"
proof -
  obtain b t where bt: "txtParseOpt (posttxtprs p) r = (b, t)" by force
  define q where "q = p\<lparr>posttxtprs := t\<rparr>"
  have q: "lab_ok q" "prei q = 2" "lab_ok (ResetParsing q)" "prei (ResetParsing q) < 2" "lab_ok (q\<lparr>posti := 1\<rparr>)"
    "lab_ok ((q\<lparr>posti := Suc (Suc 0)\<rparr>)\<lparr>posti := 0\<rparr>)"
    using assms by (auto simp: q_def lab_ok_def ResetParsing_def)
  have l: "prelbl p = AttrPre" "preL p = 2" "postlbl p = AttrPost" "postL p = 2" "posti p = 0 \<or> posti p = 1" "posti q = posti p"
    "postlbl q = AttrPost" "postL q = 2" using assms by (auto simp: lab_ok_def q_def)
  show ?thesis
    using assms(2) l q(1,2,5) bt attrParse_pre [OF q(3,4), of r a] activeDone_keeps [OF q(6), of a]
    by (subst parse.simps) (auto simp: q_def [symmetric] evtpost_def activeRunes_def attrEvents_def matchPost_def CanPostParse_def
        go_index_def go_slice_def rewind_def Let_def)
qed

lemma attr_parse_total:
  "lab_ok p \<Longrightarrow> \<exists>p' a'. parse attrEvents r (p, a) = Some (p', a') \<and> lab_ok p' \<and> raw a' = raw a"
  using attrParse_pre [of p r a] attrParse_post [of p r a] by (cases "prei p < 2") (auto simp: lab_ok_def)

definition attrs_ok :: "attributeparser \<Rightarrow> bool" where
  "attrs_ok x = (case fst x of Some p \<Rightarrow> lab_ok p | None \<Rightarrow> False)"

lemma attrParse_total:
  assumes "attrs_ok x"
  shows "\<exists>x'. attrParse [r] x = Some x' \<and> attrs_ok x' \<and> raw (snd x') = raw (snd x) @ [r]"
proof -
  obtain p a where x: "x = (Some p, a)" "lab_ok p" using assms by (cases x) (auto simp: attrs_ok_def split: option.splits)
  then have "bufdrns p = []" by (simp add: lab_ok_def)
  with attr_parse_total [OF x(2), of r "a\<lparr>raw := raw a @ [r], rawl := rawl a + 1\<rparr>"] show ?thesis
    by (auto simp: attrParse_def x(1) Parse_def attrs_ok_def)
qed

lemma nextattrbprsr_ok: "attrs_ok (nextattrbprsr AttrPre AttrPost)"
  by (simp add: attrs_ok_def nextattrbprsr_def nextparsing_def lab_ok_def)

text \<open>
  Defect: a name without a value is glued to the next name, since white space behind a name is
  skipped.  A dollar sign in a labelled value drops the value.
\<close>

lemma valueless_merges:
  "map_option (\<lambda>x. found (snd x)) (attrParse [97, 32, 98, 61, 34, 99, 34] (nextattrbprsr AttrPre AttrPost)) = Some [([97, 98], [99], False)]"
  by code_simp

lemma dollar_drops:
  "map_option (\<lambda>x. (found (snd x), invdl (snd x))) (attrParse [97, 61, 91, 36, 98, 36, 99, 36, 93] (nextattrbprsr AttrPre AttrPost)) =
     Some ([], True)"
  by code_simp

section \<open>Properties\<close>

text \<open>
  Claim C25: attributes written out are read back.  For every non-empty list of attributes, each optional white space, a name of valid element
  characters and a value, either in single, double or back quotes, with that quote in it only behind a backslash, not ending in a
  backslash and without an opening bracket, or between the labels, without a dollar sign and without quotes, the parser reports exactly these names
  and values, in order and once each, is between two attributes again, and keeps the raw text.  The other values are excluded because the
  code does not keep them: a dollar sign drops a labelled value (\<open>dollar_drops\<close>).
\<close>

theorem attributes_roundtrip:
  assumes "\<forall>x \<in> set xs. attr_ok x" "xs \<noteq> []"
  shows "\<exists>p a. attrParse (concat (map attr_text xs)) (nextattrbprsr AttrPre AttrPost) = Some (Some p, a) \<and>
    found a = map attr_value xs \<and> \<not> invdl a \<and> at_name a = [] \<and> raw a = concat (map attr_text xs) \<and> \<not> Busy p"
proof -
  define rs where "rs = concat (map attr_text xs)"
  have ne: "0 < length rs" using assms(2) by (cases xs, simp, cases "hd xs") (auto simp: rs_def elim!: attr_text.elims)
  obtain p0 a0 where n: "nextattrbprsr AttrPre AttrPost = (Some p0, a0)" "bufdrns p0 = []" "found a0 = []" "raw a0 = []" "attr_ready (p0, a0)"
    by (simp add: nextattrbprsr_def nextparsing_def attr_ready_def idle_def between_def newTextparsing_def)
  let ?a = "a0\<lparr>raw := rs, rawl := rawl a0 + length rs\<rparr>"
  have "attr_ready (p0, ?a)" using n(5) by (simp add: attr_ready_def between_def)
  from read_attributes [OF this assms(1)] n(3) obtain s where
    s: "parseAll attrEvents rs (p0, ?a) = Some s" "attr_ready s" "found (snd s) = map attr_value xs" "raw (snd s) = rs"
    by (auto simp: rs_def)
  have "attrParse rs (nextattrbprsr AttrPre AttrPost) = Some (Some (fst s), snd s)"
    using s(1) n ne by (cases s) (simp add: attrParse_def Parse_def)
  then show ?thesis using s unfolding rs_def by (auto simp: attr_ready_def between_def idle_def Busy_def)
qed

theorem attributes_roundtrip_witness:
  "\<exists>p a. attrParse [97, 61, 34, 98, 34, 32, 99, 61, 91, 36, 100, 36, 93] (nextattrbprsr AttrPre AttrPost) = Some (Some p, a) \<and>
     found a = [([97], [98], False), ([99], [100], False)]"
  using attributes_roundtrip [of "[([], [97], Some 34, [98]), ([32], [99], None, [100])]"]
  by (auto simp: validElmchar_def IsTxtPar_def IsSpace_def)

end
