(* ===== verification/ElementParsing.thy ===== *)
theory ElementParsing
  imports AttributeParser CodeParsing
begin

text \<open>
  The element test of \<open>src/template/content.go\<close>.  The content parser is a client of the label parser
  with the labels \<open><\<close> and \<open>>\<close>.  Text outside goes to the code parser.  Behind \<open><\<close> it collects the
  name and the attributes of what may be an element; as soon as that fails it hands the text
  collected so far to the code parser (\<open>resetTest\<close>) and starts over.
\<close>

section \<open>State\<close>

datatype ElemLevel = ElemUnkown | ElemStart | ElemSingle | ElemEnd

text \<open>The attributes of the element under test; \<open>None\<close> is the nil map.\<close>

type_synonym attrmap = "(rune list \<Rightarrow> rune list option) option"

record elemst =
  tstname :: "rune list"
  tstr :: rune
  tstlvl :: ElemLevel
  tstatrbs :: "attributeparser option"
  lstattrbs :: attrmap
  cde :: "cdest pst option"

definition newElem :: "cdest pst option \<Rightarrow> elemst" where
  "newElem d = \<lparr>tstname = [], tstr = 0, tstlvl = ElemUnkown, tstatrbs = None, lstattrbs = None, cde = d\<rparr>"

section \<open>Operations\<close>

definition cdeRune :: "rune \<Rightarrow> cdest pst \<Rightarrow> cdest pst option" where
  "cdeRune r d = parse cdeEvents r d"

fun cdeRunes :: "rune list \<Rightarrow> cdest pst \<Rightarrow> cdest pst option" where
  "cdeRunes [] d = Some d"
| "cdeRunes (r # rs) d = do { d1 \<leftarrow> cdeRune r d; cdeRunes rs d1 }"

definition preRunes :: "rune list \<Rightarrow> elemst pst \<Rightarrow> elemst pst option" where
  "preRunes rns s =
     (case cde (snd s) of
        None \<Rightarrow> Some s
      | Some d \<Rightarrow> do { d1 \<leftarrow> cdeRunes rns d; Some (fst s, (snd s)\<lparr>cde := Some d1\<rparr>) })"

definition matchPreElem :: "elemst pst \<Rightarrow> elemst pst" where
  "matchPreElem s = s"

text \<open>\<open>setArributeValue\<close>: values are rune slices; those without a name collect under \<open>pre\<close> or \<open>post\<close>.\<close>

definition setArributeValue :: "rune list \<Rightarrow> rune list \<Rightarrow> bool \<Rightarrow> elemst \<Rightarrow> elemst" where
  "setArributeValue name val emp c =
     (let m = (case lstattrbs c of Some m \<Rightarrow> m | None \<Rightarrow> Map.empty(name \<mapsto> val)) in
      if 0 < length name then c\<lparr>lstattrbs := Some (m(name \<mapsto> val))\<rparr>
      else if \<not> emp then
        (let tstnme = (if tstlvl c = ElemEnd then [112, 111, 115, 116] else [112, 114, 101]) in
         if 0 < length val then
           (let crntvl = (case m tstnme of Some v \<Rightarrow> v | None \<Rightarrow> []) in
            if length crntvl = 0 then c\<lparr>lstattrbs := Some (m(tstnme \<mapsto> val))\<rparr>
            else c\<lparr>lstattrbs := Some (m(tstnme \<mapsto> crntvl @ val))\<rparr>)
         else c\<lparr>lstattrbs := Some m\<rparr>)
      else c\<lparr>lstattrbs := Some m\<rparr>)"

text \<open>
  Feeding a rune to the attribute parser: the values it finds go to \<open>setArributeValue\<close>, in the
  order they are found.
\<close>

definition takeFound :: "attributeparser \<Rightarrow> elemst \<Rightarrow> elemst" where
  "takeFound x c =
     (foldl (\<lambda>c (n, v, e). setArributeValue n v e c) c (found (snd x)))
       \<lparr>tstatrbs := Some (fst x, (snd x)\<lparr>found := []\<rparr>)\<rparr>"

definition feedAttrs :: "rune \<Rightarrow> attributeparser \<Rightarrow> elemst \<Rightarrow> elemst option" where
  "feedAttrs r x c = do { x1 \<leftarrow> attrParse [r] x; Some (takeFound x1 c) }"

definition attrRaw :: "attributeparser option \<Rightarrow> rune list" where
  "attrRaw x = (case x of Some x \<Rightarrow> raw (snd x) | None \<Rightarrow> [])"

definition resetTest :: "bool \<Rightarrow> rune list \<Rightarrow> elemst pst \<Rightarrow> elemst pst option" where
  "resetTest prs rns s =
     (let p = fst s; c = snd s;
          c1 = c\<lparr>tstlvl := ElemUnkown, tstatrbs := None, tstname := [], tstr := 0\<rparr>;
          prsrns =
            (if prs then
               (if tstlvl c = ElemSingle then prelbl p @ tstname c @ attrRaw (tstatrbs c) @ [47] @ rns
                else prelbl p @ (if tstlvl c = ElemEnd then [47] else []) @ tstname c @ attrRaw (tstatrbs c) @ rns)
             else []) in
      if 0 < length prsrns then preRunes prsrns (p, c1) else Some (p, c1))"

text \<open>The end of a failed test: reset, and the rest of the runes goes back to the label parser.\<close>

definition failTest :: "rune list \<Rightarrow> rune list \<Rightarrow> elemst pst \<Rightarrow> (bool \<times> elemst pst) option" where
  "failTest rns rest s = do { s1 \<leftarrow> resetTest True rns s; Some (True, ((fst s1)\<lparr>bufdrns := rest\<rparr>, snd s1)) }"

fun postLoop :: "bool \<Rightarrow> bool \<Rightarrow> rune list \<Rightarrow> elemst pst \<Rightarrow> (bool \<times> elemst pst) option" where
  "postLoop canreset fndspace [] s = Some (canreset, s)"
| "postLoop canreset fndspace (r # rs) s =
     (let p = fst s; c = snd s in
      case tstlvl c of
        ElemUnkown \<Rightarrow>
          if r = 47 then postLoop canreset fndspace rs (p, c\<lparr>tstlvl := ElemEnd\<rparr>)
          else if fst (validElemChar (tstr c) r) then
            postLoop canreset fndspace rs (p, c\<lparr>tstname := tstname c @ [r], tstlvl := ElemStart, tstr := r\<rparr>)
          else failTest [r] rs s
      | ElemStart \<Rightarrow>
          (case tstatrbs c of
             Some x \<Rightarrow>
               if attrBusy x then do { c1 \<leftarrow> feedAttrs r x c; postLoop canreset fndspace rs (p, c1) }
               else if at_lvl (snd x) \<in> {AttribUknown, AttribContinue} \<and> r = 47 then
                 postLoop canreset fndspace rs (p, c\<lparr>tstlvl := ElemSingle\<rparr>)
               else
                 do {
                   c1 \<leftarrow> feedAttrs r x c;
                   if (case tstatrbs c1 of Some x1 \<Rightarrow> invdl (snd x1) | None \<Rightarrow> False) then failTest [r] rs (p, c1)
                   else postLoop canreset fndspace rs (p, c1)
                 }
           | None \<Rightarrow>
               if r = 47 then postLoop canreset fndspace rs (p, c\<lparr>tstlvl := ElemSingle\<rparr>)
               else
                 (let (valid, sp) = validElemChar (tstr c) r; fndspace1 = (fndspace \<or> sp) in
                  if valid then postLoop canreset fndspace1 rs (p, c\<lparr>tstname := tstname c @ [r], tstr := r\<rparr>)
                  else if fndspace1 \<and> 0 < length (tstname c) then
                    (let (po, a) = nextattrbprsr AttrPre AttrPost in
                     postLoop canreset fndspace1 rs (p, c\<lparr>tstatrbs := Some (po, a\<lparr>raw := raw a @ [r]\<rparr>)\<rparr>))
                  else failTest [r] rs s))
      | ElemSingle \<Rightarrow> failTest [47, r] rs s
      | ElemEnd \<Rightarrow>
          if fst (validElemChar (tstr c) r) then postLoop canreset fndspace rs (p, c\<lparr>tstname := tstname c @ [r], tstr := r\<rparr>)
          else failTest [r] rs s)"

definition postRunes :: "bool \<Rightarrow> rune list \<Rightarrow> elemst pst \<Rightarrow> (bool \<times> elemst pst) option" where
  "postRunes canreset rns s =
     (if canreset then do { s1 \<leftarrow> resetTest True rns s; Some (True, s1) }
      else postLoop canreset False rns s)"

section \<open>The text under test\<close>

definition held :: "elemst \<Rightarrow> rune list" where
  "held c = (if tstlvl c = ElemEnd then [47] else []) @ tstname c @ attrRaw (tstatrbs c) @ (if tstlvl c = ElemSingle then [47] else [])"

text \<open>A test that has read the text \<open>t\<close> behind the start label.\<close>

definition testing :: "rune list \<Rightarrow> elemst \<Rightarrow> bool" where
  "testing t c \<longleftrightarrow> held c = t \<and>
     (tstlvl c = ElemUnkown \<longrightarrow> t = [] \<and> tstatrbs c = None) \<and> (tstlvl c = ElemEnd \<longrightarrow> tstatrbs c = None) \<and>
     (tstlvl c = ElemStart \<longrightarrow> tstname c \<noteq> []) \<and> (\<forall>x. tstatrbs c = Some x \<longrightarrow> attrs_ok x \<and> (\<exists>r \<in> set t. IsSpace r))"

definition cleared :: "elemst \<Rightarrow> bool" where
  "cleared c \<longleftrightarrow> tstlvl c = ElemUnkown \<and> tstatrbs c = None \<and> tstname c = [] \<and> tstr c = 0"

lemma testing_fresh [simp]: "testing [] (newElem d)"
  by (simp add: testing_def newElem_def held_def attrRaw_def)

lemma setArributeValue_keeps [simp]:
  "tstname (setArributeValue n v e c) = tstname c" "tstlvl (setArributeValue n v e c) = tstlvl c"
  "cde (setArributeValue n v e c) = cde c" "tstr (setArributeValue n v e c) = tstr c"
  by (simp_all add: setArributeValue_def Let_def)

lemma found_keeps [simp]:
  "tstname (foldl (\<lambda>c (n, v, e). setArributeValue n v e c) c fs) = tstname c"
  "tstlvl (foldl (\<lambda>c (n, v, e). setArributeValue n v e c) c fs) = tstlvl c"
  "cde (foldl (\<lambda>c (n, v, e). setArributeValue n v e c) c fs) = cde c"
  by (induction fs arbitrary: c) auto

lemma feedAttrs_feeds:
  assumes "attrs_ok x"
  shows "\<exists>c' x'. feedAttrs r x c = Some c' \<and> tstatrbs c' = Some x' \<and> attrs_ok x' \<and> raw (snd x') = raw (snd x) @ [r] \<and>
    tstname c' = tstname c \<and> tstlvl c' = tstlvl c \<and> cde c' = cde c"
  using attrParse_total [OF assms, of r] by (auto simp: feedAttrs_def takeFound_def attrs_ok_def)

text \<open>What a failing rune makes \<open>resetTest\<close> hand on.\<close>

definition surplus :: "rune \<Rightarrow> elemst \<Rightarrow> rune list" where
  "surplus r c = (if tstlvl c = ElemSingle then [47] else if tstatrbs c \<noteq> None then [r] else [])"

definition hands_on :: "rune list \<Rightarrow> elemst pst \<Rightarrow> (bool \<times> elemst pst) option \<Rightarrow> bool" where
  "hands_on t s y \<longleftrightarrow> (\<exists>c'. cleared c' \<and> cde c' = cde (snd s) \<and>
     y = do { s1 \<leftarrow> preRunes (prelbl (fst s) @ t) (fst s, c'); Some (True, ((fst s1)\<lparr>bufdrns := []\<rparr>, snd s1)) })"

lemma failTest_hands_on:
  assumes "0 < length rns" "cde c = d"
  shows "hands_on (held c @ rns) (p, c\<lparr>cde := d\<rparr>) (failTest rns [] (p, c))"
  using assms
  by (auto simp: hands_on_def failTest_def resetTest_def Let_def cleared_def held_def
      intro!: exI [of _ "c\<lparr>tstlvl := ElemUnkown, tstatrbs := None, tstname := [], tstr := 0\<rparr>"])

lemma hands_on_cde: "hands_on t (p, c) y \<Longrightarrow> cde c = cde c' \<Longrightarrow> hands_on t (p, c') y"
  by (simp add: hands_on_def)

lemma failTest_text:
  assumes "0 < length rns" "cde c = cde c0" "held c @ rns = t"
  shows "hands_on t (p, c0) (failTest rns [] (p, c))"
  using failTest_hands_on [OF assms(1) refl, of c p] assms(2,3) by (auto simp: hands_on_def)

text \<open>One rune: it is taken up by the test, or everything read so far is handed on.\<close>

definition taken_up :: "rune list \<Rightarrow> elemst pst \<Rightarrow> (bool \<times> elemst pst) option \<Rightarrow> bool" where
  "taken_up t s y \<longleftrightarrow> (\<exists>c'. y = Some (False, (fst s, c')) \<and> testing t c' \<and> cde c' = cde (snd s))"

lemma attr_rune:
  assumes t: "testing t c" "tstlvl c = ElemStart" "tstatrbs c = Some x"
  shows "taken_up (t @ [r]) (p, c) (postRunes False [r] (p, c)) \<or> hands_on (t @ surplus r c @ [r]) (p, c) (postRunes False [r] (p, c))"
proof -
  have x: "attrs_ok x" "\<exists>r \<in> set t. IsSpace r" "tstname c \<noteq> []" "t = tstname c @ raw (snd x)" using t by (auto simp: testing_def held_def attrRaw_def)
  obtain c1 x1 where f: "feedAttrs r x c = Some c1" "tstatrbs c1 = Some x1" "attrs_ok x1" "raw (snd x1) = raw (snd x) @ [r]"
      "tstname c1 = tstname c" "tstlvl c1 = ElemStart" "cde c1 = cde c"
    using feedAttrs_feeds [OF x(1), of r c] t(2) by auto
  have h1: "held c1 = t @ [r]" using f t(2) x(4) by (simp add: held_def attrRaw_def)
  then have t1: "testing (t @ [r]) c1" using f x by (auto simp: testing_def)
  have t2: "testing (t @ [r]) (c\<lparr>tstlvl := ElemSingle\<rparr>)" if "r = 47"
    using that x t(3) by (auto simp: testing_def held_def attrRaw_def)
  have fl: "hands_on (t @ surplus r c @ [r]) (p, c) (failTest [r] [] (p, c1))"
    using failTest_text [of "[r]" c1 c "t @ [r, r]" p] f(7) h1 t by (simp add: surplus_def)
  show ?thesis
    using t f(1,2,7) t1 t2 fl by (auto simp: postRunes_def taken_up_def Let_def)
qed

lemma post_rune:
  assumes t: "testing t c"
  shows "taken_up (t @ [r]) (p, c) (postRunes False [r] (p, c)) \<or> hands_on (t @ surplus r c @ [r]) (p, c) (postRunes False [r] (p, c))"
proof (cases "tstlvl c = ElemStart \<and> tstatrbs c \<noteq> None")
  case True
  then show ?thesis using attr_rune [OF t] by auto
next
  case False
  have h: "held c = t" using t by (simp add: testing_def)
  have fl: "hands_on (t @ surplus r c @ [r]) (p, c) (failTest (surplus r c @ [r]) [] (p, c))"
    using failTest_text [of "surplus r c @ [r]" c c "t @ surplus r c @ [r]" p] h by simp
  have sp: "surplus r c = (if tstlvl c = ElemSingle then [47] else [])"
    using False t by (auto simp: surplus_def testing_def) (metis ElemLevel.exhaust option.exhaust)+
  have n: "testing (t @ [r]) (c\<lparr>tstatrbs := Some (fst (nextattrbprsr AttrPre AttrPost), (snd (nextattrbprsr AttrPre AttrPost))\<lparr>raw := [r]\<rparr>)\<rparr>)"
    if "tstlvl c = ElemStart" "tstatrbs c = None" "IsSpace r"
    using that t nextattrbprsr_ok by (auto simp: testing_def held_def attrRaw_def attrs_ok_def)
  show ?thesis
  proof (cases "tstlvl c")
    case ElemUnkown
    then show ?thesis using t fl sp by (auto simp: postRunes_def taken_up_def testing_def held_def attrRaw_def Let_def)
  next
    case ElemEnd
    then show ?thesis using t fl sp by (auto simp: postRunes_def taken_up_def testing_def held_def attrRaw_def Let_def)
  next
    case ElemSingle
    then show ?thesis using fl sp by (auto simp: postRunes_def)
  next
    case ElemStart
    then have none: "tstatrbs c = None" using False by blast
    obtain po a where x: "nextattrbprsr AttrPre AttrPost = (po, a)" "raw a = []" by (simp add: nextattrbprsr_def)
    consider (slash) "r = 47" | (name) "r \<noteq> 47" "fst (validElemChar (tstr c) r)"
      | (space) "r \<noteq> 47" "\<not> fst (validElemChar (tstr c) r)" "IsSpace r" | (other) "r \<noteq> 47" "\<not> fst (validElemChar (tstr c) r)" "\<not> IsSpace r" by blast
    then show ?thesis
    proof cases
      case slash
      then have "testing (t @ [r]) (c\<lparr>tstlvl := ElemSingle\<rparr>)" using ElemStart none t by (simp add: testing_def held_def attrRaw_def)
      then show ?thesis using slash ElemStart none by (simp add: postRunes_def taken_up_def)
    next
      case name
      then have "testing (t @ [r]) (c\<lparr>tstname := tstname c @ [r], tstr := r\<rparr>)" using ElemStart none t by (simp add: testing_def held_def attrRaw_def)
      then show ?thesis using name ElemStart none by (cases "validElemChar (tstr c) r") (simp add: postRunes_def taken_up_def)
    next
      case space
      moreover have "tstname c \<noteq> []" using t ElemStart by (simp add: testing_def)
      ultimately show ?thesis using n ElemStart none x by (simp add: postRunes_def taken_up_def validElemChar_def)
    next
      case other
      then have "snd (validElemChar (tstr c) r) = False" by (simp add: validElemChar_def)
      then show ?thesis using other ElemStart none fl sp by (cases "validElemChar (tstr c) r") (simp add: postRunes_def)
    qed
  qed
qed

section \<open>Properties\<close>

text \<open>The runes behind \<open><\<close>, one call of \<open>postRunes\<close> each, up to the first that ends the test.\<close>

fun testRun :: "rune list \<Rightarrow> elemst pst \<Rightarrow> (bool \<times> rune list \<times> elemst pst) option" where
  "testRun [] s = Some (False, [], s)"
| "testRun (r # rs) s =
     do { (rst, s1) \<leftarrow> postRunes False [r] s; if rst then Some (True, rs, s1) else testRun rs s1 }"

lemma testRun_outcome:
  assumes "testing t c"
  shows "(\<exists>c'. testRun rs (p, c) = Some (False, [], (p, c')) \<and> testing (t @ rs) c' \<and> cde c' = cde c) \<or>
    (\<exists>xs r ys e c'. rs = xs @ r # ys \<and> cleared c' \<and> cde c' = cde c \<and> e \<in> {[], [r], [47]} \<and>
       (e \<noteq> [] \<longrightarrow> (\<exists>x \<in> set (t @ xs). IsSpace x \<or> x = 47)) \<and>
       testRun rs (p, c) = do { s \<leftarrow> preRunes (prelbl p @ t @ xs @ e @ [r]) (p, c'); Some (True, ys, ((fst s)\<lparr>bufdrns := []\<rparr>, snd s)) })"
  using assms
proof (induction rs arbitrary: t c)
  case Nil
  then show ?case by simp
next
  case (Cons r rs)
  consider (up) "taken_up (t @ [r]) (p, c) (postRunes False [r] (p, c))"
    | (on) "hands_on (t @ surplus r c @ [r]) (p, c) (postRunes False [r] (p, c))" using post_rune [OF Cons.prems] by blast
  then show ?case
  proof cases
    case up
    then obtain c1 where c1: "postRunes False [r] (p, c) = Some (False, (p, c1))" "testing (t @ [r]) c1" "cde c1 = cde c"
      by (auto simp: taken_up_def)
    from Cons.IH [OF c1(2)] show ?thesis
    proof (elim disjE exE conjE)
      fix c'
      assume "testRun rs (p, c1) = Some (False, [], p, c')" "testing ((t @ [r]) @ rs) c'" "cde c' = cde c1"
      then show ?thesis using c1 by auto
    next
      fix xs q ys e c'
      assume a: "rs = xs @ q # ys" "cleared c'" "cde c' = cde c1" "e \<in> {[], [q], [47]}"
        "e \<noteq> [] \<longrightarrow> (\<exists>x \<in> set ((t @ [r]) @ xs). IsSpace x \<or> x = 47)"
        "testRun rs (p, c1) = do { s \<leftarrow> preRunes (prelbl p @ (t @ [r]) @ xs @ e @ [q]) (p, c'); Some (True, ys, ((fst s)\<lparr>bufdrns := []\<rparr>, snd s)) }"
      show ?thesis
        by (rule disjI2, rule exI [of _ "r # xs"], rule exI [of _ q], rule exI [of _ ys], rule exI [of _ e], rule exI [of _ c'])
          (use a c1 in auto)
    qed
  next
    case on
    then obtain c' where c': "cleared c'" "cde c' = cde c"
        "postRunes False [r] (p, c) = do { s1 \<leftarrow> preRunes (prelbl p @ t @ surplus r c @ [r]) (p, c'); Some (True, ((fst s1)\<lparr>bufdrns := []\<rparr>, snd s1)) }"
      by (auto simp: hands_on_def)
    have "surplus r c \<in> {[], [r], [47]}" by (auto simp: surplus_def)
    moreover have "surplus r c \<noteq> [] \<longrightarrow> (\<exists>x \<in> set (t @ []). IsSpace x \<or> x = 47)"
      using Cons.prems by (auto simp: surplus_def testing_def held_def)
    moreover have "testRun (r # rs) (p, c) = do { s \<leftarrow> preRunes (prelbl p @ t @ [] @ surplus r c @ [r]) (p, c'); Some (True, rs, ((fst s)\<lparr>bufdrns := []\<rparr>, snd s)) }"
      using c'(3) by (cases "preRunes (prelbl p @ t @ surplus r c @ [r]) (p, c')") auto
    ultimately show ?thesis using c'(1,2)
      by (intro disjI2 exI [of _ "[]"] exI [of _ r] exI [of _ rs] exI [of _ "surplus r c"] exI [of _ c']) simp
  qed
qed

text \<open>
  Claim C24: an element test loses nothing.  Whatever runes follow the start label, either all of
  them are taken up and the test holds exactly them, or the test ends at some rune and the code
  parser gets the start label and every rune read, in order.  Only behind white space or a slash
  may one rune be handed on twice (a defect of \<open>resetTest\<close>).  The attribute parser never panics.
\<close>

theorem element_test_lossless:
  shows "(\<exists>c'. testRun rs (p, newElem d) = Some (False, [], (p, c')) \<and> held c' = rs \<and> cde c' = d) \<or>
    (\<exists>xs r ys e c'. rs = xs @ r # ys \<and> cleared c' \<and> cde c' = d \<and> e \<in> {[], [r], [47]} \<and>
       ((\<forall>x \<in> set xs. \<not> IsSpace x \<and> x \<noteq> 47) \<longrightarrow> e = []) \<and>
       testRun rs (p, newElem d) = do { s \<leftarrow> preRunes (prelbl p @ xs @ e @ [r]) (p, c'); Some (True, ys, ((fst s)\<lparr>bufdrns := []\<rparr>, snd s)) })"
proof -
  have "cde (newElem d) = d" by (simp add: newElem_def)
  then show ?thesis
    using testRun_outcome [OF testing_fresh, of rs p d] unfolding append_Nil
  proof (elim disjE exE conjE)
    fix xs r ys e c'
    assume "rs = xs @ r # ys" "cleared c'" "cde c' = cde (newElem d)" "e \<in> {[], [r], [47]}"
      "e \<noteq> [] \<longrightarrow> (\<exists>x \<in> set xs. IsSpace x \<or> x = 47)"
      "testRun rs (p, newElem d) = do { s \<leftarrow> preRunes (prelbl p @ xs @ e @ [r]) (p, c'); Some (True, ys, ((fst s)\<lparr>bufdrns := []\<rparr>, snd s)) }"
    then show ?thesis
      using \<open>cde (newElem d) = d\<close> by (intro disjI2 exI [of _ xs] exI [of _ r] exI [of _ ys] exI [of _ e] exI [of _ c']) auto
  qed (auto simp: testing_def)
qed

theorem element_test_lossless_witness:
  "\<exists>c'. testRun [97, 32, 98, 61, 34, 99, 34] (nextparsing [60] [62] None None, newElem None) =
      Some (False, [], (nextparsing [60] [62] None None, c')) \<and> held c' = [97, 32, 98, 61, 34, 99, 34]"
proof -
  let ?y = "testRun [97, 32, 98, 61, 34, 99, 34] (nextparsing [60] [62] None None, newElem None)"
  have f: "map_option fst ?y = Some False" by code_simp
  have "?y \<noteq> do { s \<leftarrow> m; Some (True, ys, ((fst s)\<lparr>bufdrns := []\<rparr>, snd s)) }" for m :: "elemst pst option" and ys
  proof
    assume "?y = do { s \<leftarrow> m; Some (True, ys, ((fst s)\<lparr>bufdrns := []\<rparr>, snd s)) }"
    with f have "map_option fst (do { s \<leftarrow> m; Some (True, ys, ((fst s)\<lparr>bufdrns := []\<rparr>, snd s)) }) = Some False" by (simp only:)
    then show False by (cases m) auto
  qed
  with element_test_lossless [of "[97, 32, 98, 61, 34, 99, 34]" "nextparsing [60] [62] None None" None] show ?thesis by blast
qed

end
