(* ===== verification/Rows.thy ===== *)
theory Rows
  imports Prelude
begin

text \<open>
  The result rows of \<open>src/dbms/rows.go\<close>.  A \<open>rows\<close> object reads one row ahead of the one it shows, so
  that it can tell the last row, and skips rows its selection rejects.  The driver's cursor (the
  interface \<open>IRows\<close> over \<open>database/sql\<close>) is a set of operations on a state \<open>'i\<close>; a value is \<open>None\<close> for nil.
\<close>

section \<open>Cursors and rows\<close>

type_synonym 'v row = "'v option list"

record ('i, 'v) irows_ops =
  i_next :: "'i \<Rightarrow> bool \<times> 'i"
  i_err :: "'i \<Rightarrow> go_err option"
  i_scan :: "'i \<Rightarrow> 'v row \<Rightarrow> 'v row \<times> go_err option \<times> 'i"
  i_coltypes :: "'i \<Rightarrow> string list \<times> go_err option"
  i_columns :: "'i \<Rightarrow> (string list \<times> go_err option) option"

text \<open>What a selection sees of the rows object: its methods \<open>RowNR\<close>, \<open>First\<close>, \<open>Last\<close>, \<open>Columns\<close>, \<open>Data\<close>.\<close>

record 'v rowview =
  v_nr :: int
  v_first :: bool
  v_last :: bool
  v_cols :: "string list"
  v_data :: "'v row"

text \<open>
  The fields of \<open>rows\<close>.  A column type is given by its name.  \<open>evnts\<close> is the list of errors handed to
  the error callback, if there is one; \<open>released\<close> records the cursors that have been closed.
\<close>

record ('i, 'v) rows =
  cols :: "string list"
  coltpes :: "string list"
  dta :: "'v row"
  lstdta :: "'v row"
  nxtdta :: "'v row"
  swpdta :: bool
  sctltd :: "('v rowview \<Rightarrow> bool) option"
  irows :: "'i option"
  lsterr :: "go_err option"
  started :: bool
  r_first :: bool
  r_last :: bool
  rwnr :: int
  evnts :: "go_err option list option"
  released :: "'i list"

definition newRows :: "'i \<Rightarrow> ('i, 'v) rows" where
  "newRows i =
     \<lparr>cols = [], coltpes = [], dta = [], lstdta = [], nxtdta = [], swpdta = False, sctltd = None, irows = Some i, lsterr = None,
      started = False, r_first = False, r_last = False, rwnr = 0, evnts = None, released = []\<rparr>"

definition RowNR :: "('i, 'v) rows \<Rightarrow> int" where
  "RowNR r = (if swpdta r then rwnr r + 1 else rwnr r)"

definition Data :: "('i, 'v) rows \<Rightarrow> 'v row" where
  "Data r = (if swpdta r then nxtdta r else dta r)"

definition viewOf :: "('i, 'v) rows \<Rightarrow> 'v rowview" where
  "viewOf r = \<lparr>v_nr = RowNR r, v_first = r_first r, v_last = r_last r, v_cols = cols r, v_data = Data r\<rparr>"

text \<open>\<open>Close\<close>; it also forgets the last error.  Readers stored as values are closed too, which no field shows.\<close>

definition closeRows :: "('i, 'v) rows \<Rightarrow> ('i, 'v) rows" where
  "closeRows r = r\<lparr>dta := [], cols := [], irows := None, lsterr := None,
       released := (case irows r of None \<Rightarrow> released r | Some i \<Rightarrow> released r @ [i])\<rparr>"

text \<open>The built-in \<open>copy\<close>.\<close>

definition goCopy :: "'a list \<Rightarrow> 'a list \<Rightarrow> 'a list" where
  "goCopy dst src = take (length dst) src @ drop (length src) dst"

section \<open>Columns\<close>

definition noteError :: "go_err option \<Rightarrow> ('i, 'v) rows \<Rightarrow> ('i, 'v) rows" where
  "noteError err r = (if err \<noteq> None then r\<lparr>evnts := map_option (\<lambda>es. es @ [err]) (evnts r)\<rparr> else r)"

definition fitData :: "nat \<Rightarrow> 'v row \<Rightarrow> 'v row" where
  "fitData n d = (if length d \<noteq> n then replicate n None else d)"

definition Columns :: "('i, 'v) irows_ops \<Rightarrow> ('i, 'v) rows \<Rightarrow> ((string list \<times> go_err option) \<times> ('i, 'v) rows) option" where
  "Columns ops r =
     (if 0 < length (cols r) then Some ((cols r, None), r)
      else
        (case irows r of
           None \<Rightarrow> Some (([], None), r)
         | Some i \<Rightarrow>
             (let (tps, err) = i_coltypes ops i in
              if err \<noteq> None then Some (([], err), noteError err (r\<lparr>lsterr := err\<rparr>))
              else if 0 < length tps then
                Some ((tps, None),
                 r\<lparr>cols := tps, coltpes := tps, dta := fitData (length tps) (dta r), lstdta := fitData (length tps) (lstdta r),
                   nxtdta := fitData (length tps) (nxtdta r)\<rparr>)
              else
                do { (cs, err) \<leftarrow> i_columns ops i;
                     Some (if err \<noteq> None then (([], err), noteError err (r\<lparr>lsterr := err\<rparr>))
                           else ((cs, None), r\<lparr>lsterr := None, cols := cs\<rparr>)) })))"

section \<open>Reading and selecting\<close>

definition readRow :: "('i, 'v) irows_ops \<Rightarrow> 'i \<Rightarrow> ('i, 'v) rows \<Rightarrow> bool \<times> 'i \<times> ('i, 'v) rows" where
  "readRow ops i r =
     (let (nxt, i1) = i_next ops i; err = i_err ops i1 in
      (nxt, i1, noteError err (r\<lparr>irows := Some i1, lsterr := err\<rparr>)))"

text \<open>\<open>scanRow\<close> calls the error callback whether there was an error or not.\<close>

definition scanRow :: "('i, 'v) irows_ops \<Rightarrow> 'i \<Rightarrow> ('i, 'v) rows \<Rightarrow> 'i \<times> ('i, 'v) rows" where
  "scanRow ops i r =
     (let (d, err, i1) = i_scan ops i (nxtdta r) in
      (i1, r\<lparr>irows := Some i1, nxtdta := d, lsterr := err, evnts := map_option (\<lambda>es. es @ [err]) (evnts r)\<rparr>))"

definition selected :: "('i, 'v) rows \<Rightarrow> bool" where
  "selected r = (case sctltd r of Some f \<Rightarrow> f (viewOf r) | None \<Rightarrow> False)"

datatype scanned = Hit | Ended | Failed

text \<open>
  The loops at \<open>rescn\<close>, \<open>rescnnxt\<close> and \<open>rescn2\<close>: scan the row just read, and go on to the next one until the
  selection accepts it.
\<close>

partial_function (option) scanLoop ::
  "('i, 'v) irows_ops \<Rightarrow> 'i \<Rightarrow> ('i, 'v) rows \<Rightarrow> (scanned \<times> 'i \<times> ('i, 'v) rows) option" where
  "scanLoop ops i r =
     (let (i1, r1) = scanRow ops i r in
      if lsterr r1 \<noteq> None then Some (Failed, i1, closeRows r1)
      else if selected r1 then Some (Hit, i1, r1)
      else
        (let (rdrc, i2, r2) = readRow ops i1 r1 in
         if lsterr r2 \<noteq> None then Some (Failed, i2, closeRows r2)
         else if \<not> rdrc then Some (Ended, i2, r2)
         else scanLoop ops i2 r2))"

declare scanLoop.simps [code]

definition showRow :: "('i, 'v) rows \<Rightarrow> ('i, 'v) rows" where
  "showRow r = r\<lparr>swpdta := False, dta := goCopy (dta r) (lstdta r)\<rparr>"

text \<open>The look-ahead behind the row that is shown next.\<close>

definition lookAhead :: "('i, 'v) irows_ops \<Rightarrow> 'i \<Rightarrow> ('i, 'v) rows \<Rightarrow> (bool \<times> ('i, 'v) rows) option" where
  "lookAhead ops i r =
     do {
       (how, i1, r1) \<leftarrow> scanLoop ops i r;
       Some (case how of
               Failed \<Rightarrow> (False, r1)
             | Ended \<Rightarrow> (True, showRow (r1\<lparr>r_last := True\<rparr>))
             | Hit \<Rightarrow> (True, showRow r1))
     }"

definition nextRec :: "('i, 'v) irows_ops \<Rightarrow> 'i \<Rightarrow> ('i, 'v) rows \<Rightarrow> (bool \<times> ('i, 'v) rows) option" where
  "nextRec ops i r =
     (if r_last r then Some (False, r)
      else if started r then
        (let (rdrc, i1, r1) = readRow ops i (r\<lparr>r_first := False, lstdta := goCopy (lstdta r) (nxtdta r), rwnr := rwnr r + 1\<rparr>) in
         if lsterr r1 \<noteq> None then Some (False, closeRows r1)
         else if \<not> rdrc then Some (True, r1\<lparr>r_last := True, dta := goCopy (dta r1) (lstdta r1)\<rparr>)
         else lookAhead ops i1 (r1\<lparr>swpdta := True\<rparr>))
      else
        (let (rdrc, i1, r1) = readRow ops i (r\<lparr>r_first := True, started := True\<rparr>) in
         if lsterr r1 \<noteq> None \<or> \<not> rdrc then Some (False, closeRows r1)
         else
           do {
             (how, i2, r2) \<leftarrow> scanLoop ops i1 (r1\<lparr>swpdta := True\<rparr>);
             (case how of
                Failed \<Rightarrow> Some (False, r2)
              | Ended \<Rightarrow> Some (False, closeRows r2)
              | Hit \<Rightarrow>
                  (let (rdrc, i3, r3) = readRow ops i2 (r2\<lparr>lstdta := goCopy (lstdta r2) (nxtdta r2), rwnr := rwnr r2 + 1\<rparr>) in
                   if lsterr r3 \<noteq> None then Some (False, closeRows r3)
                   else if \<not> rdrc then Some (True, showRow (r3\<lparr>r_last := True\<rparr>))
                   else lookAhead ops i3 r3))
           }))"

definition dummyslct :: "'v rowview \<Rightarrow> bool" where
  "dummyslct v = True"

definition SelectNext :: "('i, 'v) irows_ops \<Rightarrow> ('v rowview \<Rightarrow> bool) option \<Rightarrow> ('i, 'v) rows \<Rightarrow> (bool \<times> ('i, 'v) rows) option" where
  "SelectNext ops slctd r =
     do {
       r1 \<leftarrow> (if length (cols r) = 0 then map_option snd (Columns ops r) else Some r);
       if length (cols r) = 0 \<and> lsterr r1 \<noteq> None then Some (False, r1)
       else
         (let r2 = (if \<not> started r1 \<and> sctltd r1 = None
                    then r1\<lparr>sctltd := Some (case slctd of Some f \<Rightarrow> f | None \<Rightarrow> dummyslct)\<rparr> else r1) in
          case irows r2 of
            Some i \<Rightarrow> nextRec ops i r2
          | None \<Rightarrow> Some (False, r2))
     }"

definition Next :: "('i, 'v) irows_ops \<Rightarrow> ('i, 'v) rows \<Rightarrow> (bool \<times> ('i, 'v) rows) option" where
  "Next ops r = SelectNext ops None r"

section \<open>The contract of a cursor\<close>

text \<open>
  What is relied on of a result cursor without errors.  \<open>inv\<close> holds while the cursor is open, which it is until \<open>Next\<close> has
  answered false, and \<open>cur\<close> is the current row, of which there is none before the first \<open>Next\<close>.  \<open>Next\<close> moves to the next of
  the rows \<open>left\<close> and reports whether there is one, \<open>Scan\<close> copies the current row of an open cursor, an open cursor knows
  the types of its columns, and every row has one value per column.  Nothing is said of a cursor after the last row.
\<close>

locale row_source =
  fixes ops :: "('i, 'v) irows_ops" and left :: "'i \<Rightarrow> 'v row list" and cur :: "'i \<Rightarrow> 'v row option" and inv :: "'i \<Rightarrow> bool"
    and tps :: "string list"
  assumes more: "inv i \<Longrightarrow> left i = x # xs \<Longrightarrow>
      \<exists>i'. i_next ops i = (True, i') \<and> i_err ops i' = None \<and> inv i' \<and> left i' = xs \<and> cur i' = Some x"
    and ended: "inv i \<Longrightarrow> left i = [] \<Longrightarrow> \<exists>i'. i_next ops i = (False, i') \<and> i_err ops i' = None"
    and scan: "inv i \<Longrightarrow> cur i = Some x \<Longrightarrow> length d = length x \<Longrightarrow>
      \<exists>i'. i_scan ops i d = (x, None, i') \<and> inv i' \<and> left i' = left i"
    and coltypes: "inv i \<Longrightarrow> i_coltypes ops i = (tps, None)" "tps \<noteq> []"
    and widths: "inv i \<Longrightarrow> x \<in> set (left i) \<Longrightarrow> length x = length tps"
begin

definition ahead :: "('v row \<Rightarrow> bool) \<Rightarrow> ('i, 'v) rows \<Rightarrow> bool" where
  "ahead P r \<longleftrightarrow> swpdta r \<and> sctltd r = Some (\<lambda>v. P (v_data v)) \<and> length (nxtdta r) = length tps"

text \<open>The scanning loop finds the next selected row, and ends exactly if there is none.\<close>

lemma scanLoop_finds:
  assumes "inv i" "ahead P r" "cur i = Some c" "length c = length tps"
  shows "\<exists>i' d e. scanLoop ops i r = Some (if filter P (c # left i) = [] then Ended else Hit, i',
      r\<lparr>irows := Some i', nxtdta := d, lsterr := None, evnts := e\<rparr>) \<and> length d = length tps \<and>
    (filter P (c # left i) \<noteq> [] \<longrightarrow> inv i' \<and> filter P (c # left i) = d # filter P (left i'))"
  using assms
proof (induction "left i" arbitrary: i r c)
  case Nil
  obtain i1 where s: "i_scan ops i (nxtdta r) = (c, None, i1)" "inv i1" "left i1 = []"
    using scan [of i c "nxtdta r"] Nil by (auto simp: ahead_def)
  obtain i2 where n: "i_next ops i1 = (False, i2)" "i_err ops i2 = None" using ended [OF s(2,3)] by blast
  let ?e = "map_option (\<lambda>es. es @ [None]) (evnts r)"
  show ?case
  proof (cases "P c")
    case True
    then show ?thesis
      using s Nil by (subst scanLoop.simps) (auto simp: scanRow_def selected_def viewOf_def Data_def ahead_def Let_def)
  next
    case False
    then have "scanLoop ops i r = Some (Ended, i2, r\<lparr>irows := Some i2, nxtdta := c, lsterr := None, evnts := ?e\<rparr>)"
      using s n Nil
      by (subst scanLoop.simps) (auto simp: scanRow_def readRow_def noteError_def selected_def viewOf_def Data_def ahead_def Let_def)
    then show ?thesis using False Nil(1) [symmetric] Nil(5)
      by (intro exI [of _ i2] exI [of _ c] exI [of _ ?e]) simp
  qed
next
  case (Cons x xs)
  obtain i1 where s: "i_scan ops i (nxtdta r) = (c, None, i1)" "inv i1" "left i1 = x # xs"
    using scan [of i c "nxtdta r"] Cons by (auto simp: ahead_def)
  obtain i2 where n: "i_next ops i1 = (True, i2)" "i_err ops i2 = None" "inv i2" "left i2 = xs" "cur i2 = Some x" using more [OF s(2,3)] by blast
  have w: "length x = length tps" using widths [OF s(2), of x] s(3) by simp
  show ?case
  proof (cases "P c")
    case True
    then show ?thesis
      using s Cons.prems Cons.hyps(2) [symmetric]
      by (subst scanLoop.simps) (auto simp: scanRow_def selected_def viewOf_def Data_def ahead_def Let_def)
  next
    case False
    let ?r = "r\<lparr>irows := Some i2, nxtdta := c, lsterr := None, evnts := map_option (\<lambda>es. es @ [None]) (evnts r)\<rparr>"
    have eq: "?r = r\<lparr>nxtdta := c, evnts := map_option (\<lambda>es. es @ [None]) (evnts r), irows := Some i2, lsterr := None\<rparr>" by simp
    have "scanLoop ops i r = scanLoop ops i2 ?r"
      unfolding eq using s n False Cons.prems
      by (subst scanLoop.simps) (auto simp: scanRow_def readRow_def noteError_def selected_def viewOf_def Data_def ahead_def Let_def)
    moreover have "ahead P ?r" using Cons.prems by (simp add: ahead_def)
    ultimately show ?thesis
      using Cons.hyps(1) [of i2 ?r x] n w False Cons.hyps(2) [symmetric] by (auto split: if_splits)
  qed
qed

text \<open>The row \<open>x\<close> is shown as number \<open>k\<close>, the rows \<open>rest\<close> are still to come.\<close>

definition showing :: "('v row \<Rightarrow> bool) \<Rightarrow> 'v row \<Rightarrow> int \<Rightarrow> 'v row list \<Rightarrow> ('i, 'v) rows \<Rightarrow> bool" where
  "showing P x k rest r \<longleftrightarrow> started r \<and> \<not> swpdta r \<and> sctltd r = Some (\<lambda>v. P (v_data v)) \<and> cols r = tps \<and> coltpes r = tps \<and> lsterr r = None \<and> dta r = x \<and> rwnr r = k \<and>
     r_first r = (k = 1) \<and> r_last r = (rest = []) \<and> length x = length tps \<and> length (lstdta r) = length tps \<and> length (nxtdta r) = length tps \<and>
     (rest \<noteq> [] \<longrightarrow> (\<exists>i. irows r = Some i \<and> inv i \<and> rest = nxtdta r # filter P (left i)))"

lemma goCopy_same: "length d = length s \<Longrightarrow> goCopy d s = s"
  by (simp add: goCopy_def)

lemma lookAhead_shows:
  assumes "inv i" "ahead P r" "cur i = Some c" "length c = length tps" "started r" "cols r = tps" "length (dta r) = length tps"
    "length (lstdta r) = length tps" "\<not> r_last r" "r_first r = (rwnr r = 1)" "coltpes r = tps"
  shows "\<exists>r'. lookAhead ops i r = Some (True, r') \<and> showing P (lstdta r) (rwnr r) (filter P (c # left i)) r'"
proof -
  obtain i' d e where sl: "scanLoop ops i r = Some (if filter P (c # left i) = [] then Ended else Hit, i',
      r\<lparr>irows := Some i', nxtdta := d, lsterr := None, evnts := e\<rparr>)" "length d = length tps"
      "filter P (c # left i) \<noteq> [] \<longrightarrow> inv i' \<and> filter P (c # left i) = d # filter P (left i')"
    using scanLoop_finds [OF assms(1-4)] by blast
  show ?thesis
  proof (cases "filter P (c # left i) = []")
    case True
    then show ?thesis using sl assms(2,5-11)
      by (simp del: filter.simps add: lookAhead_def showRow_def showing_def ahead_def goCopy_same)
  next
    case False
    then show ?thesis using sl assms(2,5-11)
      by (simp del: filter.simps add: lookAhead_def showRow_def showing_def ahead_def goCopy_same)
  qed
qed

lemma next_row:
  assumes s: "showing P x k (y # ys) r" and k: "1 \<le> k"
  shows "\<exists>r'. SelectNext ops sel r = Some (True, r') \<and> showing P y (k + 1) ys r'"
proof -
  obtain i where i: "irows r = Some i" "inv i" "y = nxtdta r" "ys = filter P (left i)" using s by (auto simp: showing_def)
  let ?q = "r\<lparr>r_first := False, lstdta := y, rwnr := k + 1\<rparr>"
  have sn: "SelectNext ops sel r = nextRec ops i r" using s i coltypes(2) by (auto simp: SelectNext_def showing_def)
  have nr: "nextRec ops i r = (let (rdrc, i1, r1) = readRow ops i ?q in
      if lsterr r1 \<noteq> None then Some (False, closeRows r1)
      else if \<not> rdrc then Some (True, r1\<lparr>r_last := True, dta := goCopy (dta r1) (lstdta r1)\<rparr>)
      else lookAhead ops i1 (r1\<lparr>swpdta := True\<rparr>))"
    using s i by (auto simp: nextRec_def showing_def goCopy_same)
  show ?thesis
  proof (cases "left i")
    case Nil
    from ended [OF i(2) this] obtain i1 where n: "i_next ops i = (False, i1)" "i_err ops i1 = None" by blast
    then show ?thesis
      using s i Nil k unfolding sn nr by (auto simp: readRow_def noteError_def Let_def showing_def goCopy_same)
  next
    case (Cons z zs)
    from more [OF i(2) this] obtain i1 where
      n: "i_next ops i = (True, i1)" "i_err ops i1 = None" "inv i1" "left i1 = zs" "cur i1 = Some z" by blast
    let ?r = "?q\<lparr>irows := Some i1, lsterr := None, swpdta := True\<rparr>"
    have "ahead P ?r" using s by (simp add: ahead_def showing_def)
    moreover have "length z = length tps" using widths [OF i(2), of z] Cons by simp
    moreover have "length y = length tps" using s i by (simp add: showing_def)
    moreover have "nextRec ops i r = lookAhead ops i1 ?r" unfolding nr using n(1,2) by (simp add: readRow_def noteError_def)
    ultimately show ?thesis
      using lookAhead_shows [of i1 P ?r z] s i n Cons k unfolding sn by (auto simp: showing_def)
  qed
qed

text \<open>The first call.\<close>

definition selects :: "('v rowview \<Rightarrow> bool) option \<Rightarrow> ('v row \<Rightarrow> bool) \<Rightarrow> bool" where
  "selects sel P \<longleftrightarrow> (case sel of None \<Rightarrow> P = (\<lambda>_. True) | Some f \<Rightarrow> f = (\<lambda>v. P (v_data v)))"

lemma first_row:
  assumes i: "inv i" and sel: "selects sel P"
  shows "case filter P (left i) of
      [] \<Rightarrow> \<exists>r'. SelectNext ops sel ((newRows i)\<lparr>evnts := es\<rparr>) = Some (False, r')
    | y # ys \<Rightarrow> \<exists>r'. SelectNext ops sel ((newRows i)\<lparr>evnts := es\<rparr>) = Some (True, r') \<and> showing P y 1 ys r'"
proof -
  let ?n = "replicate (length tps) None"
  let ?r = "(newRows i)\<lparr>cols := tps, coltpes := tps, dta := ?n, lstdta := ?n, nxtdta := ?n, sctltd := Some (\<lambda>v. P (v_data v)), evnts := es\<rparr>"
  let ?q = "?r\<lparr>r_first := True, started := True\<rparr>"
  have "(case sel of Some f \<Rightarrow> f | None \<Rightarrow> dummyslct) = (\<lambda>v. P (v_data v))"
    using sel by (auto simp: selects_def dummyslct_def fun_eq_iff split: option.splits)
  then have sn: "SelectNext ops sel ((newRows i)\<lparr>evnts := es\<rparr>) = nextRec ops i ?r"
    using coltypes(1) [OF i] coltypes(2) by (auto simp: SelectNext_def Columns_def newRows_def fitData_def Let_def)
  show ?thesis
  proof (cases "left i")
    case Nil
    from ended [OF i this] obtain i1 where "i_next ops i = (False, i1)" "i_err ops i1 = None" by blast
    then show ?thesis unfolding sn using Nil by (simp add: nextRec_def readRow_def newRows_def)
  next
    case (Cons x xs)
    from more [OF i this] obtain i1 where
      n: "i_next ops i = (True, i1)" "i_err ops i1 = None" "inv i1" "left i1 = xs" "cur i1 = Some x" by blast
    define r1 where "r1 = ?q\<lparr>irows := Some i1, lsterr := None, swpdta := True\<rparr>"
    have "ahead P r1" by (simp add: r1_def ahead_def)
    moreover have w: "length x = length tps" using widths [OF i, of x] Cons by simp
    ultimately obtain i2 d e where sl: "scanLoop ops i1 r1 = Some (if filter P (x # xs) = [] then Ended else Hit, i2,
        r1\<lparr>irows := Some i2, nxtdta := d, lsterr := None, evnts := e\<rparr>)" "length d = length tps"
        "filter P (x # xs) \<noteq> [] \<longrightarrow> inv i2 \<and> filter P (x # xs) = d # filter P (left i2)"
      using scanLoop_finds [OF n(3) _ n(5), of P r1] n(4) by auto
    define r2 where "r2 = r1\<lparr>irows := Some i2, nxtdta := d, lsterr := None, evnts := e, lstdta := d, rwnr := 1\<rparr>"
    have nr: "nextRec ops i ?r = (if filter P (x # xs) = [] then Some (False, closeRows (r1\<lparr>irows := Some i2, nxtdta := d, lsterr := None, evnts := e\<rparr>))
        else (let (rdrc, i3, r3) = readRow ops i2 r2 in
          if lsterr r3 \<noteq> None then Some (False, closeRows r3)
          else if \<not> rdrc then Some (True, showRow (r3\<lparr>r_last := True\<rparr>)) else lookAhead ops i3 r3))"
      using n(1,2) sl(1,2)
      by (auto simp: nextRec_def readRow_def noteError_def newRows_def r1_def r2_def goCopy_same Let_def)
    show ?thesis
    proof (cases "filter P (x # xs) = []")
      case True
      then show ?thesis unfolding sn nr using Cons by auto
    next
      case False
      with sl(3) have f: "filter P (left i) = d # filter P (left i2)" and i2: "inv i2" using Cons by simp_all
      have "\<exists>r'. nextRec ops i ?r = Some (True, r') \<and> showing P d 1 (filter P (left i2)) r'"
      proof (cases "left i2")
        case Nil
        from ended [OF i2 this] obtain i3 where "i_next ops i2 = (False, i3)" "i_err ops i3 = None" by blast
        then show ?thesis unfolding nr using False Nil sl(2) coltypes(2)
          by (auto simp: readRow_def noteError_def showRow_def showing_def goCopy_same r1_def r2_def newRows_def)
      next
        case (Cons z zs)
        from more [OF i2 this] obtain i3 where
          m: "i_next ops i2 = (True, i3)" "i_err ops i3 = None" "inv i3" "left i3 = zs" "cur i3 = Some z" by blast
        have "nextRec ops i ?r = lookAhead ops i3 (r2\<lparr>irows := Some i3, lsterr := None\<rparr>)"
          unfolding nr using False m(1,2) by (simp add: readRow_def noteError_def)
        moreover have "\<exists>r'. lookAhead ops i3 (r2\<lparr>irows := Some i3, lsterr := None\<rparr>) = Some (True, r') \<and> showing P d 1 (filter P (z # left i3)) r'"
          using lookAhead_shows [of i3 P "r2\<lparr>irows := Some i3, lsterr := None\<rparr>" z] m widths [OF i2, of z] Cons sl(2) coltypes(2)
          by (auto simp: ahead_def r1_def r2_def newRows_def)
        ultimately show ?thesis using m(4,5) Cons by simp
      qed
      then show ?thesis unfolding sn f by simp
    qed
  qed
qed

end

lemma newRows_quiet [simp]: "(newRows i)\<lparr>evnts := None\<rparr> = newRows i"
  by (simp add: newRows_def)

section \<open>All rows\<close>

text \<open>Calling \<open>SelectNext\<close> until it answers false.\<close>

partial_function (option) allRows ::
  "('i, 'v) irows_ops \<Rightarrow> ('v rowview \<Rightarrow> bool) option \<Rightarrow> ('i, 'v) rows \<Rightarrow> ('v rowview list) option" where
  "allRows ops sel r =
     do { (nxt, r1) \<leftarrow> SelectNext ops sel r;
          if nxt then do { vs \<leftarrow> allRows ops sel r1; Some (viewOf r1 # vs) } else Some [] }"

declare allRows.simps [code]

fun numbered :: "string list \<Rightarrow> int \<Rightarrow> 'v row list \<Rightarrow> 'v rowview list" where
  "numbered cs k [] = []"
| "numbered cs k (x # xs) =
     \<lparr>v_nr = k, v_first = (k = 1), v_last = (xs = []), v_cols = cs, v_data = x\<rparr> # numbered cs (k + 1) xs"

context row_source
begin

lemma showing_view: "showing P x k rest r \<Longrightarrow> viewOf r = \<lparr>v_nr = k, v_first = (k = 1), v_last = (rest = []), v_cols = tps, v_data = x\<rparr>"
  by (simp add: showing_def viewOf_def RowNR_def Data_def)

lemma allRows_rest:
  "showing P x k rest r \<Longrightarrow> 1 \<le> k \<Longrightarrow> allRows ops sel r = Some (numbered tps (k + 1) rest)"
proof (induction rest arbitrary: x k r)
  case Nil
  have "SelectNext ops sel r = Some (False, r) \<or> (\<exists>r'. SelectNext ops sel r = Some (False, r'))"
    using Nil coltypes(2) by (cases "irows r") (auto simp: SelectNext_def nextRec_def showing_def)
  then show ?case by (subst allRows.simps) auto
next
  case (Cons y ys)
  from next_row [OF Cons.prems, of sel] obtain r' where
    r': "SelectNext ops sel r = Some (True, r')" "showing P y (k + 1) ys r'" by blast
  then have "allRows ops sel r' = Some (numbered tps (k + 2) ys)" using Cons.IH [OF r'(2)] Cons.prems(2) by (simp add: add.assoc)
  then show ?case using r'(1) showing_view [OF r'(2)] Cons.prems(2) by (subst allRows.simps) (simp add: add.assoc)
qed

lemma allRows_selected:
  assumes "inv i"
  shows "allRows ops (Some (\<lambda>v. P (v_data v))) (newRows i) = Some (numbered tps 1 (filter P (left i)))"
proof -
  let ?sel = "Some (\<lambda>v. P (v_data v))"
  have "selects ?sel P" by (simp add: selects_def)
  then have f: "case filter P (left i) of [] \<Rightarrow> \<exists>r'. SelectNext ops ?sel (newRows i) = Some (False, r')
      | y # ys \<Rightarrow> \<exists>r'. SelectNext ops ?sel (newRows i) = Some (True, r') \<and> showing P y 1 ys r'"
    using first_row [OF assms, of ?sel P None] by (simp split: list.splits)
  show ?thesis
  proof (cases "filter P (left i)")
    case Nil
    then show ?thesis using f by (subst allRows.simps) auto
  next
    case (Cons y ys)
    then obtain r' where r': "SelectNext ops ?sel (newRows i) = Some (True, r')" "showing P y 1 ys r'" using f by auto
    show ?thesis using r'(1) allRows_rest [OF r'(2)] showing_view [OF r'(2)] Cons by (subst allRows.simps) simp
  qed
qed

end

section \<open>Rows of database/sql\<close>

text \<open>
  \<open>dbirows\<close> wraps a \<open>sql.Rows\<close>, given by its operations on a state \<open>'q\<close>.  Its \<open>Scan\<close> takes pointers to
  the slots the values go to: \<open>q_scan q n\<close> yields the values for \<open>n\<close> pointers, the error and the state.
\<close>

record ('q, 'v) sql_rows =
  q_next :: "'q \<Rightarrow> bool \<times> 'q"
  q_err :: "'q \<Rightarrow> go_err option"
  q_scan :: "'q \<Rightarrow> nat \<Rightarrow> 'v row \<times> go_err option \<times> 'q"
  q_coltypes :: "'q \<Rightarrow> string list \<times> go_err option"
  q_nextset :: "'q \<Rightarrow> bool \<times> 'q"
  q_close :: "'q \<Rightarrow> go_err option \<times> 'q"

text \<open>The addresses of the destination slots are kept from one \<open>Scan\<close> to the next.\<close>

record 'q dbirows =
  dbrows :: "'q option"
  dtarefs :: "nat list"

definition dbClose :: "('q, 'v) sql_rows \<Rightarrow> 'q dbirows \<Rightarrow> (go_err option \<times> 'q option) \<times> 'q dbirows" where
  "dbClose sq d =
     ((case dbrows d of None \<Rightarrow> (None, None) | Some q \<Rightarrow> (let (err, q1) = q_close sq q in (err, Some q1))),
      d\<lparr>dtarefs := [], dbrows := None\<rparr>)"

definition dbColumnTypes :: "('q, 'v) sql_rows \<Rightarrow> 'q dbirows \<Rightarrow> string list \<times> go_err option" where
  "dbColumnTypes sq d =
     (case dbrows d of
        None \<Rightarrow> ([], None)
      | Some q \<Rightarrow> (let (tps, err) = q_coltypes sq q in if err \<noteq> None then ([], err) else (tps, None)))"

text \<open>\<open>Columns\<close> calls itself on the same object.\<close>

partial_function (option) dbColumns :: "'q dbirows \<Rightarrow> (string list \<times> go_err option) option" where
  "dbColumns d = (case dbrows d of None \<Rightarrow> Some ([], None) | Some q \<Rightarrow> dbColumns d)"

declare dbColumns.simps [code]

definition dbErr :: "('q, 'v) sql_rows \<Rightarrow> 'q dbirows \<Rightarrow> go_err option" where
  "dbErr sq d = (case dbrows d of None \<Rightarrow> None | Some q \<Rightarrow> q_err sq q)"

definition dbNext :: "('q, 'v) sql_rows \<Rightarrow> 'q dbirows \<Rightarrow> bool \<times> 'q dbirows" where
  "dbNext sq d =
     (case dbrows d of None \<Rightarrow> (False, d) | Some q \<Rightarrow> (let (nxt, q1) = q_next sq q in (nxt, d\<lparr>dbrows := Some q1\<rparr>)))"

definition dbNextResultSet :: "('q, 'v) sql_rows \<Rightarrow> 'q dbirows \<Rightarrow> bool \<times> 'q dbirows" where
  "dbNextResultSet sq d =
     (case dbrows d of None \<Rightarrow> (False, d) | Some q \<Rightarrow> (let (nxt, q1) = q_nextset sq q in (nxt, d\<lparr>dbrows := Some q1\<rparr>)))"

text \<open>Writing values through pointers into a slice that starts at address \<open>a\<close>.\<close>

fun writeRefs :: "nat \<Rightarrow> nat list \<Rightarrow> 'v row \<Rightarrow> 'v row \<Rightarrow> 'v row" where
  "writeRefs a (p # ps) (v # vs) dest = writeRefs a ps vs (if a \<le> p \<and> p < a + length dest then dest[p - a := v] else dest)"
| "writeRefs a _ _ dest = dest"

definition dbRefs :: "nat \<Rightarrow> nat \<Rightarrow> nat list \<Rightarrow> nat list" where
  "dbRefs a destl destref =
     (if length destref \<noteq> destl \<or> (length destref = destl \<and> destref ! 0 \<noteq> a) then [a..<a + destl] else destref)"

definition dbScan :: "('q, 'v) sql_rows \<Rightarrow> nat \<Rightarrow> 'q dbirows \<Rightarrow> 'v row \<Rightarrow> 'v row \<times> go_err option \<times> 'q dbirows" where
  "dbScan sq a d dest =
     (case dbrows d of
        None \<Rightarrow> (dest, None, d)
      | Some q \<Rightarrow>
          (if 0 < length dest then
             (let refs = dbRefs a (length dest) (dtarefs d); (vs, err, q1) = q_scan sq q (length refs) in
              (writeRefs a refs vs dest, err, d\<lparr>dtarefs := refs, dbrows := Some q1\<rparr>))
           else (dest, None, d)))"

text \<open>\<open>dbirows\<close> as the cursor of \<open>rows\<close>; \<open>a\<close> is the address of the slice \<open>nxtdta\<close>.\<close>

definition dbOps :: "('q, 'v) sql_rows \<Rightarrow> nat \<Rightarrow> ('q dbirows, 'v) irows_ops" where
  "dbOps sq a = \<lparr>i_next = dbNext sq, i_err = dbErr sq, i_scan = dbScan sq a, i_coltypes = dbColumnTypes sq, i_columns = dbColumns\<rparr>"

definition dbRows :: "'q \<Rightarrow> ('q dbirows, 'v) rows" where
  "dbRows q = newRows \<lparr>dbrows = Some q, dtarefs = []\<rparr>"

lemma writeRefs_from:
  "length vs = length dest - k \<Longrightarrow> k \<le> length dest \<Longrightarrow> writeRefs a [a + k..<a + length dest] vs dest = take k dest @ vs"
proof (induction vs arbitrary: k dest)
  case Nil
  then show ?case by simp
next
  case (Cons v vs)
  then have k: "k < length dest" by auto
  then have "[a + k..<a + length dest] = (a + k) # [a + Suc k..<a + length dest]" by (simp add: upt_conv_Cons)
  then show ?case using Cons.IH [of "dest[k := v]" "Suc k"] Cons.prems k
    by (simp add: take_Suc_conv_app_nth take_update_swap list_update_append)
qed

lemma dbColumns_closed: "dbColumns d = Some x \<Longrightarrow> dbrows d = None"
  by (erule dbColumns.raw_induct [rotated]) (auto split: option.splits)

lemma dbColumns_loops: "dbrows d = Some q \<Longrightarrow> dbColumns d = None"
  by (cases "dbColumns d") (auto dest: dbColumns_closed)

text \<open>
  What \<open>database/sql\<close> documents of a result set that is read without errors.  \<open>good\<close> holds of a result set that is open: it has not
  been closed, by \<open>Close\<close> or by a \<open>Next\<close> that answered false.  \<open>cur\<close> is the row \<open>Next\<close> has prepared, none before the first call.
  On an open result set \<open>Next\<close> prepares the next of the rows \<open>left\<close> and reports whether there is one; if there is none, it answers
  false without an error, and the result set is closed from then on.  \<open>Scan\<close> copies the prepared row if there is a pointer for each
  of its columns, \<open>ColumnTypes\<close> works while the result set is open, and every row has as many values as there are column
  types.  Of a \<open>Scan\<close> without a prepared row, and of \<open>Scan\<close> and \<open>ColumnTypes\<close> on a closed result set, which fail, nothing is assumed.
\<close>

definition sql_contract ::
  "('q, 'v) sql_rows \<Rightarrow> ('q \<Rightarrow> 'v row list) \<Rightarrow> ('q \<Rightarrow> 'v row option) \<Rightarrow> ('q \<Rightarrow> bool) \<Rightarrow> string list \<Rightarrow> bool" where
  "sql_contract sq left cur good tps \<longleftrightarrow>
     (\<forall>q x xs. good q \<and> left q = x # xs \<longrightarrow>
        (\<exists>q'. q_next sq q = (True, q') \<and> q_err sq q' = None \<and> good q' \<and> left q' = xs \<and> cur q' = Some x)) \<and>
     (\<forall>q. good q \<and> left q = [] \<longrightarrow> (\<exists>q'. q_next sq q = (False, q') \<and> q_err sq q' = None)) \<and>
     (\<forall>q x. good q \<and> cur q = Some x \<longrightarrow> (\<exists>q'. q_scan sq q (length x) = (x, None, q') \<and> good q' \<and> left q' = left q)) \<and>
     (\<forall>q. good q \<longrightarrow> q_coltypes sq q = (tps, None)) \<and> tps \<noteq> [] \<and>
     (\<forall>q x. good q \<and> x \<in> set (left q) \<longrightarrow> length x = length tps)"

definition dbInv :: "('q \<Rightarrow> bool) \<Rightarrow> 'q dbirows \<Rightarrow> bool" where
  "dbInv good d \<longleftrightarrow> (\<exists>q. dbrows d = Some q \<and> good q) \<and> (\<exists>b n. dtarefs d = [b..<b + n])"

lemma dbRefs_upt: "0 < n \<Longrightarrow> dbRefs a n [b..<b + m] = [a..<a + n]"
  by (auto simp: dbRefs_def)

lemma dbScan_row:
  assumes c: "sql_contract sq left cur good tps" and d: "dbInv good d" and x: "cur (the (dbrows d)) = Some x" and l: "length x = length dest"
  shows "\<exists>d'. dbScan sq a d dest = (x, None, d') \<and> dbInv good d' \<and> left (the (dbrows d')) = left (the (dbrows d))"
proof -
  obtain q b n where q: "dbrows d = Some q" "good q" "dtarefs d = [b..<b + n]" using d by (auto simp: dbInv_def)
  then have "cur q = Some x" using x by simp
  then obtain q' where s: "q_scan sq q (length x) = (x, None, q')" "good q'" "left q' = left q"
    using c q(2) unfolding sql_contract_def by blast
  show ?thesis
  proof (cases "dest = []")
    case True
    then show ?thesis using q d l by (simp add: dbScan_def)
  next
    case False
    then have r: "dbRefs a (length dest) (dtarefs d) = [a..<a + length dest]" using dbRefs_upt q(3) by simp
    have "dbScan sq a d dest = (x, None, d\<lparr>dtarefs := [a..<a + length dest], dbrows := Some q'\<rparr>)"
      using writeRefs_from [of x dest 0 a] s l q(1) False by (simp add: dbScan_def r Let_def)
    moreover have "dbInv good (d\<lparr>dtarefs := [a..<a + length dest], dbrows := Some q'\<rparr>)" using s(2) by (auto simp: dbInv_def)
    ultimately show ?thesis using q(1) s(3) by simp
  qed
qed

lemma dbOps_row_source:
  assumes c: "sql_contract sq left cur good tps"
  shows "row_source (dbOps sq a) (\<lambda>d. left (the (dbrows d))) (\<lambda>d. cur (the (dbrows d))) (dbInv good) tps"
proof
  fix d x xs
  assume d: "dbInv good d" and l: "left (the (dbrows d)) = x # xs"
  obtain q where q: "dbrows d = Some q" "good q" using d by (auto simp: dbInv_def)
  with c l obtain q' where "q_next sq q = (True, q')" "q_err sq q' = None" "good q'" "left q' = xs" "cur q' = Some x"
    unfolding sql_contract_def by force
  then show "\<exists>i'. i_next (dbOps sq a) d = (True, i') \<and> i_err (dbOps sq a) i' = None \<and> dbInv good i' \<and>
      left (the (dbrows i')) = xs \<and> cur (the (dbrows i')) = Some x"
    using d q by (auto simp: dbOps_def dbNext_def dbErr_def dbInv_def)
next
  fix d
  assume d: "dbInv good d" and l: "left (the (dbrows d)) = []"
  obtain q where q: "dbrows d = Some q" "good q" using d by (auto simp: dbInv_def)
  with c l obtain q' where "q_next sq q = (False, q')" "q_err sq q' = None"
    unfolding sql_contract_def by force
  then show "\<exists>i'. i_next (dbOps sq a) d = (False, i') \<and> i_err (dbOps sq a) i' = None"
    using q by (auto simp: dbOps_def dbNext_def dbErr_def)
next
  fix d x and dest :: "'b row"
  assume "dbInv good d" "cur (the (dbrows d)) = Some x" "length dest = length x"
  then show "\<exists>i'. i_scan (dbOps sq a) d dest = (x, None, i') \<and> dbInv good i' \<and> left (the (dbrows i')) = left (the (dbrows d))"
    using dbScan_row [OF c] by (simp add: dbOps_def)
qed (use c in \<open>auto simp: sql_contract_def dbInv_def dbOps_def dbColumnTypes_def\<close>)

text \<open>
  A result set held in memory, as \<open>sql.Rows\<close> is documented to deliver it: the rows left, the prepared row, and whether it is closed.
  \<open>Scan\<close> fails without a prepared row, \<open>Scan\<close> and \<open>ColumnTypes\<close> fail once it is closed, and the \<open>Next\<close> that finds no row closes it.
\<close>

record 'v memrows =
  mr_left :: "'v row list"
  mr_cur :: "'v row option"
  mr_closed :: bool

definition rowsClosed :: go_err where "rowsClosed = Err ''sql: Rows are closed''"

definition memorySql :: "string list \<Rightarrow> ('v memrows, 'v) sql_rows" where
  "memorySql tps =
     \<lparr>q_next = (\<lambda>q. if mr_closed q then (False, q)
          else case mr_left q of [] \<Rightarrow> (False, q\<lparr>mr_cur := None, mr_closed := True\<rparr>) | y # ys \<Rightarrow> (True, q\<lparr>mr_left := ys, mr_cur := Some y\<rparr>)),
      q_err = (\<lambda>_. None),
      q_scan = (\<lambda>q n. if mr_closed q then ([], Some rowsClosed, q)
          else case mr_cur q of
            None \<Rightarrow> ([], Some (Err ''sql: Scan called without calling Next''), q)
          | Some c \<Rightarrow> if n = length c then (c, None, q) else ([], Some (Err ''sql: expected destination arguments''), q)),
      q_coltypes = (\<lambda>q. if mr_closed q then ([], Some rowsClosed) else (tps, None)), q_nextset = (\<lambda>q. (False, q)),
      q_close = (\<lambda>q. (None, q\<lparr>mr_closed := True\<rparr>))\<rparr>"

definition memRows :: "'v row list \<Rightarrow> 'v memrows" where
  "memRows xs = \<lparr>mr_left = xs, mr_cur = None, mr_closed = False\<rparr>"

definition memOpen :: "string list \<Rightarrow> 'v memrows \<Rightarrow> bool" where
  "memOpen tps q \<longleftrightarrow> \<not> mr_closed q \<and> (\<forall>x \<in> set (mr_left q). length x = length tps)"

lemma memorySql_contract: "tps \<noteq> [] \<Longrightarrow> sql_contract (memorySql tps) mr_left mr_cur (memOpen tps) tps"
  by (auto simp: sql_contract_def memorySql_def memOpen_def)

interpretation people: row_source "dbOps (memorySql [''name'', ''age'']) 0" "\<lambda>d. mr_left (the (dbrows d))" "\<lambda>d. mr_cur (the (dbrows d))"
  "dbInv (memOpen [''name'', ''age''])" "[''name'', ''age'']"
  by (rule dbOps_row_source [OF memorySql_contract]) simp

lemma dbInv_new: "good q \<Longrightarrow> dbInv good \<lparr>dbrows = Some q, dtarefs = []\<rparr>"
  unfolding dbInv_def by (intro conjI exI [of _ 0]) auto

section \<open>Errors\<close>

lemma scanLoop_no_error: "scanLoop ops i r = Some (how, i', r') \<Longrightarrow> lsterr r' = None"
proof -
  have "scanLoop ops i r = Some x \<Longrightarrow> lsterr (snd (snd x)) = None" for x
    by (erule scanLoop.raw_induct [rotated])
      (auto simp: Let_def closeRows_def split: prod.splits if_splits)
  then show "scanLoop ops i r = Some (how, i', r') \<Longrightarrow> lsterr r' = None" by fastforce
qed

lemma scanned_cases: "h \<noteq> Hit \<Longrightarrow> h \<noteq> Ended \<Longrightarrow> h \<noteq> Failed \<Longrightarrow> X"
  by (cases h) auto

lemma lookAhead_no_error: "lookAhead ops i r = Some (b, r') \<Longrightarrow> lsterr r' = None"
  by (auto simp: lookAhead_def showRow_def Option.bind_eq_Some_conv dest: scanLoop_no_error split: scanned.splits elim: scanned_cases)

lemma nextRec_no_error: "nextRec ops i r = Some (b, r') \<Longrightarrow> lsterr r = None \<Longrightarrow> lsterr r' = None"
  by (auto simp: nextRec_def Let_def closeRows_def showRow_def Option.bind_eq_Some_conv
      dest: scanLoop_no_error lookAhead_no_error elim: scanned_cases split: scanned.splits prod.splits if_splits)

text \<open>
  Claim C35: selecting never leaves an error behind.  Whatever the cursor does, once the columns are known, a call
  of \<open>SelectNext\<close> that starts without an error ends without one, also when it answers false because a read or a
  scan failed: the rows are closed, and closing forgets the error, so that a result set cut short by an error
  cannot be told from a complete one by \<open>Err\<close>.
\<close>

theorem SelectNext_forgets_errors:
  assumes "SelectNext ops sel r = Some (b, r')" "cols r \<noteq> []" "lsterr r = None"
  shows "lsterr r' = None"
  using assms nextRec_no_error by (fastforce simp: SelectNext_def Let_def split: option.splits if_splits)

theorem SelectNext_forgets_errors_witness:
  "\<exists>r'. SelectNext (dbOps ((memorySql [''a''])\<lparr>q_err := (\<lambda>_. Some (Err ''connection lost''))\<rparr>) 0) None
       ((dbRows (memRows [[Some (1::nat)]]))\<lparr>cols := [''a'']\<rparr>) = Some (False, r') \<and> lsterr r' = None"
proof -
  let ?ops = "dbOps ((memorySql [''a''])\<lparr>q_err := (\<lambda>_. Some (Err ''connection lost''))\<rparr>) 0"
  let ?r = "(dbRows (memRows [[Some (1::nat)]]))\<lparr>cols := [''a'']\<rparr>"
  have "\<exists>r'. SelectNext ?ops None ?r = Some (False, r')"
    by (simp add: SelectNext_def nextRec_def readRow_def noteError_def Let_def dbOps_def dbNext_def dbErr_def memorySql_def memRows_def dbRows_def newRows_def)
  then show ?thesis using SelectNext_forgets_errors [of ?ops None ?r] by (auto simp: dbRows_def newRows_def)
qed

section \<open>Reading a result set\<close>

text \<open>
  Claim C13: a result set of \<open>database/sql\<close> read through \<open>dbirows\<close> and \<open>rows\<close> comes out exactly.  For a result set with at least one column that is
  delivered without an error (\<open>sql_contract\<close>: \<open>Next\<close> walks through the rows and then answers false, after which nothing is assumed of the cursor, and \<open>Scan\<close> is only
  relied on behind a \<open>Next\<close> that answered true), calling \<open>SelectNext\<close> with a selection on the data until it answers false ends and shows the
  selected rows, all of them, once each, in order, numbered from one, the first and only the first marked as first, the last and only the
  last marked as last although the rows behind it may all be rejected.
\<close>

theorem rows_selected:
  assumes "sql_contract sq left cur good tps" "good q"
  shows "allRows (dbOps sq a) (Some (\<lambda>v. P (v_data v))) (dbRows q) = Some (numbered tps 1 (filter P (left q)))"
  using row_source.allRows_selected [OF dbOps_row_source [OF assms(1), of a] dbInv_new [of good, OF assms(2)], of P]
  by (simp add: dbRows_def)

theorem rows_selected_witness:
  "allRows (dbOps (memorySql [''name'', ''age'']) 0) (Some (\<lambda>v. hd (v_data v) \<noteq> None))
     (dbRows (memRows [[Some (1::nat), None], [None, None], [Some 2, Some 3], [None, Some 4]])) =
   Some [\<lparr>v_nr = 1, v_first = True, v_last = False, v_cols = [''name'', ''age''], v_data = [Some 1, None]\<rparr>,
         \<lparr>v_nr = 2, v_first = False, v_last = True, v_cols = [''name'', ''age''], v_data = [Some 2, Some 3]\<rparr>]"
  using rows_selected [OF memorySql_contract, of "[''name'', ''age'']" "memRows [[Some (1::nat), None], [None, None], [Some 2, Some 3], [None, Some 4]]"
      0 "\<lambda>d. hd d \<noteq> None"]
  by (simp add: memOpen_def memRows_def)

end
