(* ===== verification/DbReader.thy ===== *)
theory DbReader
  imports Rows
begin

text \<open>
  The reader over a query's rows (\<open>src/dbms/reader.go\<close>) and its records (\<open>src/dbms/record.go\<close>).  A reader moves
  through its rows, keeps one record that it overwrites for every row, and releases its statement and its
  handler when the rows end.  Calls that leave the reader are recorded in \<open>calls\<close>.
\<close>

section \<open>Records\<close>

text \<open>The fields of \<open>record\<close>; the pointer back to its reader is not used by any operation.\<close>

record 'v rec =
  rc_rwnr :: int
  rc_dta :: "'v row"
  rc_cols :: "string list"
  rc_coltpes :: "string list"
  rc_first :: bool
  rc_last :: bool

text \<open>The argument of \<open>Field\<close> is an interface value: a name, a position, or something else.\<close>

datatype fieldref = ByName string | ByIndex int | ByOther

fun colPos :: "(string \<Rightarrow> string \<Rightarrow> bool) \<Rightarrow> string \<Rightarrow> string list \<Rightarrow> nat option" where
  "colPos eqf s [] = None"
| "colPos eqf s (c # cs) = (if eqf c s then Some 0 else map_option Suc (colPos eqf s cs))"

text \<open>
  \<open>Field\<close>, with the case-insensitive comparison of the library as \<open>eqf\<close>.  For a reference that is no \<open>int\<close> the
  type assertion yields the position zero, so an unknown name gives the first value of the record.
\<close>

definition Field :: "(string \<Rightarrow> string \<Rightarrow> bool) \<Rightarrow> 'v rec \<Rightarrow> fieldref \<Rightarrow> 'v option" where
  "Field eqf rc ref =
     (let byPos = (\<lambda>idx. if idx > -1 \<and> idx < int (length (rc_dta rc)) then rc_dta rc ! nat idx else None) in
      case ref of
        ByName s \<Rightarrow>
          (case (if s \<noteq> '''' then colPos eqf s (rc_cols rc) else None) of
             Some ci \<Rightarrow> (if ci < length (rc_dta rc) then rc_dta rc ! ci else None)
           | None \<Rightarrow> byPos 0)
      | ByIndex idx \<Rightarrow> byPos idx
      | ByOther \<Rightarrow> byPos 0)"

section \<open>The reader\<close>

text \<open>\<open>ReaderEvents\<close>: the selection, and whether there are callbacks for errors and for the end.\<close>

record 'v readerEvents =
  ReaderError :: bool
  Select :: "('v rec \<Rightarrow> bool) option"
  Disposed :: bool

datatype rdcall = StmtClose | HandlerClose nat | DettachReader nat | CallDisposed

text \<open>
  The fields of \<open>reader\<close>.  A statement is seen through \<open>Rows()\<close>, which yields its rows or nil; a handler is a number.
  While \<open>rws\<close> is set it is the statement's rows object, and the field \<open>stmnt\<close> is only asked whether it is nil.
\<close>

record ('i, 'v) reader =
  stmnt :: "('i, 'v) rows option option"
  rws :: "('i, 'v) rows option"
  dbhndlr :: "nat option"
  rdevnts :: "'v readerEvents option"
  dsphndlr :: bool
  rc :: "'v rec option"
  calls :: "rdcall list"

text \<open>The reader \<open>QueryContext\<close> makes.\<close>

definition newReader :: "('i, 'v) rows \<Rightarrow> ('i, 'v) reader" where
  "newReader r = \<lparr>stmnt = Some (Some r), rws = Some r, dbhndlr = None, rdevnts = None, dsphndlr = False, rc = None, calls = []\<rparr>"

definition AttachHandler :: "nat option \<Rightarrow> ('i, 'v) reader \<Rightarrow> ('i, 'v) reader" where
  "AttachHandler h rdr = (if dbhndlr rdr \<noteq> h then rdr\<lparr>dbhndlr := h\<rparr> else rdr)"

definition rowsEvents :: "('i, 'v) rows \<Rightarrow> ('i, 'v) rows" where
  "rowsEvents r = (if evnts r \<noteq> None then r else r\<lparr>evnts := Some []\<rparr>)"

text \<open>\<open>Events\<close>: the events object is made on the first call and hooked into the rows' error callback.\<close>

definition rdEvents :: "('i, 'v) reader \<Rightarrow> ('i, 'v) reader" where
  "rdEvents rdr =
     (case rdevnts rdr of
        Some e \<Rightarrow> rdr
      | None \<Rightarrow>
          (case rws rdr of
             Some r \<Rightarrow> rdr\<lparr>rws := Some (rowsEvents r), rdevnts := Some \<lparr>ReaderError = False, Select = None, Disposed = False\<rparr>\<rparr>
           | None \<Rightarrow> rdr))"

text \<open>\<open>Close\<close>; with a handler that is to be disposed it returns before the events are told.\<close>

definition rdClose :: "('i, 'v) reader \<Rightarrow> ('i, 'v) reader" where
  "rdClose rdr =
     (let rdr1 = rdr\<lparr>rdevnts := None, rc := None, dbhndlr := None, stmnt := None, rws := None\<rparr>;
          st = (if stmnt rdr \<noteq> None then [StmtClose] else []);
          dsp = (case rdevnts rdr of Some e \<Rightarrow> (if Disposed e then [CallDisposed] else []) | None \<Rightarrow> []) in
      case dbhndlr rdr of
        Some h \<Rightarrow>
          (if dsphndlr rdr then rdr1\<lparr>calls := calls rdr @ st @ [HandlerClose h]\<rparr>
           else rdr1\<lparr>calls := calls rdr @ st @ [DettachReader h] @ dsp\<rparr>)
      | None \<Rightarrow> rdr1\<lparr>calls := calls rdr @ st @ dsp\<rparr>)"

text \<open>The rows a reader works on: its own, or those of its statement.\<close>

definition theRows :: "('i, 'v) reader \<Rightarrow> ('i, 'v) rows option" where
  "theRows rdr = (case rws rdr of Some r \<Rightarrow> Some r | None \<Rightarrow> (case stmnt rdr of Some ro \<Rightarrow> ro | None \<Rightarrow> None))"

definition rdColumns :: "('i, 'v) irows_ops \<Rightarrow> ('i, 'v) reader \<Rightarrow> (string list \<times> ('i, 'v) reader) option" where
  "rdColumns ops rdr =
     (case theRows rdr of
        None \<Rightarrow> Some ([], rdr)
      | Some r \<Rightarrow> do { ((cs, err), r1) \<leftarrow> Columns ops r; Some (if err = None then cs else [], rdr\<lparr>rws := Some r1\<rparr>) })"

text \<open>\<open>ColumnTypes\<close> of the rows and of the reader.\<close>

definition rowsColumnTypes :: "('i, 'v) irows_ops \<Rightarrow> ('i, 'v) rows \<Rightarrow> ((string list \<times> go_err option) \<times> ('i, 'v) rows) option" where
  "rowsColumnTypes ops r =
     do { r1 \<leftarrow> (if length (cols r) = 0 \<and> irows r \<noteq> None then map_option snd (Columns ops r) else Some r);
          Some ((coltpes r1, lsterr r1), r1) }"

definition rdColumnTypes :: "('i, 'v) irows_ops \<Rightarrow> ('i, 'v) reader \<Rightarrow> (string list \<times> ('i, 'v) reader) option" where
  "rdColumnTypes ops rdr =
     (case theRows rdr of
        None \<Rightarrow> Some ([], rdr)
      | Some r \<Rightarrow> do { ((ts, err), r1) \<leftarrow> rowsColumnTypes ops r; Some (if err = None then ts else [], rdr\<lparr>rws := Some r1\<rparr>) })"

definition prepRecord :: "('i, 'v) irows_ops \<Rightarrow> ('i, 'v) reader \<Rightarrow> (bool \<times> ('i, 'v) reader) option" where
  "prepRecord ops rdr =
     (case rws rdr of
        None \<Rightarrow> Some (False, rdr)
      | Some r \<Rightarrow>
          (case rc rdr of
             None \<Rightarrow>
               do {
                 (cs, rdr1) \<leftarrow> rdColumns ops rdr;
                 (ts, rdr2) \<leftarrow> rdColumnTypes ops rdr1;
                 r2 \<leftarrow> rws rdr2;
                 Some (if lsterr r2 \<noteq> None then (False, rdClose rdr2)
                       else (True, rdr2\<lparr>rc := Some \<lparr>rc_rwnr = RowNR r2, rc_dta = Data r2, rc_cols = cs, rc_coltpes = ts,
                                                  rc_first = r_first r2, rc_last = r_last r2\<rparr>\<rparr>))
               }
           | Some c \<Rightarrow>
               Some (True, rdr\<lparr>rc := Some (c\<lparr>rc_first := r_first r, rc_last := r_last r, rc_dta := Data r, rc_rwnr := RowNR r\<rparr>)\<rparr>)))"

text \<open>
  The selection \<open>Next\<close> hands to the rows: it fills the reader's record from the row it is shown and asks the
  event.  What it leaves in the record is overwritten when \<open>Next\<close> answers true and dropped when it answers false,
  so the selection is a function of the row.
\<close>

definition viewRecord :: "'v rowview \<Rightarrow> 'v rec" where
  "viewRecord v = \<lparr>rc_rwnr = v_nr v, rc_dta = v_data v, rc_cols = v_cols v, rc_coltpes = v_cols v, rc_first = v_first v, rc_last = v_last v\<rparr>"

lemma viewRecord_view:
  "viewRecord \<lparr>v_nr = k, v_first = b, v_last = d, v_cols = cs, v_data = x\<rparr> =
   \<lparr>rc_rwnr = k, rc_dta = x, rc_cols = cs, rc_coltpes = cs, rc_first = b, rc_last = d\<rparr>"
  by (simp add: viewRecord_def)

definition calselect :: "'v readerEvents option \<Rightarrow> 'v rec \<Rightarrow> bool" where
  "calselect e c = (case e of None \<Rightarrow> True | Some e \<Rightarrow> (case Select e of None \<Rightarrow> True | Some f \<Rightarrow> f c))"

definition rowSelection :: "'v readerEvents option \<Rightarrow> ('v rowview \<Rightarrow> bool) option" where
  "rowSelection e = (if e = None \<or> Select (the e) = None then None else Some (\<lambda>v. calselect e (viewRecord v)))"

definition readerNext :: "('i, 'v) irows_ops \<Rightarrow> ('i, 'v) reader \<Rightarrow> (bool \<times> ('i, 'v) reader) option" where
  "readerNext ops rdr =
     (case theRows rdr of
        None \<Rightarrow> Some (False, rdClose rdr)
      | Some r \<Rightarrow>
          do {
            (nxt, r1) \<leftarrow> (case rowSelection (rdevnts rdr) of None \<Rightarrow> Next ops r | Some f \<Rightarrow> SelectNext ops (Some f) r);
            if nxt then
              do {
                (prepped, rdr1) \<leftarrow> prepRecord ops (rdr\<lparr>rws := Some r1\<rparr>);
                Some (if prepped \<and> (case rws rdr1 of Some r2 \<Rightarrow> lsterr r2 = None | None \<Rightarrow> False) then (True, rdr1)
                      else (False, rdClose rdr1))
              }
            else Some (False, rdClose (rdr\<lparr>rws := Some r1\<rparr>))
          })"

section \<open>Iterating over the records\<close>

text \<open>The loop body \<open>nxtrc\<close> has a state \<open>'c\<close> of its own and says whether to go on.\<close>

partial_function (option) recordsLoop ::
  "('i, 'v) irows_ops \<Rightarrow> ('c \<Rightarrow> 'v rec \<Rightarrow> bool \<times> 'c) \<Rightarrow> 'c \<Rightarrow> ('i, 'v) reader \<Rightarrow> ('c \<times> ('i, 'v) reader) option" where
  "recordsLoop ops nxtrc c rdr =
     do {
       (nxt, rdr1) \<leftarrow> readerNext ops rdr;
       if nxt then
         do { rec \<leftarrow> rc rdr1;
              (let (go, c1) = nxtrc c rec in if go then recordsLoop ops nxtrc c1 rdr1 else Some (c1, rdr1)) }
       else Some (c, rdr1)
     }"

declare recordsLoop.simps [code]

text \<open>A condition for a reader without events is a nil dereference.\<close>

definition addWhere :: "('v rec \<Rightarrow> bool) option \<Rightarrow> ('i, 'v) reader \<Rightarrow> ('i, 'v) reader option" where
  "addWhere wh rdr =
     (case wh of
        None \<Rightarrow> Some rdr
      | Some w \<Rightarrow>
          do { e \<leftarrow> rdevnts rdr;
               Some (rdr\<lparr>rdevnts := Some (e\<lparr>Select :=
                 Some (case Select e of None \<Rightarrow> w | Some f \<Rightarrow> (\<lambda>r. w r \<and> f r))\<rparr>)\<rparr>) })"

definition Records :: "('i, 'v) irows_ops \<Rightarrow> ('v rec \<Rightarrow> bool) option \<Rightarrow> ('c \<Rightarrow> 'v rec \<Rightarrow> bool \<times> 'c) \<Rightarrow> 'c \<Rightarrow>
    ('i, 'v) reader \<Rightarrow> ('c \<times> ('i, 'v) reader) option" where
  "Records ops wh nxtrc c rdr =
     do {
       rdr1 \<leftarrow> addWhere wh rdr;
       (case rws rdr1 of
          Some r \<Rightarrow> (if lsterr r = None then recordsLoop ops nxtrc c rdr1 else Some (c, rdr1))
        | None \<Rightarrow> Some (c, rdr1))
     }"

text \<open>What the loop should do: feed the records to the body until it stops; the flag says that none was refused.\<close>

fun feed :: "('c \<Rightarrow> 'a \<Rightarrow> bool \<times> 'c) \<Rightarrow> 'c \<Rightarrow> 'a list \<Rightarrow> bool \<times> 'c" where
  "feed f c [] = (True, c)"
| "feed f c (x # xs) = (let (go, c1) = f c x in if go then feed f c1 xs else (False, c1))"

context row_source
begin

text \<open>The reader shows the row \<open>x\<close> as record \<open>k\<close>.\<close>

definition reading :: "('v row \<Rightarrow> bool) \<Rightarrow> 'v row \<Rightarrow> int \<Rightarrow> 'v row list \<Rightarrow> ('i, 'v) reader \<Rightarrow> bool" where
  "reading P x k rest rdr \<longleftrightarrow>
     (\<exists>r. rws rdr = Some r \<and> showing P x k rest r) \<and>
     rc rdr = Some \<lparr>rc_rwnr = k, rc_dta = x, rc_cols = tps, rc_coltpes = tps, rc_first = (k = 1), rc_last = (rest = [])\<rparr>"

text \<open>What a reader keeps from one row to the next.\<close>

definition same_owner :: "('i, 'v) reader \<Rightarrow> ('i, 'v) reader \<Rightarrow> bool" where
  "same_owner a b \<longleftrightarrow> stmnt a = stmnt b \<and> dbhndlr a = dbhndlr b \<and> rdevnts a = rdevnts b \<and> dsphndlr a = dsphndlr b \<and> calls a = calls b"

lemma prepRecord_reads:
  assumes r: "rws rdr = Some r" "showing P x k rest r" and c: "rc rdr = None \<or> (\<exists>c. rc rdr = Some c \<and> rc_cols c = tps \<and> rc_coltpes c = tps)"
  shows "\<exists>rdr'. prepRecord ops rdr = Some (True, rdr') \<and> reading P x k rest rdr' \<and> same_owner rdr' rdr \<and>
    (case rws rdr' of Some r2 \<Rightarrow> lsterr r2 = None | None \<Rightarrow> False)"
proof -
  have s: "cols r = tps" "coltpes r = tps" "lsterr r = None" "RowNR r = k" "Data r = x" "r_first r = (k = 1)" "r_last r = (rest = [])"
    using r(2) by (auto simp: showing_def RowNR_def Data_def)
  have cs: "Columns ops r = Some ((tps, None), r)" "rowsColumnTypes ops r = Some ((tps, None), r)"
    using s coltypes(2) by (simp_all add: Columns_def rowsColumnTypes_def)
  show ?thesis
    using r c s cs by (auto simp: prepRecord_def rdColumns_def rdColumnTypes_def theRows_def reading_def same_owner_def)
qed

lemma rdClose_owner: "same_owner a b \<Longrightarrow> rdClose a = rdClose b"
  by (cases a, cases b) (simp add: same_owner_def rdClose_def Let_def split: option.split)

lemma rowSelection_next: "(case sel of None \<Rightarrow> Next ops r | Some f \<Rightarrow> SelectNext ops (Some f) r) = SelectNext ops sel r"
  by (cases sel) (simp_all add: Next_def)

lemma readerNext_ends:
  assumes "theRows rdr = Some r" "SelectNext ops (rowSelection (rdevnts rdr)) r = Some (False, r1)"
  shows "readerNext ops rdr = Some (False, rdClose rdr)"
proof -
  have "same_owner (rdr\<lparr>rws := Some r1\<rparr>) rdr" by (simp add: same_owner_def)
  then show ?thesis using assms rdClose_owner by (simp add: readerNext_def rowSelection_next)
qed

lemma readerNext_reads:
  assumes "theRows rdr = Some r" "SelectNext ops (rowSelection (rdevnts rdr)) r = Some (True, r1)" "showing P x k rest r1"
    "rc rdr = None \<or> (\<exists>c. rc rdr = Some c \<and> rc_cols c = tps \<and> rc_coltpes c = tps)"
  shows "\<exists>rdr'. readerNext ops rdr = Some (True, rdr') \<and> reading P x k rest rdr' \<and> same_owner rdr' rdr"
  using assms(1,2) prepRecord_reads [of "rdr\<lparr>rws := Some r1\<rparr>" r1 P x k rest] assms(3,4)
  by (auto simp: readerNext_def rowSelection_next same_owner_def)

lemma same_owner_trans: "same_owner a b \<Longrightarrow> same_owner b d \<Longrightarrow> same_owner a d"
  by (simp add: same_owner_def)

text \<open>The loop delivers the given records and leaves the reader closed if the body takes them all.\<close>

definition delivers :: "('c \<Rightarrow> 'v rec \<Rightarrow> bool \<times> 'c) \<Rightarrow> 'c \<Rightarrow> 'v rec list \<Rightarrow> ('i, 'v) reader \<Rightarrow> bool" where
  "delivers f c rs rdr \<longleftrightarrow> (\<exists>rdr'. recordsLoop ops f c rdr = Some (snd (feed f c rs), rdr') \<and>
     (if fst (feed f c rs) then rdr' = rdClose rdr else same_owner rdr' rdr \<and> rws rdr' \<noteq> None))"

lemma delivers_end: "readerNext ops rdr = Some (False, rdClose rdr) \<Longrightarrow> delivers f c [] rdr"
  unfolding delivers_def by (subst recordsLoop.simps) simp

lemma delivers_step:
  assumes n: "readerNext ops rdr = Some (True, rdr1)" "rc rdr1 = Some x" "rws rdr1 \<noteq> None" "same_owner rdr1 rdr"
    and rest: "\<And>c1. f c x = (True, c1) \<Longrightarrow> delivers f c1 xs rdr1"
  shows "delivers f c (x # xs) rdr"
proof -
  obtain go c1 where f: "f c x = (go, c1)" by force
  show ?thesis
  proof (cases go)
    case True
    then have "recordsLoop ops f c rdr = recordsLoop ops f c1 rdr1" using n(1,2) f by (subst recordsLoop.simps) simp
    then show ?thesis
      using rest [of c1] f True rdClose_owner [OF n(4)] same_owner_trans [OF _ n(4)] by (auto simp: delivers_def)
  next
    case False
    then have "recordsLoop ops f c rdr = Some (c1, rdr1)" using n(1,2) f by (subst recordsLoop.simps) simp
    then show ?thesis using f False n(3,4) by (simp add: delivers_def)
  qed
qed

lemma delivers_from:
  assumes "readerNext ops rdr = Some (True, rdr1)" "reading P y k ys rdr1" "1 \<le> k" "same_owner rdr1 rdr"
  shows "delivers f c (map viewRecord (numbered tps k (y # ys))) rdr"
  using assms
proof (induction ys arbitrary: y k c rdr rdr1)
  case Nil
  then obtain r where r: "rws rdr1 = Some r" "showing P y k [] r" by (auto simp: reading_def)
  then have "\<exists>r1. SelectNext ops (rowSelection (rdevnts rdr1)) r = Some (False, r1)"
    using coltypes(2) by (cases "irows r") (auto simp: SelectNext_def nextRec_def showing_def)
  then have "readerNext ops rdr1 = Some (False, rdClose rdr1)" using readerNext_ends r(1) by (auto simp: theRows_def)
  then have "delivers f c1 [] rdr1" for c1 by (rule delivers_end)
  then show ?case using delivers_step [OF Nil(1), of _ f c "[]"] Nil(2,4) r(1) by (simp add: reading_def viewRecord_view)
next
  case (Cons z zs)
  then obtain r where r: "rws rdr1 = Some r" "showing P y k (z # zs) r" by (auto simp: reading_def)
  obtain r1 where "SelectNext ops (rowSelection (rdevnts rdr1)) r = Some (True, r1)" "showing P z (k + 1) zs r1"
    using next_row [OF r(2) Cons.prems(3)] by blast
  then obtain rdr2 where n: "readerNext ops rdr1 = Some (True, rdr2)" "reading P z (k + 1) zs rdr2" "same_owner rdr2 rdr1"
    using readerNext_reads [of rdr1 r r1 P z "k + 1" zs] r(1) Cons.prems(2) by (auto simp: theRows_def reading_def)
  have "delivers f c1 (map viewRecord (numbered tps (k + 1) (z # zs))) rdr1" for c1
    using Cons.IH [OF n(1,2) _ n(3)] Cons.prems(3) by simp
  then show ?case
    using delivers_step [OF Cons.prems(1), of _ f c "map viewRecord (numbered tps (k + 1) (z # zs))"] Cons.prems(2,4) r(1)
    by (simp add: reading_def viewRecord_view)
qed

text \<open>The whole iteration over a fresh reader.\<close>

lemma delivers_all:
  assumes i: "inv i" and sel: "selects (rowSelection (rdevnts rdr)) P" and r: "rws rdr = Some ((newRows i)\<lparr>evnts := es\<rparr>)" "rc rdr = None"
  shows "delivers f c (map viewRecord (numbered tps 1 (filter P (left i)))) rdr"
proof (cases "filter P (left i)")
  case Nil
  then have "\<exists>r1. SelectNext ops (rowSelection (rdevnts rdr)) ((newRows i)\<lparr>evnts := es\<rparr>) = Some (False, r1)"
    using first_row [OF i sel, of es] by simp
  then have "readerNext ops rdr = Some (False, rdClose rdr)" using readerNext_ends r(1) by (auto simp: theRows_def)
  then show ?thesis using Nil delivers_end by simp
next
  case (Cons y ys)
  then obtain r1 where "SelectNext ops (rowSelection (rdevnts rdr)) ((newRows i)\<lparr>evnts := es\<rparr>) = Some (True, r1)" "showing P y 1 ys r1"
    using first_row [OF i sel, of es] by auto
  then obtain rdr1 where "readerNext ops rdr = Some (True, rdr1)" "reading P y 1 ys rdr1" "same_owner rdr1 rdr"
    using readerNext_reads [of rdr _ r1 P y 1 ys] r by (auto simp: theRows_def)
  then show ?thesis using delivers_from [of rdr rdr1 P y 1 ys] Cons by simp
qed

end

section \<open>Properties\<close>

lemma attached_reader:
  "AttachHandler h (rdEvents (newReader (dbRows q))) =
   \<lparr>stmnt = Some (Some (dbRows q)), rws = Some ((newRows \<lparr>dbrows = Some q, dtarefs = []\<rparr>)\<lparr>evnts := Some []\<rparr>), dbhndlr = h,
    rdevnts = Some \<lparr>ReaderError = False, Select = None, Disposed = False\<rparr>, dsphndlr = False, rc = None, calls = []\<rparr>"
  by (cases h) (simp_all add: AttachHandler_def rdEvents_def newReader_def rowsEvents_def dbRows_def newRows_def)

lemma Records_delivers:
  assumes c: "sql_contract sq left cur good tps" and q: "good q"
    and e: "rdr = AttachHandler h (rdEvents (newReader (dbRows q)))"
    and wh: "wh = None \<and> P = (\<lambda>_. True) \<or> wh = Some (\<lambda>r. P (rc_dta r))" and rs: "rs = map viewRecord (numbered tps 1 (filter P (left q)))"
  shows "\<exists>rdr'. Records (dbOps sq a) wh f c rdr = Some (snd (feed f c rs), rdr') \<and>
    (if fst (feed f c rs) then rdr' = rdClose rdr else rws rdr' \<noteq> None \<and> calls rdr' = [])"
proof -
  note src = dbOps_row_source [OF c, of a]
  obtain w where w: "addWhere wh rdr = Some w" "rws w = Some ((newRows \<lparr>dbrows = Some q, dtarefs = []\<rparr>)\<lparr>evnts := Some []\<rparr>)"
      "rc w = None" "row_source.selects (rowSelection (rdevnts w)) P" "calls w = []" "rdClose w = rdClose rdr"
    using wh unfolding row_source.selects_def [OF src]
    by (auto simp: e attached_reader addWhere_def rowSelection_def calselect_def rdClose_def Let_def viewRecord_def
        split: option.splits)
  have "row_source.delivers (dbOps sq a) f c rs w"
    using row_source.delivers_all [OF src dbInv_new [of good, OF q] w(4,2,3)] by (simp add: rs)
  then show ?thesis
    using w unfolding row_source.delivers_def [OF src] by (auto simp: Records_def newRows_def row_source.same_owner_def [OF src])
qed

text \<open>
  Claim C12: iterating over the records of a query is exact.  For a result set with at least one column that \<open>database/sql\<close>
  delivers without an error (\<open>sql_contract\<close>: \<open>Next\<close> walks through the rows and then answers false, after which nothing is assumed of the cursor, and \<open>Scan\<close> is only
  relied on behind a \<open>Next\<close> that answered true), and a reader with its events and a handler, \<open>Records\<close> with a condition on the data returns, and its
  loop body sees the records that meet the condition, all of them, in order, numbered from one and with the right first and last flags, until
  it asks to stop.  If it never does, the reader ends up closed, with its statement closed and itself detached from the handler exactly once;
  if it does, the reader stays open and nothing has been released.
\<close>

theorem records_exact:
  assumes "sql_contract sq left cur good tps" "good q"
    and "rs = map viewRecord (numbered tps 1 (filter P (left q)))"
  shows "\<exists>rdr'. Records (dbOps sq a) (Some (\<lambda>r. P (rc_dta r))) f c (AttachHandler (Some h) (rdEvents (newReader (dbRows q)))) =
      Some (snd (feed f c rs), rdr') \<and>
    (if fst (feed f c rs) then rws rdr' = None \<and> stmnt rdr' = None \<and> calls rdr' = [StmtClose, DettachReader h]
     else rws rdr' \<noteq> None \<and> calls rdr' = [])"
proof -
  have "calls (rdClose (AttachHandler (Some h) (rdEvents (newReader (dbRows q))))) = [StmtClose, DettachReader h]"
    by (simp add: attached_reader rdClose_def)
  moreover have "rws (rdClose x) = None" "stmnt (rdClose x) = None" for x
    by (simp_all add: rdClose_def Let_def split: option.splits)
  ultimately show ?thesis
    using Records_delivers [OF assms(1,2) refl, of "Some (\<lambda>r. P (rc_dta r))" P rs a f c "Some h"] assms(3)
    by (auto split: if_splits)
qed

theorem records_exact_witness:
  "\<exists>rdr'. Records (dbOps (memorySql [''name'']) 0) (Some (\<lambda>r. hd (rc_dta r) \<noteq> None)) (\<lambda>c r. (True, c @ [rc_rwnr r])) []
      (AttachHandler (Some 7) (rdEvents (newReader (dbRows (memRows [[Some (1::nat)], [None], [Some 2]]))))) = Some ([1, 2], rdr') \<and>
     rws rdr' = None \<and> calls rdr' = [StmtClose, DettachReader 7]"
  using records_exact [OF memorySql_contract _ refl, of "[''name'']" "memRows [[Some (1::nat)], [None], [Some 2]]" 0 "\<lambda>d. hd d \<noteq> None"
      "\<lambda>c r. (True, c @ [rc_rwnr r])" "[]" 7]
  by (auto simp: viewRecord_def memOpen_def memRows_def)

text \<open>With a condition but without events the code panics.\<close>

lemma Records_where_panics: "Records ops (Some w) f c (newReader r) = None"
  by (simp add: Records_def addWhere_def newReader_def)

text \<open>Defect: a name that no column has yields the value of the first column.\<close>

lemma colPos_none: "(\<forall>c \<in> set cs. \<not> eqf c s) \<Longrightarrow> colPos eqf s cs = None"
  by (induction cs) auto

lemma Field_unknown_name:
  "s \<noteq> [] \<Longrightarrow> \<forall>c \<in> set (rc_cols t). \<not> eqf c s \<Longrightarrow> rc_dta t = v # vs \<Longrightarrow> Field eqf t (ByName s) = v"
  by (simp add: Field_def colPos_none)

text \<open>A name finds the value of its column, the first one if the names of several columns match.\<close>

lemma colPos_first: "eqf c s \<Longrightarrow> \<forall>x \<in> set cs. \<not> eqf x s \<Longrightarrow> colPos eqf s (cs @ c # ds) = Some (length cs)"
  by (induction cs) auto

lemma Field_name:
  assumes "rc_cols t = cs @ c # ds" "eqf c s" "\<forall>x \<in> set cs. \<not> eqf x s" "s \<noteq> []" "length (rc_dta t) = length (rc_cols t)"
  shows "Field eqf t (ByName s) = rc_dta t ! length cs"
  using assms by (simp add: Field_def colPos_first)

text \<open>A closed reader stays closed: closing again makes no further call.\<close>

lemma rdClose_idem: "rdClose (rdClose rdr) = rdClose rdr"
  by (cases rdr) (simp add: rdClose_def Let_def split: option.splits)

end
