(* ===== verification/SqlStatement.thy ===== *)
theory SqlStatement
  imports TemplateParser DbReader
begin

text \<open>
  Queries with named arguments (\<open>src/dbms/statement.go\<close>).  \<open>prepairSqlStatement\<close> takes the text of a query, splits
  it at semicolons and replaces each name between two \<open>@\<close> by a placeholder of the database, with the label
  parser of \<open>TemplateParser\<close>; the values go to the database as arguments.  Texts are rune lists, and a buffer is
  its contents.  The case tables of the Go library are arguments: \<open>eqfold\<close> is \<open>strings.EqualFold\<close>, \<open>upper\<close> is
  \<open>strings.ToUpper\<close>.
\<close>

section \<open>Values and names\<close>

type_synonym sqltext = "rune list"

datatype 'v sqlval = Txt sqltext | Nul | Val 'v

text \<open>The interface \<open>parameters.Parameters\<close>, of which the keys and the values by key are used.\<close>

record sqlparams =
  p_keys :: "sqltext list"
  p_get :: "sqltext \<Rightarrow> sqltext list"

text \<open>
  What the replacement looks names up in: the parameters, the rows of the statement (the answer of \<open>Columns\<close> and the
  data), the default arguments under their upper-case names, and the placeholders of the driver.
\<close>

record 'v sqlenv =
  eqfold :: "sqltext \<Rightarrow> sqltext \<Rightarrow> bool"
  upper :: "sqltext \<Rightarrow> sqltext"
  e_params :: "sqlparams option"
  e_rows :: "((sqltext list \<times> go_err option) \<times> 'v sqlval list) option"
  e_dflt :: "sqltext \<rightharpoonup> 'v sqlval"
  e_arg :: "nat \<Rightarrow> sqltext"

text \<open>A failed type assertion to a string gives the empty string.\<close>

fun asString :: "'v sqlval \<Rightarrow> sqltext" where
  "asString (Txt s) = s"
| "asString _ = []"

definition TrimSpaces :: "sqltext \<Rightarrow> sqltext" where
  "TrimSpaces s = rev (dropWhile IsSpace (rev (dropWhile IsSpace s)))"

text \<open>The value of a parameter: its values joined, or the default if that is empty.\<close>

definition paramValue :: "'v sqlenv \<Rightarrow> sqlparams \<Rightarrow> sqltext \<Rightarrow> 'v sqlval" where
  "paramValue env ps pnme =
     (let dfl = e_dflt env (upper env pnme); prmsv = p_get ps pnme in
      if length prmsv = 0 then (case dfl of Some v \<Rightarrow> Txt (asString v) | None \<Rightarrow> Txt [])
      else
        (let prmsvs = concat prmsv in
         if prmsvs = [] then (case dfl of Some v \<Rightarrow> Txt (asString v) | None \<Rightarrow> Txt prmsvs) else Txt prmsvs))"

definition rowValue :: "'v sqlenv \<Rightarrow> sqltext \<Rightarrow> 'v sqlval \<Rightarrow> 'v sqlval" where
  "rowValue env col dv =
     (let dfl = e_dflt env (upper env col) in
      case dv of
        Txt dvs \<Rightarrow> Txt (if dvs = [] then (case dfl of Some v \<Rightarrow> asString v | None \<Rightarrow> []) else dvs)
      | Nul \<Rightarrow> (case dfl of Some v \<Rightarrow> v | None \<Rightarrow> Nul)
      | Val x \<Rightarrow> Val x)"

datatype 'v lookup = Found "'v sqlval" | Failure go_err | Missing

text \<open>The column the name stands for, unless the data do not fit the columns.\<close>

definition findRow :: "'v sqlenv \<Rightarrow> sqltext \<Rightarrow> 'v lookup" where
  "findRow env tstnme =
     (case e_rows env of
        None \<Rightarrow> Missing
      | Some ((cs, colserr), data) \<Rightarrow>
          (case colserr of
             Some err \<Rightarrow> Failure err
           | None \<Rightarrow>
               (if 0 < length cs \<and> length data = length cs then
                  (case find (\<lambda>(col, dv). eqfold env tstnme col) (zip cs data) of
                     Some (col, dv) \<Rightarrow> Found (rowValue env col dv)
                   | None \<Rightarrow> Missing)
                else Missing)))"

definition resolve :: "'v sqlenv \<Rightarrow> sqltext \<Rightarrow> 'v lookup" where
  "resolve env tstnme =
     (case (case e_params env of
              None \<Rightarrow> None
            | Some ps \<Rightarrow> map_option (paramValue env ps) (find (\<lambda>pnme. eqfold env pnme tstnme) (p_keys ps))) of
        Some v \<Rightarrow> Found v
      | None \<Rightarrow>
          (case findRow env tstnme of
             Found v \<Rightarrow> Found v
           | Failure err \<Rightarrow> Failure err
           | Missing \<Rightarrow> (case e_dflt env (upper env tstnme) of Some v \<Rightarrow> Found v | None \<Rightarrow> Missing)))"

section \<open>The replacement\<close>

text \<open>
  The variables of \<open>prepairSqlStatement\<close>.  A found argument is stored as a closure that is called before the
  function returns; its value does not change in between, and the model stores it.
\<close>

record 'v sqlacc =
  qrybf :: sqltext
  prmnme :: sqltext
  prmargsfnd :: "nat list"
  prmargvalsfnd :: "nat \<rightharpoonup> 'v sqlval"
  prpdqry :: "sqltext list"
  prpdargs :: "nat \<rightharpoonup> 'v sqlval list"
  qerr :: "go_err option"

definition newAcc :: "'v sqlacc" where
  "newAcc = \<lparr>qrybf = [], prmnme = [], prmargsfnd = [], prmargvalsfnd = Map.empty, prpdqry = [], prpdargs = Map.empty, qerr = None\<rparr>"

definition nulltext :: sqltext where
  "nulltext = [110, 117, 108, 108]"

text \<open>The callback at the second \<open>@\<close>.  A blank name stays in \<open>prmnme\<close>, and so does one whose rows report an error.\<close>

definition matchedArg :: "'v sqlenv \<Rightarrow> 'v sqlacc \<Rightarrow> 'v sqlacc" where
  "matchedArg env s =
     (if 0 < length (prmnme s) then
        (let tstnme = TrimSpaces (prmnme s) in
         if tstnme = [] then s
         else
           (case resolve env tstnme of
              Found v \<Rightarrow>
                (let prmfndl = length (prmargsfnd s) in
                 s\<lparr>qrybf := qrybf s @ e_arg env prmfndl, prmnme := [], prmargsfnd := prmargsfnd s @ [prmfndl],
                   prmargvalsfnd := (prmargvalsfnd s)(prmfndl \<mapsto> v)\<rparr>)
            | Failure err \<Rightarrow> s\<lparr>qerr := Some err\<rparr>
            | Missing \<Rightarrow> s\<lparr>qrybf := qrybf s @ nulltext, prmnme := []\<rparr>))
      else s)"

definition sqlEvents :: "'v sqlenv \<Rightarrow> 'v sqlacc events" where
  "sqlEvents env =
     \<lparr>EventCanPreParse = None, EventPreRunes = Some (\<lambda>rns (p, s). Some (p, s\<lparr>qrybf := qrybf s @ rns\<rparr>)),
      EventMatchedPre = None, EventCanPostParse = None,
      EventPostRunes = Some (\<lambda>canreset rns (p, s). Some (False, (p, s\<lparr>prmnme := prmnme s @ rns\<rparr>))),
      EventMatchedPost = Some (\<lambda>(p, s). Some (False, (p, matchedArg env s)))\<rparr>"

text \<open>The arguments found so far become those of the prepared query number \<open>i\<close>.\<close>

definition takeArgs :: "nat \<Rightarrow> 'v sqlacc \<Rightarrow> 'v sqlacc" where
  "takeArgs i s =
     (if 0 < length (prmargsfnd s)
      then s\<lparr>prmargsfnd := [], prpdargs := (prpdargs s)(i \<mapsto> map (\<lambda>ids. the (prmargvalsfnd s ids)) (prmargsfnd s))\<rparr>
      else s)"

text \<open>At a semicolon.\<close>

definition endStatement :: "'v sqlacc \<Rightarrow> 'v sqlacc" where
  "endStatement s =
     (let prds = qrybf s; s1 = s\<lparr>qrybf := []\<rparr> in
      if prds \<noteq> [] then takeArgs (length (prpdqry s)) (s1\<lparr>prpdqry := prpdqry s @ [prds @ [59]]\<rparr>) else s1)"

fun prepLoop :: "'v sqlenv \<Rightarrow> sqltext \<Rightarrow> 'v sqlacc pst \<Rightarrow> 'v sqlacc pst option" where
  "prepLoop env [] s = Some s"
| "prepLoop env (r # rs) s =
     (if r = 59 then prepLoop env rs (fst s, endStatement (snd s))
      else do { s1 \<leftarrow> Parse (sqlEvents env) [r] s; prepLoop env rs s1 })"

definition prepError :: go_err where
  "prepError = Err ''failed parsing query arguments''"

text \<open>
  From the text of the query to its prepared parts.  With an open argument the error is returned at once, and the
  rest of the text is dropped.
\<close>

definition prepText :: "'v sqlenv \<Rightarrow> sqltext \<Rightarrow> 'v sqlacc option" where
  "prepText env q =
     do {
       (failed, s) \<leftarrow>
         (if 64 \<in> set q \<or> 59 \<in> set q then
            do { (p, s) \<leftarrow> prepLoop env q (New [64] [64] False False, newAcc);
                 Some (if Busy p then (True, s\<lparr>qerr := Some prepError\<rparr>)
                       else (False, takeArgs (length (prpdqry s)) s)) }
          else Some (False, newAcc\<lparr>qrybf := q\<rparr>));
       Some (if \<not> failed \<and> qrybf s \<noteq> [] \<and> qrybf s \<noteq> [59] then s\<lparr>prpdqry := prpdqry s @ [qrybf s]\<rparr> else s)
     }"

section \<open>The replacement as an automaton\<close>

text \<open>The flag says whether the next rune belongs to a name.\<close>

definition sqlStep :: "'v sqlenv \<Rightarrow> bool \<times> 'v sqlacc \<Rightarrow> rune \<Rightarrow> bool \<times> 'v sqlacc" where
  "sqlStep env ms r =
     (case ms of (m, s) \<Rightarrow>
        if r = 59 then (m, endStatement s)
        else if r = 64 then (if m then (False, matchedArg env s) else (True, s))
        else if m then (m, s\<lparr>prmnme := prmnme s @ [r]\<rparr>)
        else (m, s\<lparr>qrybf := qrybf s @ [r]\<rparr>))"

definition at_label :: "bool \<Rightarrow> Parsing \<Rightarrow> bool" where
  "at_label m p \<longleftrightarrow> prelbl p = [64] \<and> preL p = 1 \<and> postlbl p = [64] \<and> postL p = 1 \<and> prei p = (if m then 1 else 0) \<and> posti p = 0 \<and>
     pretxtprs p = None \<and> posttxtprs p = None \<and> bufdrns p = []"

lemma parse_outside:
  assumes "at_label False p"
  shows "\<exists>p'. parse (sqlEvents env) r (p, s) = Some (p', if r = 64 then s else s\<lparr>qrybf := qrybf s @ [r]\<rparr>) \<and> at_label (r = 64) p'"
  using assms
  by (subst parse.simps) (auto simp: at_label_def parsePre_def txtParseOpt_def matchPre_def CanPreParse_def sqlEvents_def
      brokenPre_def go_index_def passPre_def evtpre_def Let_def)

lemma parse_inside:
  assumes "at_label True p"
  shows "\<exists>p'. parse (sqlEvents env) r (p, s) = Some (p', if r = 64 then matchedArg env s else s\<lparr>prmnme := prmnme s @ [r]\<rparr>) \<and>
    at_label (r \<noteq> 64) p'"
  using assms
  by (subst parse.simps) (auto simp: at_label_def txtParseOpt_def matchPost_def CanPostParse_def sqlEvents_def go_index_def
      evtpost_def rewind_def ResetParsing_def Let_def)

lemma prepLoop_automaton:
  "at_label m p \<Longrightarrow> \<exists>p'. prepLoop env q (p, s) = Some (p', snd (foldl (sqlStep env) (m, s) q)) \<and>
     at_label (fst (foldl (sqlStep env) (m, s) q)) p'"
proof (induction q arbitrary: m p s)
  case Nil
  then show ?case by simp
next
  case (Cons r rs)
  show ?case
  proof (cases "r = 59")
    case True
    then show ?thesis using Cons.IH [OF Cons.prems, of "endStatement s"] by (simp add: sqlStep_def)
  next
    case False
    have "bufdrns p = []" using Cons.prems by (simp add: at_label_def)
    then obtain p' where p': "Parse (sqlEvents env) [r] (p, s) = Some (p', snd (sqlStep env (m, s) r))" "at_label (fst (sqlStep env (m, s) r)) p'"
      using Cons.prems False parse_outside [of p env r s] parse_inside [of p env r s]
      by (cases m) (auto simp: Parse_def sqlStep_def split: if_splits)
    show ?thesis using Cons.IH [OF p'(2), of "snd (sqlStep env (m, s) r)"] False p'(1) by simp
  qed
qed

lemma Busy_at_label: "at_label m p \<Longrightarrow> Busy p = m"
  by (auto simp: at_label_def Busy_def)

text \<open>The end of the text.\<close>

definition sqlFinish :: "bool \<times> 'v sqlacc \<Rightarrow> 'v sqlacc" where
  "sqlFinish ms =
     (case ms of (m, s) \<Rightarrow>
        if m then s\<lparr>qerr := Some prepError\<rparr>
        else (let s1 = takeArgs (length (prpdqry s)) s in
              if qrybf s1 \<noteq> [] \<and> qrybf s1 \<noteq> [59] then s1\<lparr>prpdqry := prpdqry s1 @ [qrybf s1]\<rparr> else s1))"

lemma sqlStep_plain: "64 \<notin> set q \<Longrightarrow> 59 \<notin> set q \<Longrightarrow> foldl (sqlStep env) (False, s) q = (False, s\<lparr>qrybf := qrybf s @ q\<rparr>)"
  by (induction q arbitrary: s) (auto simp: sqlStep_def)

text \<open>Preparing a text is running the automaton: it never panics, whatever the text.\<close>

lemma prepText_automaton: "prepText env q = Some (sqlFinish (foldl (sqlStep env) (False, newAcc) q))"
proof (cases "64 \<in> set q \<or> 59 \<in> set q")
  case True
  obtain m s where ms: "foldl (sqlStep env) (False, newAcc) q = (m, s)" by force
  have "at_label False (New [64] [64] False False)" by (simp add: at_label_def New_def nextparsing_def)
  then obtain p where p: "prepLoop env q (New [64] [64] False False, newAcc) = Some (p, s)" "at_label m p"
    using prepLoop_automaton [of False "New [64] [64] False False" env q newAcc] ms by auto
  show ?thesis using True p Busy_at_label [OF p(2)] by (simp add: prepText_def ms sqlFinish_def Let_def)
next
  case False
  then show ?thesis by (simp add: prepText_def sqlStep_plain sqlFinish_def newAcc_def takeArgs_def)
qed

section \<open>Values never reach the text\<close>

text \<open>Two environments that differ only in values.\<close>

definition same_names :: "'v sqlenv \<Rightarrow> 'w sqlenv \<Rightarrow> bool" where
  "same_names a b \<longleftrightarrow> eqfold a = eqfold b \<and> upper a = upper b \<and> e_arg a = e_arg b \<and>
     map_option p_keys (e_params a) = map_option p_keys (e_params b) \<and>
     map_option (\<lambda>((cs, err), d). (cs, err, length d)) (e_rows a) = map_option (\<lambda>((cs, err), d). (cs, err, length d)) (e_rows b) \<and>
     dom (e_dflt a) = dom (e_dflt b)"

fun shape :: "'v lookup \<Rightarrow> unit lookup" where
  "shape (Found v) = Found Nul"
| "shape (Failure err) = Failure err"
| "shape Missing = Missing"

lemma find_zip:
  "length d = length cs \<Longrightarrow> (find (\<lambda>(c, v). P c) (zip cs d) = None) = (find P cs = None)"
proof (induction cs arbitrary: d)
  case (Cons c cs)
  then show ?case by (cases d) auto
qed simp

lemma findRow_shape:
  assumes "same_names a b"
  shows "shape (findRow a n) = shape (findRow b n)"
proof (cases "e_rows a")
  case None
  then show ?thesis using assms by (auto simp: same_names_def findRow_def)
next
  case (Some x)
  obtain cs err d where x: "x = ((cs, err), d)" by (metis surj_pair)
  then obtain d' where b: "e_rows b = Some ((cs, err), d')" "length d' = length d" "eqfold a = eqfold b"
    using assms Some by (cases "e_rows b") (auto simp: same_names_def)
  have "length d = length cs \<Longrightarrow>
      (find (\<lambda>(col, dv). eqfold b n col) (zip cs d) = None) = (find (\<lambda>(col, dv). eqfold b n col) (zip cs d') = None)"
    using find_zip [of d cs "eqfold b n"] find_zip [of d' cs "eqfold b n"] b(2) by simp
  then show ?thesis using Some x b by (auto simp: findRow_def split: option.splits)
qed

lemma resolve_shape:
  assumes "same_names a b"
  shows "shape (resolve a n) = shape (resolve b n)"
proof -
  have d: "(e_dflt a (upper a n) = None) = (e_dflt b (upper b n) = None)" "eqfold a = eqfold b"
      "map_option p_keys (e_params a) = map_option p_keys (e_params b)"
    using assms unfolding same_names_def by (metis domIff)+
  then have "(case e_params a of None \<Rightarrow> None | Some ps \<Rightarrow> map_option (paramValue a ps) (find (\<lambda>pnme. eqfold a pnme n) (p_keys ps))) = None \<longleftrightarrow>
      (case e_params b of None \<Rightarrow> None | Some ps \<Rightarrow> map_option (paramValue b ps) (find (\<lambda>pnme. eqfold b pnme n) (p_keys ps))) = None"
    by (auto split: option.splits)
  then show ?thesis
    using d(1) findRow_shape [OF assms, of n] unfolding resolve_def
    by (auto split: option.splits lookup.splits)
qed

lemma shape_cases:
  "shape x = shape y \<Longrightarrow> (\<exists>v w. x = Found v \<and> y = Found w) \<or> (\<exists>e. x = Failure e \<and> y = Failure e) \<or> x = Missing \<and> y = Missing"
  by (cases x; cases y) auto

text \<open>What can be seen of the preparation without looking at values.\<close>

definition outline :: "'v sqlacc \<Rightarrow> sqltext \<times> sqltext \<times> nat list \<times> sqltext list \<times> go_err option \<times> (nat \<Rightarrow> nat option)" where
  "outline s = (qrybf s, prmnme s, prmargsfnd s, prpdqry s, qerr s, \<lambda>i. map_option length (prpdargs s i))"

lemma takeArgs_outline: "outline s = outline t \<Longrightarrow> outline (takeArgs i s) = outline (takeArgs i t)"
  by (auto simp: outline_def takeArgs_def fun_eq_iff)

lemma matchedArg_outline:
  assumes "same_names a b" "outline s = outline t"
  shows "outline (matchedArg a s) = outline (matchedArg b t)"
proof -
  let ?n = "TrimSpaces (prmnme s)"
  have n: "prmnme t = prmnme s" "qrybf t = qrybf s" "prmargsfnd t = prmargsfnd s" "e_arg a = e_arg b"
    using assms by (simp_all add: outline_def same_names_def)
  show ?thesis
    using shape_cases [OF resolve_shape [OF assms(1), of ?n]] assms(2)
    by (elim disjE exE conjE) (simp_all add: matchedArg_def outline_def Let_def n)
qed

lemma endStatement_outline: "outline s = outline t \<Longrightarrow> outline (endStatement s) = outline (endStatement t)"
  by (auto simp: endStatement_def Let_def outline_def takeArgs_def fun_eq_iff)

lemma sqlRun_outline:
  assumes "same_names a b" "outline s = outline t"
  shows "fst (foldl (sqlStep a) (m, s) q) = fst (foldl (sqlStep b) (m, t) q) \<and>
    outline (snd (foldl (sqlStep a) (m, s) q)) = outline (snd (foldl (sqlStep b) (m, t) q))"
  using assms(2)
proof (induction q arbitrary: m s t)
  case (Cons r rs)
  obtain m1 s1 t1 where st: "sqlStep a (m, s) r = (m1, s1)" "sqlStep b (m, t) r = (m1, t1)"
    by (cases "r = 59"; cases "r = 64"; cases m) (auto simp: sqlStep_def)
  then have "outline s1 = outline t1"
    using Cons.prems matchedArg_outline [OF assms(1) Cons.prems] endStatement_outline [OF Cons.prems]
    by (auto simp: sqlStep_def outline_def split: if_splits)
  then show ?case using Cons.IH st by simp
qed simp

lemma sqlFinish_outline:
  "m = n \<Longrightarrow> outline s = outline t \<Longrightarrow> outline (sqlFinish (m, s)) = outline (sqlFinish (n, t))"
  using takeArgs_outline [of s t "length (prpdqry s)"] by (auto simp: sqlFinish_def outline_def Let_def)

lemma prepText_names:
  assumes "same_names a b"
  shows "\<exists>s t. prepText a q = Some s \<and> prepText b q = Some t \<and> prpdqry s = prpdqry t \<and> qerr s = qerr t \<and>
    (\<forall>i. map_option length (prpdargs s i) = map_option length (prpdargs t i))"
proof -
  have "outline (newAcc :: 'a sqlacc) = outline (newAcc :: 'b sqlacc)" by (simp add: outline_def newAcc_def)
  from sqlRun_outline [OF assms this, of False q]
  have "outline (sqlFinish (foldl (sqlStep a) (False, newAcc) q)) = outline (sqlFinish (foldl (sqlStep b) (False, newAcc) q))"
    using sqlFinish_outline by (metis prod.collapse)
  then show ?thesis by (auto simp: prepText_automaton outline_def fun_eq_iff)
qed

text \<open>
  Claim C4: values never become part of a query.  Two preparations of any text whose environments agree on the names
  (the parameter keys, the columns, the names of default arguments) but not on the values both return, with the same
  query texts, the same error and the same number of arguments for each query.
\<close>

theorem prepared_text_ignores_values:
  assumes "same_names a b"
  shows "\<exists>s t. prepText a q = Some s \<and> prepText b q = Some t \<and> prpdqry s = prpdqry t \<and> qerr s = qerr t \<and>
    (\<forall>i. map_option length (prpdargs s i) = map_option length (prpdargs t i))"
  using prepText_names [OF assms] .

section \<open>The prepared parts of a document\<close>

text \<open>A query text as a list of statements, each a list of literal text and arguments.\<close>

datatype piece = Lit sqltext | Arg sqltext

fun render :: "piece list \<Rightarrow> sqltext" where
  "render [] = []"
| "render (Lit t # ps) = t @ render ps"
| "render (Arg n # ps) = 64 # n @ 64 # render ps"

fun renderDoc :: "piece list list \<Rightarrow> sqltext" where
  "renderDoc [] = []"
| "renderDoc [ps] = render ps"
| "renderDoc (ps # qs) = render ps @ 59 # renderDoc qs"

fun piece_ok :: "piece \<Rightarrow> bool" where
  "piece_ok (Lit t) \<longleftrightarrow> 64 \<notin> set t \<and> 59 \<notin> set t"
| "piece_ok (Arg n) \<longleftrightarrow> 64 \<notin> set n \<and> 59 \<notin> set n \<and> TrimSpaces n \<noteq> []"

text \<open>The text and the arguments a statement should give when \<open>k\<close> arguments precede.\<close>

fun pieceOut :: "'v sqlenv \<Rightarrow> nat \<Rightarrow> piece list \<Rightarrow> sqltext \<times> 'v sqlval list" where
  "pieceOut env k [] = ([], [])"
| "pieceOut env k (Lit t # ps) = (let (u, vs) = pieceOut env k ps in (t @ u, vs))"
| "pieceOut env k (Arg n # ps) =
     (case resolve env (TrimSpaces n) of
        Found v \<Rightarrow> (let (u, vs) = pieceOut env (Suc k) ps in (e_arg env k @ u, v # vs))
      | _ \<Rightarrow> (let (u, vs) = pieceOut env k ps in (nulltext @ u, vs)))"

fun prepSpec :: "'v sqlenv \<Rightarrow> piece list list \<Rightarrow> (sqltext \<times> 'v sqlval list) list" where
  "prepSpec env [] = []"
| "prepSpec env [ps] = (let (u, vs) = pieceOut env 0 ps in if u = [] then [] else [(u, vs)])"
| "prepSpec env (ps # qs) = (let (u, vs) = pieceOut env 0 ps in (if u = [] then [] else [(u @ [59], vs)]) @ prepSpec env qs)"

fun argMap :: "nat \<Rightarrow> (sqltext \<times> 'v list) list \<Rightarrow> (nat \<rightharpoonup> 'v list) \<Rightarrow> nat \<rightharpoonup> 'v list" where
  "argMap i [] m = m"
| "argMap i ((u, vs) # xs) m = argMap (Suc i) xs (if vs = [] then m else m(i \<mapsto> vs))"

lemma argMap_at:
  "argMap k xs m i = (if k \<le> i \<and> i < k + length xs \<and> snd (xs ! (i - k)) \<noteq> [] then Some (snd (xs ! (i - k))) else m i)"
proof (induction xs arbitrary: k m)
  case (Cons x xs)
  obtain u vs where "x = (u, vs)" by force
  moreover have "k < i \<Longrightarrow> i - k = Suc (i - Suc k)" by simp
  ultimately show ?case using Cons.IH [of "Suc k"] by (cases "i = k") (auto simp: Suc_le_eq)
qed auto

text \<open>The state between two pieces: text and arguments of the current statement, the finished statements.\<close>

definition filled :: "sqltext \<Rightarrow> 'v sqlval list \<Rightarrow> sqltext list \<Rightarrow> (nat \<rightharpoonup> 'v sqlval list) \<Rightarrow> 'v sqlacc \<Rightarrow> bool" where
  "filled u vs qs am s \<longleftrightarrow> qrybf s = u \<and> prmnme s = [] \<and> prmargsfnd s = [0..<length vs] \<and>
     map (\<lambda>i. the (prmargvalsfnd s i)) [0..<length vs] = vs \<and> prpdqry s = qs \<and> prpdargs s = am \<and> qerr s = None"

lemma run_name: "64 \<notin> set n \<Longrightarrow> 59 \<notin> set n \<Longrightarrow> foldl (sqlStep env) (True, s) n = (True, s\<lparr>prmnme := prmnme s @ n\<rparr>)"
  by (induction n arbitrary: s) (auto simp: sqlStep_def)

lemma run_arg:
  assumes "piece_ok (Arg n)" "prmnme s = []"
  shows "foldl (sqlStep env) (False, s) (64 # n @ 64 # rs) = foldl (sqlStep env) (False, matchedArg env (s\<lparr>prmnme := n\<rparr>)) rs"
  using assms run_name [of n env s] by (simp add: sqlStep_def)

lemma map_if_below: "map (\<lambda>i. the (if i = n then x else f i)) [0..<n] = map (\<lambda>i. the (f i)) [0..<n]"
  by (rule map_cong) auto

lemma matchedArg_filled:
  assumes "filled u vs qs am s" "TrimSpaces n \<noteq> []" "\<forall>e. resolve env (TrimSpaces n) \<noteq> Failure e"
  shows "case resolve env (TrimSpaces n) of
      Found v \<Rightarrow> filled (u @ e_arg env (length vs)) (vs @ [v]) qs am (matchedArg env (s\<lparr>prmnme := n\<rparr>))
    | _ \<Rightarrow> filled (u @ nulltext) vs qs am (matchedArg env (s\<lparr>prmnme := n\<rparr>))"
proof -
  have "n \<noteq> []" using assms(2) by (auto simp: TrimSpaces_def)
  then show ?thesis
    using assms by (auto simp: filled_def matchedArg_def Let_def map_if_below split: lookup.splits)
qed

lemma pieceOut_text:
  assumes "\<forall>k. e_arg env k \<noteq> [] \<and> 59 \<notin> set (e_arg env k)" "\<forall>p \<in> set ps. piece_ok p"
  shows "59 \<notin> set (fst (pieceOut env k ps)) \<and> (fst (pieceOut env k ps) = [] \<longrightarrow> snd (pieceOut env k ps) = [])"
  using assms(2)
proof (induction ps arbitrary: k)
  case (Cons p ps)
  show ?case
  proof (cases p)
    case (Lit t)
    then show ?thesis using Cons.IH [of k] Cons.prems by (auto split: prod.splits)
  next
    case (Arg n)
    then show ?thesis
      using Cons.IH [of k] Cons.IH [of "Suc k"] Cons.prems assms(1)
      by (cases "resolve env (TrimSpaces n)") (auto simp: nulltext_def split: prod.splits)
  qed
qed simp

lemma run_pieces:
  assumes "filled u vs qs am s" "\<forall>p \<in> set ps. piece_ok p" "\<forall>n e. resolve env n \<noteq> Failure e"
  shows "\<exists>s'. foldl (sqlStep env) (False, s) (render ps @ rs) = foldl (sqlStep env) (False, s') rs \<and>
    filled (u @ fst (pieceOut env (length vs) ps)) (vs @ snd (pieceOut env (length vs) ps)) qs am s'"
  using assms(1,2)
proof (induction ps arbitrary: u vs s)
  case Nil
  then show ?case by auto
next
  case (Cons p ps)
  show ?case
  proof (cases p)
    case (Lit t)
    then have "foldl (sqlStep env) (False, s) (render (p # ps) @ rs) =
        foldl (sqlStep env) (False, s\<lparr>qrybf := qrybf s @ t\<rparr>) (render ps @ rs)"
      using Cons.prems sqlStep_plain [of t env s] by simp
    moreover have "filled (u @ t) vs qs am (s\<lparr>qrybf := qrybf s @ t\<rparr>)" using Cons.prems by (simp add: filled_def)
    ultimately show ?thesis using Cons.IH [of "u @ t" vs] Cons.prems Lit by (auto split: prod.splits)
  next
    case (Arg n)
    let ?s = "matchedArg env (s\<lparr>prmnme := n\<rparr>)"
    have n: "piece_ok (Arg n)" "prmnme s = []" using Cons.prems Arg by (simp_all add: filled_def)
    have run: "foldl (sqlStep env) (False, s) (render (p # ps) @ rs) = foldl (sqlStep env) (False, ?s) (render ps @ rs)"
      using run_arg [OF n] Arg by simp
    have m: "case resolve env (TrimSpaces n) of
        Found v \<Rightarrow> filled (u @ e_arg env (length vs)) (vs @ [v]) qs am ?s | _ \<Rightarrow> filled (u @ nulltext) vs qs am ?s"
      using matchedArg_filled [OF Cons.prems(1)] n(1) assms(3) by simp
    show ?thesis
    proof (cases "resolve env (TrimSpaces n)")
      case (Found v)
      then show ?thesis using Cons.IH [of "u @ e_arg env (length vs)" "vs @ [v]" ?s] m Cons.prems(2) Arg run by (auto split: prod.splits)
    next
      case Missing
      then show ?thesis using Cons.IH [of "u @ nulltext" vs ?s] m Cons.prems(2) Arg run by (auto split: prod.splits)
    qed (use assms(3) in blast)
  qed
qed

lemma takeArgs_filled:
  "filled u vs qs am s \<Longrightarrow> takeArgs i s = s\<lparr>prmargsfnd := [], prpdargs := (if vs = [] then am else am(i \<mapsto> vs))\<rparr>"
  by (cases s) (auto simp: filled_def takeArgs_def)

lemma endStatement_filled:
  assumes "filled u vs qs am s" "u = [] \<longrightarrow> vs = []"
  shows "filled [] [] (if u = [] then qs else qs @ [u @ [59]]) (if vs = [] then am else am(length qs \<mapsto> vs)) (endStatement s)"
proof -
  let ?t = "s\<lparr>qrybf := [], prpdqry := qs @ [u @ [59]]\<rparr>"
  have "filled [] vs (qs @ [u @ [59]]) am ?t" using assms by (simp add: filled_def)
  from takeArgs_filled [OF this, of "length qs"] show ?thesis
    using assms by (auto simp: filled_def endStatement_def Let_def)
qed

text \<open>A whole document, up to the end.\<close>

definition finished :: "sqltext list \<Rightarrow> (nat \<rightharpoonup> 'v sqlval list) \<Rightarrow> 'v sqlacc \<Rightarrow> bool" where
  "finished qs am s \<longleftrightarrow> prpdqry s = qs \<and> prpdargs s = am \<and> qerr s = None"

lemma sqlFinish_filled:
  assumes "filled u vs qs am s" "u = [] \<longrightarrow> vs = []" "u \<noteq> [59]"
  shows "finished (if u = [] then qs else qs @ [u]) (if vs = [] then am else am(length qs \<mapsto> vs)) (sqlFinish (False, s))"
  using assms takeArgs_filled [OF assms(1), of "length qs"] by (auto simp: filled_def finished_def sqlFinish_def)

lemma run_document:
  assumes e: "\<forall>k. e_arg env k \<noteq> [] \<and> 59 \<notin> set (e_arg env k)" "\<forall>n e. resolve env n \<noteq> Failure e"
    and "filled [] [] qs am s" "\<forall>ps \<in> set doc. \<forall>p \<in> set ps. piece_ok p" "doc \<noteq> []"
  shows "finished (qs @ map fst (prepSpec env doc)) (argMap (length qs) (prepSpec env doc) am) (sqlFinish (foldl (sqlStep env) (False, s) (renderDoc doc)))"
  using assms(3-5)
proof (induction doc arbitrary: qs am s rule: renderDoc.induct)
  case (2 ps)
  obtain u vs where o: "pieceOut env 0 ps = (u, vs)" by force
  then obtain s' where s': "foldl (sqlStep env) (False, s) (render ps) = (False, s')" "filled u vs qs am s'"
    using run_pieces [OF 2(1) _ e(2), of ps "[]"] 2(2) by auto
  have "u = [] \<longrightarrow> vs = []" "u \<noteq> [59]" using pieceOut_text [OF e(1), of ps 0] 2(2) o by auto
  then show ?case using sqlFinish_filled [OF s'(2)] s'(1) o by auto
next
  case (3 ps p qs')
  obtain u vs where o: "pieceOut env 0 ps = (u, vs)" by force
  then obtain s' where s': "foldl (sqlStep env) (False, s) (render ps @ 59 # renderDoc (p # qs')) =
      foldl (sqlStep env) (False, s') (59 # renderDoc (p # qs'))" "filled u vs qs am s'"
    using run_pieces [OF 3(2) _ e(2), of ps "59 # renderDoc (p # qs')"] 3(3) by auto
  have u: "u = [] \<longrightarrow> vs = []" using pieceOut_text [OF e(1), of ps 0] 3(3) o by auto
  have "sqlStep env (False, s') 59 = (False, endStatement s')" by (simp add: sqlStep_def)
  then have fin: "foldl (sqlStep env) (False, s) (renderDoc (ps # p # qs')) = foldl (sqlStep env) (False, endStatement s') (renderDoc (p # qs'))"
    using s'(1) by simp
  show ?case unfolding fin using 3(1) [OF endStatement_filled [OF s'(2) u]] 3(3) o u by (auto simp del: renderDoc.simps)
qed simp

text \<open>
  Claim C6: the preparation of a query.  A text made of statements, each of literal text and arguments between two
  \<open>@\<close>, is prepared into one query per statement with a text: the literal text as it is, the \<open>k\<close>-th argument that is
  found as the \<open>k\<close>-th placeholder of the driver, an argument that is not found as \<open>null\<close>, and a semicolon behind
  every statement but the last.  The arguments of a query are the values of its names, one per placeholder and in
  their order; the placeholders of every statement start again from zero.
\<close>

theorem prepared_document:
  assumes "\<forall>ps \<in> set doc. \<forall>p \<in> set ps. piece_ok p" "doc \<noteq> []"
    and "\<forall>k. e_arg env k \<noteq> [] \<and> 59 \<notin> set (e_arg env k)" "\<forall>n e. resolve env n \<noteq> Failure e"
  shows "\<exists>s. prepText env (renderDoc doc) = Some s \<and> qerr s = None \<and> prpdqry s = map fst (prepSpec env doc) \<and>
    (\<forall>i. prpdargs s i = (if i < length (prepSpec env doc) \<and> snd (prepSpec env doc ! i) \<noteq> []
                         then Some (snd (prepSpec env doc ! i)) else None))"
proof -
  have "filled [] [] [] Map.empty newAcc" by (simp add: filled_def newAcc_def)
  from run_document [OF assms(3,4) this assms(1,2)] show ?thesis
    by (auto simp: prepText_automaton finished_def argMap_at)
qed

text \<open>The drivers' placeholders: a question mark, or a number behind a sign.\<close>

fun decimal :: "nat \<Rightarrow> sqltext" where
  "decimal n = (if n < 10 then [48 + int n] else decimal (n div 10) @ [48 + int (n mod 10)])"

definition markParam :: "nat \<Rightarrow> sqltext" where
  "markParam k = [63]"

definition dollarParam :: "nat \<Rightarrow> sqltext" where
  "dollarParam k = 36 # decimal (k + 1)"

definition colonParam :: "nat \<Rightarrow> sqltext" where
  "colonParam k = 58 # decimal (k + 1)"

lemma decimal_digits: "set (decimal n) \<subseteq> {48..57}"
  by (induction n rule: decimal.induct) (subst decimal.simps, auto)

lemma decimal_no_semi: "59 \<notin> set (decimal n)"
  using decimal_digits [of n] by (auto simp del: decimal.simps)

lemma params_ok_text:
  "\<forall>k. markParam k \<noteq> [] \<and> 59 \<notin> set (markParam k)" "\<forall>k. dollarParam k \<noteq> [] \<and> 59 \<notin> set (dollarParam k)"
  "\<forall>k. colonParam k \<noteq> [] \<and> 59 \<notin> set (colonParam k)"
  using decimal_no_semi by (auto simp: markParam_def dollarParam_def colonParam_def simp del: decimal.simps)

text \<open>Witnesses: a query over two statements, and the same query with other values.\<close>

definition sampleEnv :: "sqltext \<Rightarrow> nat sqlenv" where
  "sampleEnv v = \<lparr>eqfold = (=), upper = id, e_params = Some \<lparr>p_keys = [[97], [98]], p_get = (\<lambda>n. if n = [97] then [v] else [])\<rparr>,
     e_rows = None, e_dflt = [[98] \<mapsto> Txt [120], [99] \<mapsto> Val 3], e_arg = markParam\<rparr>"

lemma sampleEnv_total: "resolve (sampleEnv v) n \<noteq> Failure e"
  by (auto simp: resolve_def findRow_def sampleEnv_def split: option.splits)

theorem prepared_text_ignores_values_witness:
  "same_names (sampleEnv [49]) (sampleEnv [39, 59, 45]) \<and>
   map_option prpdqry (prepText (sampleEnv [49]) [64, 97, 64]) = map_option prpdqry (prepText (sampleEnv [39, 59, 45]) [64, 97, 64])"
proof -
  have "same_names (sampleEnv [49]) (sampleEnv [39, 59, 45])" by (simp add: same_names_def sampleEnv_def)
  then show ?thesis using prepared_text_ignores_values [of "sampleEnv [49]" "sampleEnv [39, 59, 45]" "[64, 97, 64]"] by auto
qed

theorem prepared_document_witness:
  "\<exists>s. prepText (sampleEnv [49]) [65, 64, 97, 64, 59, 66, 64, 98, 64, 64, 100, 64, 64, 99, 64] = Some s \<and> qerr s = None \<and>
     prpdqry s = [[65, 63, 59], [66, 63, 110, 117, 108, 108, 63]] \<and> prpdargs s 0 = Some [Txt [49]] \<and> prpdargs s 1 = Some [Txt [120], Val 3]"
proof -
  let ?doc = "[[Lit [65], Arg [97]], [Lit [66], Arg [98], Arg [100], Arg [99]]]"
  have ok: "\<forall>ps \<in> set ?doc. \<forall>p \<in> set ps. piece_ok p" by (simp add: TrimSpaces_def IsSpace_def unicode_IsSpace_def)
  have sp: "prepSpec (sampleEnv [49]) ?doc = [([65, 63, 59], [Txt [49]]), ([66, 63, 110, 117, 108, 108, 63], [Txt [120], Val 3])]"
    by (simp add: resolve_def findRow_def paramValue_def sampleEnv_def TrimSpaces_def IsSpace_def unicode_IsSpace_def markParam_def nulltext_def)
  have a: "\<forall>k. e_arg (sampleEnv [49]) k \<noteq> [] \<and> 59 \<notin> set (e_arg (sampleEnv [49]) k)" using params_ok_text(1) by (simp add: sampleEnv_def)
  show ?thesis using prepared_document [OF ok _ a] sampleEnv_total unfolding sp by auto
qed

section \<open>Statements\<close>

text \<open>
  The fields of \<open>statement\<close>.  \<open>st_db\<close> and \<open>st_dbcn\<close> say whether there is a database and a connection.  The file system maps a
  path to the contents of the file, a file reader maps a path to what it writes, and readers and records are
  numbers.
\<close>

record 'v statement =
  st_db :: bool
  st_dbcn :: bool
  st_rows :: "((sqltext list \<times> go_err option) \<times> 'v sqlval list) option"
  driver :: sqltext
  initquery :: sqltext
  query :: "sqltext list"
  queryargs :: "nat \<rightharpoonup> 'v sqlval list"
  fsys :: "(sqltext \<rightharpoonup> sqltext) option"
  fireader :: "(sqltext \<Rightarrow> sqltext) option"
  params :: "sqlparams option"
  st_rdr :: "nat option"
  rcrd :: "nat option"
  st_args :: "(sqltext \<rightharpoonup> 'v sqlval) option"
  prssqlarg :: "(nat \<Rightarrow> sqltext) option"

definition closeStatement :: "'v statement \<Rightarrow> 'v statement" where
  "closeStatement s =
     s\<lparr>query := [], st_db := False, st_dbcn := False, st_rows := None, prssqlarg := None, st_args := None, fireader := None, fsys := None,
       params := None, st_rdr := None, rcrd := None, queryargs := Map.empty\<rparr>"

text \<open>The extra arguments of a query, by their dynamic type; a map is given in the order of its iteration.\<close>

datatype 'v sqlarg =
    AParams "sqlparams option" | AReader "nat option" | ARecord "nat option" | AFileReader "(sqltext \<Rightarrow> sqltext) option"
  | AStrings "(sqltext \<times> sqltext) list" | AValues "(sqltext \<times> 'v sqlval) list" | AOther "'v sqlval"

definition takeDefaults :: "(sqltext \<Rightarrow> sqltext) \<Rightarrow> (sqltext \<times> 'v sqlval) list \<Rightarrow> 'v statement \<times> (sqltext \<rightharpoonup> 'v sqlval) \<Rightarrow>
    'v statement \<times> (sqltext \<rightharpoonup> 'v sqlval)" where
  "takeDefaults up m sd =
     (case sd of (s, d) \<Rightarrow>
        if st_args s = None \<and> 0 < length m
        then (s\<lparr>st_args := Some (foldl (\<lambda>am (k, v). am(k \<mapsto> v)) Map.empty m)\<rparr>, foldl (\<lambda>dm (k, v). dm(up k \<mapsto> v)) d m)
        else (s, d))"

fun takeArg :: "(sqltext \<Rightarrow> sqltext) \<Rightarrow> 'v statement \<times> (sqltext \<rightharpoonup> 'v sqlval) \<Rightarrow> 'v sqlarg \<Rightarrow> 'v statement \<times> (sqltext \<rightharpoonup> 'v sqlval)" where
  "takeArg up (s, d) (AParams p) = (if params s = None \<and> p \<noteq> None then s\<lparr>params := p\<rparr> else s, d)"
| "takeArg up (s, d) (AReader r) = (if st_rdr s = None \<and> r \<noteq> None then s\<lparr>st_rdr := r\<rparr> else s, d)"
| "takeArg up (s, d) (ARecord r) = (if rcrd s = None \<and> r \<noteq> None then s\<lparr>rcrd := r\<rparr> else s, d)"
| "takeArg up (s, d) (AFileReader f) = (if fireader s = None \<and> f \<noteq> None then s\<lparr>fireader := f\<rparr> else s, d)"
| "takeArg up (s, d) (AStrings m) = takeDefaults up (map (\<lambda>(k, v). (k, Txt v)) m) (s, d)"
| "takeArg up (s, d) (AValues m) = takeDefaults up m (s, d)"
| "takeArg up (s, d) (AOther v) = (s, d)"

text \<open>
  The text of the query: a file of the name of the query, or of its name and the driver's, or the query itself.
  Without a file system there is no text at all.
\<close>

definition dotSql :: sqltext where
  "dotSql = [46, 115, 113, 108]"

definition stripSql :: "sqltext \<Rightarrow> sqltext" where
  "stripSql q = (if 4 < length q \<and> drop (length q - 4) q = dotSql then take (length q - 4) q else q)"

definition queryText :: "'v statement \<Rightarrow> sqltext" where
  "queryText s =
     (case fsys s of
        None \<Rightarrow> []
      | Some stat \<Rightarrow>
          (let tstquery = stripSql (initquery s); p1 = tstquery @ dotSql; p2 = tstquery @ [46] @ driver s @ dotSql;
               found = (if stat p1 \<noteq> None then Some p1 else if stat p2 \<noteq> None then Some p2 else None) in
           case found of
             Some fi \<Rightarrow> (case fireader s of Some f \<Rightarrow> f fi | None \<Rightarrow> the (stat fi))
           | None \<Rightarrow> initquery s))"

definition prepairSqlStatement :: "(sqltext \<Rightarrow> sqltext \<Rightarrow> bool) \<Rightarrow> (sqltext \<Rightarrow> sqltext) \<Rightarrow> 'v statement \<Rightarrow> 'v sqlarg list \<Rightarrow>
    ((sqltext list \<times> (nat \<rightharpoonup> 'v sqlval list) \<times> go_err option) \<times> 'v statement) option" where
  "prepairSqlStatement eqf up s a =
     (case prssqlarg s of
        None \<Rightarrow> Some (([], Map.empty, None), s)
      | Some arg \<Rightarrow>
          (let (s1, dfltargs) = foldl (takeArg up) (s, Map.empty) a;
               env = \<lparr>eqfold = eqf, upper = up, e_params = params s1, e_rows = st_rows s1, e_dflt = dfltargs, e_arg = arg\<rparr> in
           do { acc \<leftarrow> prepText env (queryText s1);
                Some ((prpdqry acc, prpdargs acc, qerr acc), s1\<lparr>fsys := None\<rparr>) }))"

text \<open>A driver, as a statement uses it.\<close>

record sqldriver =
  d_name :: sqltext
  d_fsys :: "(sqltext \<rightharpoonup> sqltext) option"
  d_arg :: "nat \<Rightarrow> sqltext"

definition newStatement :: "bool \<Rightarrow> sqldriver \<Rightarrow> sqltext \<Rightarrow> (sqltext \<rightharpoonup> sqltext) option \<Rightarrow> 'v statement" where
  "newStatement viadb d q fs =
     \<lparr>st_db = viadb, st_dbcn = \<not> viadb, st_rows = None, driver = d_name d, initquery = q, query = [], queryargs = Map.empty, fsys = fs,
      fireader = None, params = None, st_rdr = None, rcrd = None, st_args = None, prssqlarg = Some (d_arg d)\<rparr>"

definition csvName :: sqltext where "csvName = [99, 115, 118]"
definition dlvName :: sqltext where "dlvName = [100, 108, 118]"

text \<open>
  \<open>nextstatement\<close>: the connection of the database may fail (\<open>conn\<close>).  For the file drivers the query is taken as it is, and
  the arguments go with it together with the file system, which \<open>asval\<close> turns into a value.
\<close>

definition nextstatement :: "(sqltext \<Rightarrow> sqltext \<Rightarrow> bool) \<Rightarrow> (sqltext \<Rightarrow> sqltext) \<Rightarrow> go_err option \<Rightarrow>
    ('v sqlarg + (sqltext \<rightharpoonup> sqltext) \<Rightarrow> 'v sqlval) \<Rightarrow> sqldriver option \<Rightarrow> sqltext \<Rightarrow> (sqltext \<rightharpoonup> sqltext) option \<Rightarrow> 'v sqlarg list \<Rightarrow>
    ('v statement option \<times> go_err option) option" where
  "nextstatement eqf up conn asval dv q fs a =
     (let fs1 = (if fs = None then Option.bind dv d_fsys else fs) in
      case dv of
        None \<Rightarrow> Some (None, None)
      | Some d \<Rightarrow>
          (if d_name d \<noteq> csvName \<and> d_name d \<noteq> dlvName then
             (if conn \<noteq> None then Some (None, conn)
              else
                do { ((qs, qa, err), s) \<leftarrow> prepairSqlStatement eqf up (newStatement False d q fs1) a;
                     Some (if err \<noteq> None then (None, err) else (Some (s\<lparr>query := qs, queryargs := qa\<rparr>), None)) })
           else
             (case d_fsys d of
                Some dfs \<Rightarrow>
                  Some (Some ((newStatement True d q fs1)\<lparr>query := [q], queryargs := [0 \<mapsto> map (\<lambda>x. asval (Inl x)) a @ [asval (Inr dfs)]]\<rparr>), None)
              | None \<Rightarrow> Some (None, None))))"

text \<open>
  \<open>QueryContext\<close>.  The calls it makes of the database are recorded, and \<open>run\<close> says which of them fail; the flag is that a
  reader is returned.  The rows of a statement that has been queried are only asked whether they exist.
\<close>

datatype 'v dbcall = DbExec sqltext "'v sqlval list" | DbQuery sqltext "'v sqlval list"

definition argsAt :: "(nat \<rightharpoonup> 'v sqlval list) \<Rightarrow> nat \<Rightarrow> 'v sqlval list" where
  "argsAt qa i = (case qa i of Some vs \<Rightarrow> vs | None \<Rightarrow> [])"

definition QueryContext :: "('v dbcall \<Rightarrow> go_err option) \<Rightarrow> 'v statement \<Rightarrow> ((bool \<times> go_err option) \<times> 'v dbcall list \<times> 'v statement) option" where
  "QueryContext run s =
     (if (st_db s \<or> st_dbcn s) \<and> st_rows s = None then
        (let s1 = (if length (query s) = 0 \<and> initquery s \<noteq> [] then s\<lparr>query := [initquery s]\<rparr> else s);
             qryl = length (query s1) in
         if qryl = 1 then
           (let c = DbQuery (query s1 ! 0) (argsAt (queryargs s1) 0); err = run c in
            Some ((err = None, err), [c], if err = None then s1\<lparr>st_rows := Some (([], None), [])\<rparr> else s1))
         else if st_dbcn s1 then
           do {
             fstqs \<leftarrow> go_slice (query s1) 0 (int qryl - 1);
             (let c1 = DbExec (concat fstqs) (concat (map (argsAt (queryargs s1)) [0..<qryl - 1]));
                  c2 = DbQuery (query s1 ! (qryl - 1)) (argsAt (queryargs s1) (qryl - 1)) in
              if run c1 \<noteq> None then Some ((False, run c1), [c1], s1)
              else if run c2 \<noteq> None then Some ((False, run c2), [c1, c2], s1)
              else Some ((True, None), [c1, c2], s1\<lparr>st_rows := Some (([], None), [])\<rparr>))
           }
         else Some ((False, None), [], s1))
      else Some ((False, None), [], s))"

text \<open>\<open>ExecuteContext\<close> executes a single query, with the caller's own arguments.\<close>

definition ExecuteContext :: "('v dbcall \<Rightarrow> go_err option) \<Rightarrow> 'v statement \<Rightarrow> 'v sqlval list \<Rightarrow> (bool \<times> go_err option) \<times> 'v dbcall list" where
  "ExecuteContext run s a =
     (if st_dbcn s \<and> length (query s) = 1 then (let c = DbExec (query s ! 0) a in ((run c = None, run c), [c])) else ((False, None), []))"

text \<open>The extra arguments leave the query and the connection alone.\<close>

definition same_query :: "'v statement \<Rightarrow> 'v statement \<Rightarrow> bool" where
  "same_query s t \<longleftrightarrow> st_db s = st_db t \<and> st_dbcn s = st_dbcn t \<and> st_rows s = st_rows t \<and> driver s = driver t \<and> initquery s = initquery t \<and>
     query s = query t \<and> queryargs s = queryargs t \<and> fsys s = fsys t \<and> prssqlarg s = prssqlarg t"

lemma takeArg_same_query: "same_query (fst (takeArg up sd x)) (fst sd)"
  by (cases sd; cases x) (auto simp: same_query_def takeDefaults_def)

lemma takeArgs_same_query: "same_query (fst (foldl (takeArg up) sd a)) (fst sd)"
proof (induction a arbitrary: sd)
  case (Cons x a)
  then show ?case using takeArg_same_query [of up sd x] by (fastforce simp: same_query_def)
qed (simp add: same_query_def)

text \<open>The environment the extra arguments give.\<close>

definition argEnv :: "(sqltext \<Rightarrow> sqltext \<Rightarrow> bool) \<Rightarrow> (sqltext \<Rightarrow> sqltext) \<Rightarrow> (nat \<Rightarrow> sqltext) \<Rightarrow> 'v statement \<Rightarrow> 'v sqlarg list \<Rightarrow> 'v sqlenv" where
  "argEnv eqf up arg s a =
     \<lparr>eqfold = eqf, upper = up, e_params = params (fst (foldl (takeArg up) (s, Map.empty) a)), e_rows = st_rows s,
      e_dflt = snd (foldl (takeArg up) (s, Map.empty) a), e_arg = arg\<rparr>"

lemma argEnv_total: "st_rows s = None \<Longrightarrow> resolve (argEnv eqf up arg s a) n \<noteq> Failure e"
  by (auto simp: resolve_def findRow_def argEnv_def split: option.splits)

lemma prepair_env:
  assumes "prssqlarg s = Some arg"
  shows "prepairSqlStatement eqf up s a =
    do { acc \<leftarrow> prepText (argEnv eqf up arg s a) (queryText (fst (foldl (takeArg up) (s, Map.empty) a)));
         Some ((prpdqry acc, prpdargs acc, qerr acc), (fst (foldl (takeArg up) (s, Map.empty) a))\<lparr>fsys := None\<rparr>) }"
  using assms takeArgs_same_query [of up "(s, Map.empty)" a]
  by (cases "foldl (takeArg up) (s, Map.empty) a") (simp add: prepairSqlStatement_def argEnv_def same_query_def)

lemma nextstatement_document:
  assumes "\<forall>ps \<in> set doc. \<forall>p \<in> set ps. piece_ok p" "doc \<noteq> []" "\<forall>k. d_arg d k \<noteq> [] \<and> 59 \<notin> set (d_arg d k)"
    "d_name d \<noteq> csvName" "d_name d \<noteq> dlvName" "s0 = newStatement False d q (if fs = None then d_fsys d else fs)"
    "queryText (fst (foldl (takeArg up) (s0, Map.empty) a)) = renderDoc doc"
  shows "\<exists>s. nextstatement eqf up None asval (Some d) q fs a = Some (Some s, None) \<and> st_dbcn s \<and> \<not> st_db s \<and> st_rows s = None \<and>
    query s = map fst (prepSpec (argEnv eqf up (d_arg d) s0 a) doc) \<and>
    (\<forall>i < length (query s). argsAt (queryargs s) i = snd (prepSpec (argEnv eqf up (d_arg d) s0 a) doc ! i))"
proof -
  let ?env = "argEnv eqf up (d_arg d) s0 a"
  have s0: "prssqlarg s0 = Some (d_arg d)" "st_rows s0 = None" "st_dbcn s0" "\<not> st_db s0" by (simp_all add: assms(6) newStatement_def)
  have ea: "\<forall>k. e_arg ?env k \<noteq> [] \<and> 59 \<notin> set (e_arg ?env k)" using assms(3) by (simp add: argEnv_def)
  obtain acc where acc: "prepText ?env (renderDoc doc) = Some acc" "qerr acc = None" "prpdqry acc = map fst (prepSpec ?env doc)"
      "\<forall>i. prpdargs acc i = (if i < length (prepSpec ?env doc) \<and> snd (prepSpec ?env doc ! i) \<noteq> [] then Some (snd (prepSpec ?env doc ! i)) else None)"
    using run_document [OF ea _ _ assms(1,2), of "[]" Map.empty newAcc] argEnv_total [OF s0(2)]
    by (auto simp: prepText_automaton finished_def argMap_at filled_def newAcc_def)
  have "nextstatement eqf up None asval (Some d) q fs a =
      Some (Some ((fst (foldl (takeArg up) (s0, Map.empty) a))\<lparr>fsys := None, query := prpdqry acc, queryargs := prpdargs acc\<rparr>), None)"
    using assms(4-7) acc(1,2) prepair_env [OF s0(1), of eqf up a] by (cases fs) (auto simp: nextstatement_def)
  then show ?thesis
    using takeArgs_same_query [of up "(s0, Map.empty)" a] s0 acc(3,4) by (auto simp: same_query_def argsAt_def)
qed

text \<open>
  Claim C3: what a query sends to the database.  For a driver that takes placeholders, a query whose text is a document
  of statements becomes a statement, and querying it sends one query if one statement has a text; otherwise it
  first executes all statements but the last in one call, with all their arguments in order, and then sends
  the last one with its own arguments.  No call depends on anything but the document, the names and their values.
\<close>

theorem query_sends:
  assumes "\<forall>ps \<in> set doc. \<forall>p \<in> set ps. piece_ok p" "doc \<noteq> []" "\<forall>k. d_arg d k \<noteq> [] \<and> 59 \<notin> set (d_arg d k)"
    "d_name d \<noteq> csvName" "d_name d \<noteq> dlvName" "s0 = newStatement False d q (if fs = None then d_fsys d else fs)"
    "queryText (fst (foldl (takeArg up) (s0, Map.empty) a)) = renderDoc doc"
    "spec = prepSpec (argEnv eqf up (d_arg d) s0 a) doc" "spec \<noteq> []"
  shows "\<exists>s s'. nextstatement eqf up None asval (Some d) q fs a = Some (Some s, None) \<and>
    QueryContext (\<lambda>c. None) s = Some ((True, None),
      (if length spec = 1 then [] else [DbExec (concat (map fst (butlast spec))) (concat (map snd (butlast spec)))]) @
      [DbQuery (fst (last spec)) (snd (last spec))], s')"
proof -
  obtain s where s: "nextstatement eqf up None asval (Some d) q fs a = Some (Some s, None)" "st_dbcn s" "\<not> st_db s" "st_rows s = None"
      "query s = map fst spec" "\<forall>i < length spec. argsAt (queryargs s) i = snd (spec ! i)"
    using nextstatement_document [OF assms(1-7)] unfolding assms(8) by fastforce
  have l: "query s ! (length spec - 1) = fst (last spec)" "argsAt (queryargs s) (length spec - 1) = snd (last spec)"
    using s(5,6) assms(9) by (simp_all add: last_conv_nth)
  have b: "map (argsAt (queryargs s)) [0..<length spec - 1] = map snd (butlast spec)"
    using s(6) by (intro nth_equalityI) (simp_all add: nth_butlast)
  have "\<exists>s'. QueryContext (\<lambda>c. None) s = Some ((True, None),
      (if length spec = 1 then [] else [DbExec (concat (map fst (butlast spec))) (concat (map snd (butlast spec)))]) @
      [DbQuery (fst (last spec)) (snd (last spec))], s')"
  proof (cases "length spec = 1")
    case True
    then show ?thesis using s l by (simp add: QueryContext_def Let_def)
  next
    case False
    have "go_slice (query s) 0 (int (length spec) - 1) = Some (butlast (query s))"
      using s(5) assms(9) by (simp add: go_slice_def butlast_conv_take Suc_leI nat_diff_distrib)
    then show ?thesis using False s(2-5) l b assms(9) by (simp add: QueryContext_def Let_def map_butlast)
  qed
  then show ?thesis using s(1) by blast
qed

theorem query_sends_witness:
  "\<exists>s s'. nextstatement (=) id None (\<lambda>_. Nul) (Some \<lparr>d_name = [109], d_fsys = None, d_arg = markParam\<rparr>) [65, 64, 97, 64, 59, 66] (Some Map.empty)
      [AStrings [([97], [49])]] = Some (Some s, None) \<and>
    QueryContext (\<lambda>c. None) s = Some ((True, None), [DbExec [65, 63, 59] [Txt [49]], DbQuery [66] ([] :: nat sqlval list)], s')"
proof -
  let ?d = "\<lparr>d_name = [109], d_fsys = None, d_arg = markParam\<rparr>" and ?doc = "[[Lit [65], Arg [97]], [Lit [66]]]"
  let ?fs = "Some Map.empty :: (sqltext \<rightharpoonup> sqltext) option"
  let ?s = "newStatement False ?d [65, 64, 97, 64, 59, 66] (if ?fs = None then d_fsys ?d else ?fs) :: nat statement"
  let ?a = "[AStrings [([97], [49])]]"
  have ok: "\<forall>ps \<in> set ?doc. \<forall>p \<in> set ps. piece_ok p" by (simp add: TrimSpaces_def IsSpace_def unicode_IsSpace_def)
  have t: "queryText (fst (foldl (takeArg id) (?s, Map.empty) ?a)) = renderDoc ?doc"
    by (simp add: newStatement_def takeDefaults_def queryText_def stripSql_def dotSql_def)
  have sp: "prepSpec (argEnv (=) id (d_arg ?d) ?s ?a) ?doc = [([65, 63, 59], [Txt [49]]), ([66], [])]"
    by (simp add: argEnv_def newStatement_def takeDefaults_def resolve_def findRow_def TrimSpaces_def IsSpace_def unicode_IsSpace_def markParam_def)
  show ?thesis
    using query_sends [OF ok _ _ _ _ refl t refl, where eqf = "(=)" and asval = "\<lambda>_. Nul"] params_ok_text(1) unfolding sp
    by (simp add: csvName_def dlvName_def)
qed

text \<open>
  Defect: the statements before the last are executed in one call while the placeholders of each start from zero, so with
  numbered placeholders the second of them refers to the argument of the first.
\<close>

lemma numbered_placeholders_collide:
  assumes "resolve env [97] = Found v" "resolve env [98] = Found w" "e_arg env = dollarParam"
  shows "prepSpec env [[Arg [97]], [Arg [98]], [Lit [67]]] = [([36, 49, 59], [v]), ([36, 49, 59], [w]), ([67], [])]"
  using assms by (simp add: TrimSpaces_def IsSpace_def unicode_IsSpace_def dollarParam_def)

text \<open>Defect: an empty query on a connection slices an empty list below zero.\<close>

lemma empty_query_panics: "st_dbcn s \<Longrightarrow> st_rows s = None \<Longrightarrow> query s = [] \<Longrightarrow> initquery s = [] \<Longrightarrow> QueryContext run s = None"
  by (simp add: QueryContext_def go_slice_def)

text \<open>Defect: without a file system nothing is prepared, and the query goes to the database as it was written.\<close>

lemma no_fsys_sends_raw_query:
  assumes "fsys s = None" "prssqlarg s = Some arg"
  shows "\<exists>s'. prepairSqlStatement eqf up s a = Some (([], Map.empty, None), s')"
proof -
  have "fsys (fst (foldl (takeArg up) (s, Map.empty) a)) = None"
    using takeArgs_same_query [of up "(s, Map.empty)" a] assms(1) by (simp add: same_query_def)
  then show ?thesis
    using prepair_env [OF assms(2), of eqf up a] by (simp add: queryText_def prepText_def newAcc_def)
qed

text \<open>Defect: an open \<open>@\<close>, such as the one in an address inside a string literal, is an error.\<close>

lemma open_argument_fails:
  assumes "64 \<notin> set u" "59 \<notin> set u" "64 \<notin> set n" "59 \<notin> set n"
  shows "\<exists>s. prepText env (u @ 64 # n) = Some s \<and> qerr s = Some prepError"
proof -
  have "foldl (sqlStep env) (False, newAcc) (u @ 64 # n) = (True, newAcc\<lparr>qrybf := u, prmnme := n\<rparr>)"
    using assms sqlStep_plain [of u env newAcc] run_name [of n env "newAcc\<lparr>qrybf := u\<rparr>"] by (simp add: sqlStep_def newAcc_def)
  then show ?thesis by (simp add: prepText_automaton sqlFinish_def)
qed

end
