(* ===== verification/Connections.thy ===== *)
theory Connections
  imports SqlStatement IterMap "HOL-Library.Multiset"
begin

text \<open>
  Named database connections (\<open>src/dbms/connection.go\<close>, \<open>connections.go\<close>, \<open>driver.go\<close>, \<open>drivers.go\<close>).  A connection opens its
  database when it is first used and closes it when it is reloaded, removed or has failed; the connections are
  kept in the observable map of \<open>IterMap\<close>, whose events close the ones that leave it.  Databases are numbered
  in the order in which they are opened; \<open>dbclosed\<close> records the closed ones.
\<close>

section \<open>Drivers\<close>

text \<open>
  A driver; \<open>dv_id\<close> is its identity.  The function that opens a data source is not part of the sources: it fails
  (\<open>Inl\<close>), or yields a database or nil (\<open>Inr\<close>).
\<close>

record dbdriver = sqldriver +
  dv_id :: nat
  dv_invoke :: "(sqltext \<Rightarrow> go_err + bool) option"
  dv_datasource :: sqltext

definition noDatasource :: go_err where
  "noDatasource = Err ''no datasource for driver''"

definition Invoke :: "dbdriver \<Rightarrow> sqltext \<Rightarrow> go_err + bool" where
  "Invoke d ds =
     (case dv_invoke d of
        None \<Rightarrow> Inr False
      | Some f \<Rightarrow> (let ds1 = (if ds = [] then dv_datasource d else ds) in if ds1 = [] then Inl noDatasource else f ds1))"

section \<open>One connection\<close>

record conn =
  c_db :: "nat option"
  datasource :: sqltext
  dvr :: "dbdriver option"
  c_fsys :: "(sqltext \<rightharpoonup> sqltext) option"

record world =
  opened :: nat
  dbclosed :: "nat list"

definition NewConnection :: "dbdriver \<Rightarrow> sqltext \<Rightarrow> (sqltext \<rightharpoonup> sqltext) option \<Rightarrow> conn" where
  "NewConnection d ds fs = \<lparr>c_db = None, datasource = ds, dvr = Some d, c_fsys = fs\<rparr>"

definition closeDb :: "nat option \<Rightarrow> world \<Rightarrow> world" where
  "closeDb db w = (case db of Some h \<Rightarrow> w\<lparr>dbclosed := dbclosed w @ [h]\<rparr> | None \<Rightarrow> w)"

definition Reload :: "sqltext \<Rightarrow> dbdriver option \<Rightarrow> conn \<Rightarrow> world \<Rightarrow> conn \<times> world" where
  "Reload ds dv cn w =
     (if dv \<noteq> None \<and> map_option dv_id (dvr cn) \<noteq> map_option dv_id dv
      then (cn\<lparr>dvr := dv, datasource := ds, c_db := None\<rparr>, closeDb (c_db cn) w)
      else if datasource cn \<noteq> ds then (cn\<lparr>datasource := ds, c_db := None\<rparr>, closeDb (c_db cn) w)
      else (cn, w))"

definition closeConn :: "conn \<Rightarrow> world \<Rightarrow> conn \<times> world" where
  "closeConn cn w = (cn\<lparr>dvr := None, c_db := None, c_fsys := None\<rparr>, closeDb (c_db cn) w)"

text \<open>The database of a connection, opened if need be.\<close>

definition nextdb :: "conn \<Rightarrow> world \<Rightarrow> (nat option \<times> go_err option) \<times> conn \<times> world" where
  "nextdb cn w =
     (case dvr cn of
        None \<Rightarrow> ((None, None), cn, w)
      | Some d \<Rightarrow>
          (case c_db cn of
             Some h \<Rightarrow> ((Some h, None), cn, w)
           | None \<Rightarrow>
               (case Invoke d (datasource cn) of
                  Inl err \<Rightarrow> ((None, Some err), cn, w)
                | Inr False \<Rightarrow> ((None, None), cn, w)
                | Inr True \<Rightarrow> ((Some (opened w), None), cn\<lparr>c_db := Some (opened w)\<rparr>, w\<lparr>opened := opened w + 1\<rparr>))))"

text \<open>
  The surroundings of a query: the case tables, whether the database hands out a connection, which of its calls fail, and
  how an argument looks as a value.
\<close>

record 'v qenv =
  q_fold :: "sqltext \<Rightarrow> sqltext \<Rightarrow> bool"
  q_upper :: "sqltext \<Rightarrow> sqltext"
  q_conn :: "go_err option"
  q_run :: "'v dbcall \<Rightarrow> go_err option"
  q_asval :: "'v sqlarg + (sqltext \<rightharpoonup> sqltext) \<Rightarrow> 'v sqlval"

definition statementOf :: "'v qenv \<Rightarrow> conn \<Rightarrow> sqltext \<Rightarrow> 'v sqlarg list \<Rightarrow> ('v statement option \<times> go_err option) option" where
  "statementOf e cn q a =
     nextstatement (q_fold e) (q_upper e) (q_conn e) (q_asval e) (map_option sqldriver.truncate (dvr cn)) q (c_fsys cn) a"

text \<open>
  \<open>QueryContext\<close>: whether there is a reader, the error, the calls of the database.  An error of \<open>nextdb\<close> ends the query without a
  reader and without an error.  A query that cannot be prepared closes the database.
\<close>

definition queryConn :: "'v qenv \<Rightarrow> sqltext \<Rightarrow> 'v sqlarg list \<Rightarrow> conn \<Rightarrow> world \<Rightarrow>
    ((bool \<times> go_err option) \<times> 'v dbcall list \<times> conn \<times> world) option" where
  "queryConn e q a cn w =
     (case nextdb cn w of ((db, dberr), cn1, w1) \<Rightarrow>
        if dberr \<noteq> None \<or> db = None then Some ((False, None), [], cn1, w1)
        else
          do {
            (so, serr) \<leftarrow> statementOf e cn1 q a;
            if serr \<noteq> None then
              Some ((False, serr), [], if c_db cn1 = db then cn1\<lparr>c_db := None\<rparr> else cn1, closeDb db w1)
            else
              (case so of
                 None \<Rightarrow> Some ((False, None), [], cn1, w1)
               | Some s \<Rightarrow> do { (res, cs, s1) \<leftarrow> QueryContext (q_run e) s; Some (res, cs, cn1, w1) })
          })"

definition executeConn :: "'v qenv \<Rightarrow> sqltext \<Rightarrow> 'v sqlarg list \<Rightarrow> conn \<Rightarrow> world \<Rightarrow>
    ((bool \<times> go_err option) \<times> 'v dbcall list \<times> conn \<times> world) option" where
  "executeConn e q a cn w =
     (case nextdb cn w of ((db, dberr), cn1, w1) \<Rightarrow>
        if dberr \<noteq> None \<or> db = None then Some ((False, None), [], cn1, w1)
        else
          do {
            (so, serr) \<leftarrow> statementOf e cn1 q a;
            if serr \<noteq> None then Some ((False, serr), [], cn1, w1)
            else
              (case so of
                 None \<Rightarrow> Some ((False, None), [], cn1, w1)
               | Some s \<Rightarrow>
                   (case ExecuteContext (q_run e) s (map (\<lambda>x. q_asval e (Inl x)) a) of ((res, err), cs) \<Rightarrow>
                      if err \<noteq> None
                      then Some ((res, err), cs, if c_db cn1 = db then cn1\<lparr>c_db := None\<rparr> else cn1, closeDb db w1)
                      else Some ((res, err), cs, cn1, w1)))
          })"

section \<open>The connections\<close>

text \<open>The drivers are looked up by name; a nil map of connections is a closed one.\<close>

record connections =
  drvrs :: "sqltext \<rightharpoonup> dbdriver"
  cmap :: "(sqltext, conn) itermap option"
  cs_fsys :: "(sqltext \<rightharpoonup> sqltext) option"

abbreviation blankName :: "sqltext \<Rightarrow> bool" where "blankName k \<equiv> k = []"

definition NewConnections :: "(sqltext \<rightharpoonup> dbdriver) \<Rightarrow> (sqltext \<rightharpoonup> sqltext) option \<Rightarrow> connections" where
  "NewConnections ds fs = \<lparr>drvrs = ds, cmap = Some (IterMap.Events MapIterator), cs_fsys = fs\<rparr>"

text \<open>The handlers of the map's events: connections that are deleted or disposed are closed.\<close>

definition closeAll :: "(sqltext, conn) smap \<Rightarrow> world \<Rightarrow> world" where
  "closeAll cs w = foldl (\<lambda>w (alias, cn). if alias \<noteq> [] then snd (closeConn cn w) else w) w cs"

fun onEvent :: "world \<Rightarrow> (sqltext, conn) map_event \<Rightarrow> world" where
  "onEvent w (EvDeleted cs) = closeAll cs w"
| "onEvent w (EvDisposed cs) = closeAll cs w"
| "onEvent w (EvChanged k c d) = w"
| "onEvent w (EvAdd k c) = w"

definition handled :: "(sqltext, conn) itermap \<Rightarrow> (sqltext, conn) itermap \<Rightarrow> world \<Rightarrow> world" where
  "handled m m' w = foldl onEvent w (drop (length (emitted m)) (emitted m'))"

definition deleteConns :: "sqltext list \<Rightarrow> connections \<Rightarrow> world \<Rightarrow> connections \<times> world" where
  "deleteConns names c w =
     (case cmap c of
        None \<Rightarrow> (c, w)
      | Some m \<Rightarrow> (let m' = imDelete blankName m names in (c\<lparr>cmap := Some m'\<rparr>, handled m m' w)))"

definition clearConns :: "connections \<Rightarrow> world \<Rightarrow> connections \<times> world" where
  "clearConns c w =
     (case cmap c of
        None \<Rightarrow> (c, w)
      | Some m \<Rightarrow> (let m' = imClear m in (c\<lparr>cmap := Some m'\<rparr>, handled m m' w)))"

definition closeConns :: "connections \<Rightarrow> world \<Rightarrow> connections \<times> world" where
  "closeConns c w =
     (case cmap c of
        None \<Rightarrow> (c\<lparr>drvrs := Map.empty\<rparr>, w)
      | Some m \<Rightarrow> (c\<lparr>cmap := None, drvrs := Map.empty\<rparr>, handled m (imClose m) w))"

definition getConn :: "connections \<Rightarrow> sqltext \<Rightarrow> conn option" where
  "getConn c name = (case cmap c of Some m \<Rightarrow> imGet blankName m name | None \<Rightarrow> None)"

text \<open>A connection is shared by reference: changing it changes the entry, without an event.\<close>

definition putConn :: "sqltext \<Rightarrow> conn \<Rightarrow> connections \<Rightarrow> connections" where
  "putConn alias cn c = c\<lparr>cmap := map_option (\<lambda>m. m\<lparr>orgsncmp := map_option (\<lambda>s. StoreKey s alias cn) (orgsncmp m)\<rparr>) (cmap c)\<rparr>"

definition setConn :: "sqltext \<Rightarrow> conn \<Rightarrow> connections \<Rightarrow> world \<Rightarrow> connections \<times> world" where
  "setConn alias cn c w =
     (case cmap c of
        None \<Rightarrow> (c, w)
      | Some m \<Rightarrow> (let m' = imSet blankName m alias cn in (c\<lparr>cmap := Some m'\<rparr>, handled m m' w)))"

definition unregistered :: go_err where
  "unregistered = Err ''Unregistered driver''"

text \<open>
  \<open>Register\<close>.  For a name that is taken the code looks for a driver of the name of the connection, not of the
  driver it is given.
\<close>

definition Register :: "sqltext \<Rightarrow> sqltext \<Rightarrow> sqltext \<Rightarrow> (sqltext \<rightharpoonup> sqltext) option \<Rightarrow> connections \<Rightarrow> world \<Rightarrow>
    (bool \<times> go_err option) \<times> connections \<times> world" where
  "Register alias drv ds fs c w =
     (case cmap c of
        None \<Rightarrow> ((False, Some (Err ''Unbale to register connection'')), c, w)
      | Some m \<Rightarrow>
          (case getConn c alias of
             Some cn \<Rightarrow>
               (let cndvr = (case dvr cn of
                               Some d \<Rightarrow> (if d_name d \<noteq> alias then drvrs c alias else Some d)
                             | None \<Rightarrow> None) in
                case cndvr of
                  None \<Rightarrow>
                    (let (c1, w1) = deleteConns [alias] c w in
                     case drvrs c alias of
                       Some d \<Rightarrow> (let (c2, w2) = setConn alias (NewConnection d ds (cs_fsys c)) c1 w1 in ((True, None), c2, w2))
                     | None \<Rightarrow> ((False, Some unregistered), c1, w1))
                | Some d \<Rightarrow> (let (cn1, w1) = Reload ds (Some d) cn w in ((True, None), putConn alias cn1 c, w1)))
           | None \<Rightarrow>
               (case drvrs c drv of
                  None \<Rightarrow> ((False, Some unregistered), c, w)
                | Some d \<Rightarrow>
                    (let (c1, w1) = setConn alias (NewConnection d ds (if fs = None then cs_fsys c else fs)) c w in ((True, None), c1, w1)))))"

text \<open>A query or an execution on a named connection, as the handler makes it.\<close>

definition onConn :: "(conn \<Rightarrow> world \<Rightarrow> ('r \<times> 'v dbcall list \<times> conn \<times> world) option) \<Rightarrow> 'r \<Rightarrow> sqltext \<Rightarrow> connections \<Rightarrow> world \<Rightarrow>
    ('r \<times> 'v dbcall list \<times> connections \<times> world) option" where
  "onConn f none alias c w =
     (case getConn c alias of
        None \<Rightarrow> Some (none, [], c, w)
      | Some cn \<Rightarrow> do { (res, cs, cn1, w1) \<leftarrow> f cn w; Some (res, cs, putConn alias cn1 c, w1) })"

section \<open>Every database is accounted for\<close>

definition handlesOf :: "conn \<Rightarrow> nat list" where
  "handlesOf cn = (case c_db cn of Some h \<Rightarrow> [h] | None \<Rightarrow> [])"

definition held :: "(sqltext, conn) smap \<Rightarrow> nat list" where
  "held s = concat (map (\<lambda>(k, cn). handlesOf cn) s)"

lemma held_simps [simp]: "held [] = []" "held ((k, cn) # s) = handlesOf cn @ held s"
  by (simp_all add: held_def)

text \<open>What an operation on one connection opens is held or closed afterwards.\<close>

definition books :: "conn \<Rightarrow> world \<Rightarrow> conn \<Rightarrow> world \<Rightarrow> bool" where
  "books cn w cn' w' \<longleftrightarrow> opened w \<le> opened w' \<and>
     mset (handlesOf cn') + mset (dbclosed w') = mset (handlesOf cn) + mset (dbclosed w) + mset [opened w..<opened w']"

lemma books_refl: "books cn w cn w"
  by (simp add: books_def)

lemma upt_mset: "i \<le> j \<Longrightarrow> j \<le> k \<Longrightarrow> mset [i..<j] + mset [j..<k] = mset [i..<k]"
  using upt_add_eq_append [of i j "k - j"] by simp

lemma books_trans:
  assumes "books a w b v" "books b v c u"
  shows "books a w c u"
proof -
  have "mset (handlesOf c) + mset (dbclosed u) = mset (handlesOf a) + mset (dbclosed w) + (mset [opened w..<opened v] + mset [opened v..<opened u])"
    using assms unfolding books_def by (simp add: add.assoc)
  also have "mset [opened w..<opened v] + mset [opened v..<opened u] = mset [opened w..<opened u]"
    using assms upt_mset unfolding books_def by simp
  finally show ?thesis using assms unfolding books_def by simp
qed

lemma nextdb_books: "nextdb cn w = (r, cn1, w1) \<Longrightarrow> books cn w cn1 w1"
  by (auto simp: nextdb_def books_def handlesOf_def split: option.splits sum.splits bool.splits)

lemma nextdb_db: "nextdb cn w = ((Some h, e), cn1, w1) \<Longrightarrow> c_db cn1 = Some h"
  by (auto simp: nextdb_def split: option.splits sum.splits bool.splits)

lemma drop_db_books: "c_db cn = db \<Longrightarrow> books cn w (cn\<lparr>c_db := None\<rparr>) (closeDb db w)"
  by (auto simp: books_def handlesOf_def closeDb_def split: option.splits)

lemma Reload_books: "Reload ds dv cn w = (cn1, w1) \<Longrightarrow> books cn w cn1 w1"
  by (auto simp: Reload_def books_def handlesOf_def closeDb_def split: option.splits if_splits)

lemma queryConn_books:
  assumes "queryConn e q a cn w = Some (res, cs, cn', w')"
  shows "books cn w cn' w'"
proof -
  obtain db err cn1 w1 where n: "nextdb cn w = ((db, err), cn1, w1)" by (metis surj_pair)
  have b: "books cn w cn1 w1" using nextdb_books [OF n] .
  have c: "db \<noteq> None \<Longrightarrow> books cn w (cn1\<lparr>c_db := None\<rparr>) (closeDb db w1) \<and> c_db cn1 = db"
    using nextdb_db n books_trans [OF b drop_db_books] by (cases db) auto
  show ?thesis
    using assms b c by (auto simp: queryConn_def n Option.bind_eq_Some_conv split: if_splits option.splits prod.splits)
qed

lemma executeConn_books:
  assumes "executeConn e q a cn w = Some (res, cs, cn', w')"
  shows "books cn w cn' w'"
proof -
  obtain db err cn1 w1 where n: "nextdb cn w = ((db, err), cn1, w1)" by (metis surj_pair)
  have b: "books cn w cn1 w1" using nextdb_books [OF n] .
  have c: "db \<noteq> None \<Longrightarrow> books cn w (cn1\<lparr>c_db := None\<rparr>) (closeDb db w1) \<and> c_db cn1 = db"
    using nextdb_db n books_trans [OF b drop_db_books] by (cases db) auto
  show ?thesis
    using assms b c by (auto simp: executeConn_def n Option.bind_eq_Some_conv split: if_splits option.splits prod.splits)
qed

text \<open>The databases held by a map of connections.\<close>

lemma held_store:
  "Load s k = Some cn \<Longrightarrow> mset (held (StoreKey s k cn')) + mset (handlesOf cn) = mset (held s) + mset (handlesOf cn')"
  by (induction s) (auto simp: Load_def StoreKey_def split: if_splits)

lemma held_add: "Load s k = None \<Longrightarrow> mset (held (StoreKey s k cn)) = mset (held s) + mset (handlesOf cn)"
  by (induction s) (auto simp: Load_def StoreKey_def split: if_splits)

lemma dropKeys_filter: "dropKeys P s = filter (\<lambda>(k, v). \<not> P k) s"
proof -
  have "fold (\<lambda>k s. DeleteKey s k) ks t = filter (\<lambda>(k, v). k \<notin> set ks) t" for ks :: "'a list" and t :: "('a, 'b) smap"
    by (induction ks arbitrary: t) (auto simp: DeleteKey_def AList.delete_eq case_prod_beta conj_commute intro: filter_cong)
  then show ?thesis by (force simp: dropKeys_def RangeKeys_def intro: filter_cong)
qed

lemma held_drop: "mset (held (dropKeys P s)) + mset (held (taken P s)) = mset (held s)"
  unfolding dropKeys_filter taken_def by (induction s) auto

lemma closeAll_closes:
  "[] \<notin> fst ` set cs \<Longrightarrow> opened (closeAll cs w) = opened w \<and> mset (dbclosed (closeAll cs w)) = mset (dbclosed w) + mset (held cs)"
  unfolding closeAll_def
  by (induction cs arbitrary: w) (auto simp: closeConn_def closeDb_def handlesOf_def split: option.splits)

text \<open>The operations on the connections as steps; the surroundings of queries come from the set \<open>E\<close>.\<close>

inductive cstep :: "'v qenv set \<Rightarrow> connections \<times> world \<Rightarrow> connections \<times> world \<Rightarrow> bool" for E where
  register: "Register alias drv ds fs c w = (res, c1, w1) \<Longrightarrow> cstep E (c, w) (c1, w1)"
| query: "e \<in> E \<Longrightarrow> onConn (queryConn e q a) none alias c w = Some (res, cs, c1, w1) \<Longrightarrow> cstep E (c, w) (c1, w1)"
| execute: "e \<in> E \<Longrightarrow> onConn (executeConn e q a) none alias c w = Some (res, cs, c1, w1) \<Longrightarrow> cstep E (c, w) (c1, w1)"
| delete: "deleteConns names c w = (c1, w1) \<Longrightarrow> cstep E (c, w) (c1, w1)"
| clear: "clearConns c w = (c1, w1) \<Longrightarrow> cstep E (c, w) (c1, w1)"
| close: "closeConns c w = (c1, w1) \<Longrightarrow> cstep E (c, w) (c1, w1)"

definition heldBy :: "connections \<Rightarrow> nat list" where
  "heldBy c = (case cmap c of Some m \<Rightarrow> (case orgsncmp m of Some s \<Rightarrow> held s | None \<Rightarrow> []) | None \<Rightarrow> [])"

definition conns_ok :: "connections \<Rightarrow> bool" where
  "conns_ok c \<longleftrightarrow> (case cmap c of None \<Rightarrow> True
     | Some m \<Rightarrow> mpevents m \<and> (\<exists>s. orgsncmp m = Some s \<and> smap_ok s \<and> [] \<notin> fst ` set s))"

definition accounted :: "connections \<times> world \<Rightarrow> bool" where
  "accounted cw \<longleftrightarrow> conns_ok (fst cw) \<and> mset (heldBy (fst cw)) + mset (dbclosed (snd cw)) = mset [0..<opened (snd cw)]"

lemma accounted_map:
  "cmap c = Some m \<Longrightarrow> accounted (c, w) \<Longrightarrow>
   \<exists>s. orgsncmp m = Some s \<and> smap_ok s \<and> [] \<notin> fst ` set s \<and> mpevents m \<and> mset (held s) + mset (dbclosed w) = mset [0..<opened w]"
  by (auto simp: accounted_def conns_ok_def heldBy_def)

lemma accounted_mapI:
  "cmap c = Some m \<Longrightarrow> orgsncmp m = Some s \<Longrightarrow> smap_ok s \<Longrightarrow> [] \<notin> fst ` set s \<Longrightarrow> mpevents m \<Longrightarrow>
   mset (held s) + mset (dbclosed w) = mset [0..<opened w] \<Longrightarrow> accounted (c, w)"
  by (auto simp: accounted_def conns_ok_def heldBy_def)

lemma keys_taken: "[] \<notin> fst ` set s \<Longrightarrow> [] \<notin> fst ` set (taken P s)" "[] \<notin> fst ` set s \<Longrightarrow> [] \<notin> fst ` set (dropKeys P s)"
  by (auto simp: taken_def dropKeys_filter)

text \<open>Removing entries closes what they hold.\<close>

lemma removed_accounted:
  assumes "smap_ok s" "[] \<notin> fst ` set s" "mset (held s) + mset (dbclosed w) = mset [0..<opened w]"
  shows "mset (held (dropKeys P s)) + mset (dbclosed (closeAll (taken P s) w)) = mset [0..<opened (closeAll (taken P s) w)]"
  using assms closeAll_closes [OF keys_taken(1) [OF assms(2)], of P w] held_drop [of P s] by (simp add: ac_simps)

lemma closeAll_Nil [simp]: "closeAll [] w = w"
  by (simp add: closeAll_def)

lemma deleteConns_accounted: "accounted (c, w) \<Longrightarrow> accounted (deleteConns names c w)"
proof (cases "cmap c")
  case (Some m)
  assume "accounted (c, w)"
  then obtain s where s: "orgsncmp m = Some s" "smap_ok s" "[] \<notin> fst ` set s" "mpevents m"
      "mset (held s) + mset (dbclosed w) = mset [0..<opened w]"
    using accounted_map [OF Some] by blast
  let ?P = "\<lambda>k. k \<in> set (filter (\<lambda>k. \<not> blankName k) names)"
  show ?thesis
  proof (cases "filter (\<lambda>k. \<not> blankName k) names = []")
    case True
    then show ?thesis using Some s by (auto simp: deleteConns_def imDelete_def handled_def intro: accounted_mapI)
  next
    case False
    let ?m = "imDelete blankName m names"
    have m: "orgsncmp ?m = Some (dropKeys ?P s)" "mpevents ?m" "handled m ?m w = closeAll (taken ?P s) w"
      using False s(1,4) by (auto simp: imDelete_def Let_def handled_def emit_def)
    have "accounted (c\<lparr>cmap := Some ?m\<rparr>, closeAll (taken ?P s) w)"
      using removed_accounted [OF s(2,3,5), of ?P] m(1,2) keys_taken(2) [OF s(3)] dropKeys_props(1) [OF s(2)]
      by (intro accounted_mapI) auto
    then show ?thesis using Some m(3) by (simp add: deleteConns_def Let_def)
  qed
qed (simp add: deleteConns_def)

lemma clearConns_accounted: "accounted (c, w) \<Longrightarrow> accounted (clearConns c w)"
proof (cases "cmap c")
  case (Some m)
  assume "accounted (c, w)"
  then obtain s where s: "orgsncmp m = Some s" "smap_ok s" "[] \<notin> fst ` set s" "mpevents m"
      "mset (held s) + mset (dbclosed w) = mset [0..<opened w]"
    using accounted_map [OF Some] by blast
  let ?m = "imClear m"
  have m: "orgsncmp ?m = Some (dropKeys (\<lambda>k. True) s)" "mpevents ?m" "handled m ?m w = closeAll (taken (\<lambda>k. True) s) w"
    using s(1,4) by (auto simp: imClear_def Let_def handled_def emit_def)
  have "accounted (c\<lparr>cmap := Some ?m\<rparr>, closeAll (taken (\<lambda>k. True) s) w)"
    using removed_accounted [OF s(2,3,5), of "\<lambda>k. True"] m(1,2) keys_taken(2) [OF s(3)] dropKeys_props(1) [OF s(2)]
    by (intro accounted_mapI) auto
  then show ?thesis using Some m(3) by (simp add: clearConns_def Let_def)
qed (simp add: clearConns_def)

lemma closeConns_accounted: "accounted (c, w) \<Longrightarrow> accounted (closeConns c w)"
proof (cases "cmap c")
  case None
  assume "accounted (c, w)"
  then show ?thesis using None by (simp add: closeConns_def accounted_def conns_ok_def heldBy_def)
next
  case (Some m)
  assume "accounted (c, w)"
  then obtain s where s: "orgsncmp m = Some s" "smap_ok s" "[] \<notin> fst ` set s" "mpevents m"
      "mset (held s) + mset (dbclosed w) = mset [0..<opened w]"
    using accounted_map [OF Some] by blast
  have "handled m (imClose m) w = closeAll (taken (\<lambda>k. True) s) w"
    using s(1,4) by (auto simp: imClose_def Let_def handled_def)
  moreover have "taken (\<lambda>k. True) s = s" by (simp add: taken_def)
  ultimately show ?thesis
    using closeAll_closes [OF s(3), of w] s(5) Some by (simp add: closeConns_def accounted_def conns_ok_def heldBy_def ac_simps)
qed

lemma setConn_accounted:
  assumes "accounted (c, w)" "getConn c alias = None" "handlesOf cn = []"
  shows "accounted (setConn alias cn c w)"
proof (cases "cmap c")
  case None
  then show ?thesis using assms by (simp add: setConn_def)
next
  case (Some m)
  then obtain s where s: "orgsncmp m = Some s" "smap_ok s" "[] \<notin> fst ` set s" "mpevents m"
      "mset (held s) + mset (dbclosed w) = mset [0..<opened w]"
    using accounted_map [OF Some assms(1)] by blast
  show ?thesis
  proof (cases "alias = []")
    case True
    then show ?thesis using Some s by (auto simp: setConn_def imSet_def handled_def intro: accounted_mapI)
  next
    case False
    then have l: "Load s alias = None" using assms(2) Some s(1) by (simp add: getConn_def imGet_def)
    let ?m = "imSet blankName m alias cn"
    have m: "orgsncmp ?m = Some (StoreKey s alias cn)" "mpevents ?m" "handled m ?m w = w"
      using False l s(1,4) by (auto simp: imSet_def handled_def emit_def)
    have "[] \<notin> fst ` set (StoreKey s alias cn)" using False s(3) by (simp add: StoreKey_def dom_update)
    then have "accounted (c\<lparr>cmap := Some ?m\<rparr>, w)"
      using m(1,2) s smap.wf_store [OF s(2)] held_add [OF l, of cn] assms(3)
      by (intro accounted_mapI [where s = "StoreKey s alias cn"]) auto
    then show ?thesis using Some m(3) by (simp add: setConn_def Let_def)
  qed
qed

lemma putConn_accounted:
  assumes "accounted (c, w)" "getConn c alias = Some cn" "books cn w cn1 w1"
  shows "accounted (putConn alias cn1 c, w1)"
proof (cases "cmap c")
  case None
  then show ?thesis using assms(2) by (simp add: getConn_def)
next
  case (Some m)
  obtain s where s: "orgsncmp m = Some s" "smap_ok s" "[] \<notin> fst ` set s" "mpevents m"
      "mset (held s) + mset (dbclosed w) = mset [0..<opened w]"
    using accounted_map [OF Some assms(1)] by blast
  have l: "alias \<noteq> []" "Load s alias = Some cn" using assms(2) Some s(1) by (auto simp: getConn_def imGet_def split: if_splits)
  have "mset (held (StoreKey s alias cn1)) + mset (dbclosed w1) + mset (handlesOf cn) =
      mset (held s) + (mset (handlesOf cn1) + mset (dbclosed w1))"
    using held_store [OF l(2), of cn1] by (simp add: ac_simps)
  also have "\<dots> = (mset [0..<opened w] + mset [opened w..<opened w1]) + mset (handlesOf cn)"
    using assms(3) s(5) unfolding books_def by (simp add: ac_simps)
  also have "mset [0..<opened w] + mset [opened w..<opened w1] = mset [0..<opened w1]"
    using assms(3) upt_mset unfolding books_def by simp
  finally have "mset (held (StoreKey s alias cn1)) + mset (dbclosed w1) = mset [0..<opened w1]" by simp
  moreover have "[] \<notin> fst ` set (StoreKey s alias cn1)" using l(1) s(3) by (simp add: StoreKey_def dom_update)
  ultimately show ?thesis
    using Some s smap.wf_store [OF s(2)]
    by (intro accounted_mapI [where m = "m\<lparr>orgsncmp := Some (StoreKey s alias cn1)\<rparr>" and s = "StoreKey s alias cn1"]) (auto simp: putConn_def)
qed

lemma deleted_gone: "conns_ok c \<Longrightarrow> getConn (fst (deleteConns [alias] c w)) alias = None"
  by (cases "cmap c"; cases "alias = []")
    (auto simp: conns_ok_def deleteConns_def imDelete_def getConn_def imGet_def Let_def dropKeys_props(2))

lemma Register_accounted:
  assumes "accounted (c, w)" "Register alias drv ds fs c w = (res, c1, w1)"
  shows "accounted (c1, w1)"
proof -
  have new: "handlesOf (NewConnection d x y) = []" for d x y by (simp add: handlesOf_def NewConnection_def)
  have ok: "conns_ok c" using assms(1) by (simp add: accounted_def)
  obtain m where m: "cmap c = Some m \<or> cmap c = None" by blast
  show ?thesis
  proof (cases "getConn c alias")
    case None
    then show ?thesis
      using assms m setConn_accounted [OF assms(1) None new]
      by (auto simp: Register_def split: option.splits prod.splits) (metis Pair_inject)+
  next
    case (Some cn)
    obtain c2 w2 where d: "deleteConns [alias] c w = (c2, w2)" by force
    then have a2: "accounted (c2, w2)" "getConn c2 alias = None"
      using deleteConns_accounted [OF assms(1), of "[alias]"] deleted_gone [OF ok, of "alias" w] by auto
    have s: "setConn alias (NewConnection dd x y) c2 w2 = (c3, w3) \<Longrightarrow> accounted (c3, w3)" for dd x y c3 w3
      using setConn_accounted [OF a2 new, of dd x y] by simp
    have r: "Reload ds dv cn w = (cn1, w3) \<Longrightarrow> accounted (putConn alias cn1 c, w3)" for dv cn1 w3
      using putConn_accounted [OF assms(1) Some Reload_books] by blast
    show ?thesis
      using assms Some d a2(1) s r by (auto simp: Register_def Let_def split: option.splits prod.splits if_splits)
  qed
qed

lemma onConn_accounted:
  assumes "accounted (c, w)" "onConn f none alias c w = Some (res, cs, c1, w1)"
    "\<And>cn res cs cn1 w1. f cn w = Some (res, cs, cn1, w1) \<Longrightarrow> books cn w cn1 w1"
  shows "accounted (c1, w1)"
  using assms(1,2) putConn_accounted [OF assms(1) _ assms(3)]
  by (auto simp: onConn_def Option.bind_eq_Some_conv split: option.splits)

lemma cstep_accounted: "cstep E cw cw' \<Longrightarrow> accounted cw \<Longrightarrow> accounted cw'"
proof (induction rule: cstep.induct)
  case (register al drv ds fs c w res c1 w1)
  then show ?case using Register_accounted by blast
next
  case (query e q a none al c w res cs c1 w1)
  show ?case by (rule onConn_accounted [OF query(3,2) queryConn_books])
next
  case (execute e q a none al c w res cs c1 w1)
  show ?case by (rule onConn_accounted [OF execute(3,2) executeConn_books])
next
  case (delete names c w c1 w1)
  then show ?case using deleteConns_accounted by metis
next
  case (clear c w c1 w1)
  then show ?case using clearConns_accounted by metis
next
  case (close c w c1 w1)
  then show ?case using closeConns_accounted by metis
qed

text \<open>
  Claim C7: no database is lost and none is closed twice.  After any sequence of registrations, queries, executions,
  deletions, clearing and closing, with whatever outcomes, the databases that were ever opened are exactly those
  the registered connections hold together with those that were closed, each of them once: a connection never holds
  a closed database, no two connections share one, and none stays open without a connection.
\<close>

theorem databases_accounted:
  assumes "(cstep E)\<^sup>*\<^sup>* (NewConnections ds fs, \<lparr>opened = 0, dbclosed = []\<rparr>) (c, w)"
  shows "mset (heldBy c) + mset (dbclosed w) = mset [0..<opened w] \<and> distinct (heldBy c @ dbclosed w)"
proof -
  have "accounted cw" if "(cstep E)\<^sup>*\<^sup>* (NewConnections ds fs, \<lparr>opened = 0, dbclosed = []\<rparr>) cw" for cw
    using that
  proof (induction rule: rtranclp_induct)
    case base
    then show ?case
      by (simp add: accounted_def conns_ok_def heldBy_def NewConnections_def IterMap.Events_def MapIterator_def)
  next
    case (step cw cw')
    then show ?case using cstep_accounted by blast
  qed
  from this [OF assms] have m: "mset (heldBy c @ dbclosed w) = mset [0..<opened w]" by (simp add: accounted_def)
  then have "distinct (heldBy c @ dbclosed w)" by (metis distinct_upt mset_eq_imp_distinct_iff)
  then show ?thesis using m by simp
qed

definition sampleDriver :: dbdriver where
  "sampleDriver = \<lparr>d_name = csvName, d_fsys = Some Map.empty, d_arg = markParam, dv_id = 1, dv_invoke = Some (\<lambda>ds. Inr True), dv_datasource = []\<rparr>"

definition sampleQenv :: "nat qenv" where
  "sampleQenv = \<lparr>q_fold = (=), q_upper = id, q_conn = None, q_run = (\<lambda>c. None), q_asval = (\<lambda>x. Nul)\<rparr>"

theorem databases_accounted_witness:
  "\<exists>c w. (cstep {sampleQenv})\<^sup>*\<^sup>* (NewConnections [csvName \<mapsto> sampleDriver] None, \<lparr>opened = 0, dbclosed = []\<rparr>) (c, w) \<and>
     heldBy c = [0] \<and> opened w = 1 \<and> mset (heldBy c) + mset (dbclosed w) = mset [0..<opened w] \<and> distinct (heldBy c @ dbclosed w)"
proof -
  let ?c0 = "NewConnections [csvName \<mapsto> sampleDriver] None" and ?w0 = "\<lparr>opened = 0, dbclosed = []\<rparr>"
  let ?cn = "NewConnection sampleDriver [120] None"
  let ?c1 = "fst (setConn [97] ?cn ?c0 ?w0)" and ?c2 = "putConn [97] (?cn\<lparr>c_db := Some 0\<rparr>) (fst (setConn [97] ?cn ?c0 ?w0))"
  let ?w2 = "\<lparr>opened = 1, dbclosed = []\<rparr>"
  have "Register [97] csvName [120] None ?c0 ?w0 = ((True, None), ?c1, ?w0)"
    by (simp add: Register_def NewConnections_def getConn_def imGet_def MapIterator_def IterMap.Events_def setConn_def imSet_def handled_def emit_def)
  then have s1: "cstep {sampleQenv} (?c0, ?w0) (?c1, ?w0)" by (rule cstep.register)
  have g: "getConn ?c1 [97] = Some ?cn"
    by (simp add: NewConnections_def getConn_def imGet_def MapIterator_def IterMap.Events_def setConn_def imSet_def emit_def smap.load_store Let_def)
  have "\<exists>cs. queryConn sampleQenv [81] [] ?cn ?w0 = Some ((True, None), cs, ?cn\<lparr>c_db := Some 0\<rparr>, ?w2)"
    by (simp add: queryConn_def nextdb_def NewConnection_def Invoke_def sampleDriver_def sampleQenv_def statementOf_def nextstatement_def
        sqldriver.truncate_def newStatement_def QueryContext_def Let_def)
  then obtain cs where "onConn (queryConn sampleQenv [81] []) (False, None) [97] ?c1 ?w0 = Some ((True, None), cs, ?c2, ?w2)"
    using g by (auto simp: onConn_def)
  then have s2: "cstep {sampleQenv} (?c1, ?w0) (?c2, ?w2)" by (intro cstep.query) auto
  have r: "(cstep {sampleQenv})\<^sup>*\<^sup>* (?c0, ?w0) (?c2, ?w2)"
    by (rule rtranclp.rtrancl_into_rtrancl [where r = "cstep {sampleQenv}", OF r_into_rtranclp [where r = "cstep {sampleQenv}", OF s1] s2])
  have "heldBy ?c2 = [0]"
    by (simp add: heldBy_def putConn_def setConn_def NewConnections_def MapIterator_def IterMap.Events_def imSet_def emit_def StoreKey_def handlesOf_def Let_def)
  then show ?thesis using r databases_accounted [OF r] by (intro exI [of _ ?c2] exI [of _ ?w2]) simp
qed

section \<open>Registering\<close>

text \<open>A new name is registered with the driver of the given name, and found again.\<close>

lemma Register_new:
  assumes "conns_ok c" "cmap c \<noteq> None" "al \<noteq> []" "getConn c al = None" "drvrs c drv = Some d"
  shows "\<exists>c1 w1 cn. Register al drv ds fs c w = ((True, None), c1, w1) \<and> getConn c1 al = Some cn \<and> dvr cn = Some d \<and> datasource cn = ds"
  using assms
  by (auto simp: Register_def conns_ok_def setConn_def getConn_def imGet_def imSet_def emit_def smap.load_store NewConnection_def Let_def
      split: option.splits)

text \<open>
  Defect: registering a name again removes the connection and reports a missing driver, unless there is a driver with the
  name of the connection; the driver that is asked for plays no part.
\<close>

lemma Register_again_removes:
  assumes "conns_ok c" "getConn c al = Some cn" "dvr cn = Some d" "d_name d \<noteq> al" "drvrs c al = None"
  shows "\<exists>c1 w1. Register al drv ds fs c w = ((False, Some unregistered), c1, w1) \<and> getConn c1 al = None"
proof -
  obtain m where m: "cmap c = Some m" using assms(2) by (auto simp: getConn_def split: option.splits)
  obtain c1 w1 where d: "deleteConns [al] c w = (c1, w1)" by force
  then show ?thesis using assms m deleted_gone [OF assms(1), of al w] by (simp add: Register_def)
qed

text \<open>Defect: a database that cannot be opened ends a query without a reader and without an error.\<close>

lemma open_error_is_lost:
  "dvr cn = Some d \<Longrightarrow> c_db cn = None \<Longrightarrow> Invoke d (datasource cn) = Inl err \<Longrightarrow> queryConn e q a cn w = Some ((False, None), [], cn, w)"
  by (simp add: queryConn_def nextdb_def)

text \<open>
  Defect: \<open>Unload\<close> waits for the event that \<open>Close\<close> of the connections emits, but a map without connections emits none.
\<close>

lemma close_of_none_is_silent: "orgsncmp m = Some [] \<Longrightarrow> emitted (imClose m) = emitted m"
  by (simp add: imClose_def taken_def)

end
