(* ===== verification/DbHandler.thy ===== *)
theory DbHandler
  imports Connections DbReader
begin

text \<open>
  The handlers through which a session uses the databases (\<open>src/dbms/dbmshandler.go\<close>), and the queries of the \<open>dbms\<close>
  itself, which make a handler of their own (\<open>src/dbms/dbms.go\<close>).  A handler registers the readers of its queries and
  closes them when it is closed; a reader may be attached to a handler, which it then detaches from, or
  disposes of, when it is closed.  Readers and handlers refer to each other, so both live on a heap and are
  named by their positions; a position outside the heap is a nil pointer.
\<close>

section \<open>Handlers\<close>

text \<open>\<open>DBMSHandlerEvents\<close>: which callbacks are set.  The calls of them are recorded with the handler.\<close>

record handlerEvents =
  AttachedReader :: bool
  DetachedReader :: bool
  QueryError :: bool
  ExecuteError :: bool
  HandlerError :: bool
  HandlerDisposed :: bool

datatype hcall = CallAttached nat | CallDetached nat | CallQueryError go_err | CallExecuteError go_err | CallHandlerDisposed

text \<open>The fields of \<open>dbmshandler\<close>; \<open>h_rdrs\<close> are the keys of its \<open>sync.Map\<close>, in the order in which \<open>Range\<close> visits them.\<close>

record dbmshandler =
  h_rdrs :: "nat list option"
  h_params :: "sqlparams option"
  fiqryreader :: "(sqltext \<Rightarrow> sqltext) option"
  h_evnts :: "handlerEvents option"
  h_calls :: "hcall list"

definition fire :: "(handlerEvents \<Rightarrow> bool) \<Rightarrow> hcall \<Rightarrow> dbmshandler \<Rightarrow> dbmshandler" where
  "fire isset c dh = (case h_evnts dh of Some e \<Rightarrow> (if isset e then dh\<lparr>h_calls := h_calls dh @ [c]\<rparr> else dh) | None \<Rightarrow> dh)"

fun takeHandlerArg :: "dbmshandler \<Rightarrow> 'v sqlarg \<Rightarrow> dbmshandler" where
  "takeHandlerArg dh (AParams p) = (if h_params dh = None then dh\<lparr>h_params := p\<rparr> else dh)"
| "takeHandlerArg dh (AFileReader f) = (if fiqryreader dh = None \<and> f \<noteq> None then dh\<lparr>fiqryreader := f\<rparr> else dh)"
| "takeHandlerArg dh x = dh"

definition NewDBMSHandler :: "'v sqlarg list \<Rightarrow> dbmshandler" where
  "NewDBMSHandler a = foldl takeHandlerArg \<lparr>h_rdrs = Some [], h_params = None, fiqryreader = None, h_evnts = None, h_calls = []\<rparr> a"

text \<open>The arguments of a query, with the handler's own behind them; a handler without parameters adds a nil.\<close>

definition handlerArgs :: "dbmshandler \<Rightarrow> 'v sqlarg list \<Rightarrow> 'v sqlarg list" where
  "handlerArgs dh a = a @ [case h_params dh of Some p \<Rightarrow> AParams (Some p) | None \<Rightarrow> AOther Nul, AFileReader (fiqryreader dh)]"

section \<open>The heap\<close>

record ('i, 'v) dstate =
  rdheap :: "('i, 'v) reader list"
  hheap :: "dbmshandler list"
  cns :: connections
  wld :: world

definition rdAt :: "('i, 'v) dstate \<Rightarrow> nat \<Rightarrow> ('i, 'v) reader option" where
  "rdAt d i = (if i < length (rdheap d) then Some (rdheap d ! i) else None)"

definition hAt :: "('i, 'v) dstate \<Rightarrow> nat \<Rightarrow> dbmshandler option" where
  "hAt d h = (if h < length (hheap d) then Some (hheap d ! h) else None)"

definition setR :: "nat \<Rightarrow> ('i, 'v) reader \<Rightarrow> ('i, 'v) dstate \<Rightarrow> ('i, 'v) dstate" where
  "setR i rd d = d\<lparr>rdheap := (rdheap d)[i := rd]\<rparr>"

definition setH :: "nat \<Rightarrow> dbmshandler \<Rightarrow> ('i, 'v) dstate \<Rightarrow> ('i, 'v) dstate" where
  "setH h dh d = d\<lparr>hheap := (hheap d)[h := dh]\<rparr>"

definition storeRdr :: "nat \<Rightarrow> nat list \<Rightarrow> nat list" where
  "storeRdr i rs = (if i \<in> set rs then rs else rs @ [i])"

definition AttachReader :: "nat \<Rightarrow> nat \<Rightarrow> ('i, 'v) dstate \<Rightarrow> ('i, 'v) dstate" where
  "AttachReader h i d =
     (case hAt d h of
        None \<Rightarrow> d
      | Some dh \<Rightarrow>
          (case h_rdrs dh of
             None \<Rightarrow> d
           | Some rs \<Rightarrow> setH h (fire AttachedReader (CallAttached i) (dh\<lparr>h_rdrs := Some (storeRdr i rs)\<rparr>)) d))"

definition DettachReaderFrom :: "nat \<Rightarrow> nat \<Rightarrow> ('i, 'v) dstate \<Rightarrow> ('i, 'v) dstate" where
  "DettachReaderFrom h i d =
     (case hAt d h of
        None \<Rightarrow> d
      | Some dh \<Rightarrow>
          (case h_rdrs dh of
             None \<Rightarrow> d
           | Some rs \<Rightarrow>
               (if i \<in> set rs then setH h (fire DetachedReader (CallDetached i) (dh\<lparr>h_rdrs := Some (removeAll i rs)\<rparr>)) d else d)))"

section \<open>Closing\<close>

text \<open>
  \<open>Close\<close> of a handler closes its readers and \<open>Close\<close> of a reader may close its handler.  The pending calls are a list
  of tasks, worked off from the front as the nested calls run.  The calls a reader makes of its handler are
  those its \<open>Close\<close> records.
\<close>

datatype task = CloseReader nat | CloseHandler nat

fun handlerTasks :: "rdcall list \<Rightarrow> task list" where
  "handlerTasks [] = []"
| "handlerTasks (HandlerClose h # cs) = CloseHandler h # handlerTasks cs"
| "handlerTasks (c # cs) = handlerTasks cs"

fun dettachCalls :: "nat \<Rightarrow> rdcall list \<Rightarrow> ('i, 'v) dstate \<Rightarrow> ('i, 'v) dstate" where
  "dettachCalls i [] d = d"
| "dettachCalls i (DettachReader h # cs) d = dettachCalls i cs (DettachReaderFrom h i d)"
| "dettachCalls i (c # cs) d = dettachCalls i cs d"

definition newCalls :: "('i, 'v) reader \<Rightarrow> ('i, 'v) reader \<Rightarrow> rdcall list" where
  "newCalls rd rd1 = drop (length (calls rd)) (calls rd1)"

definition closedHandler :: "dbmshandler \<Rightarrow> dbmshandler" where
  "closedHandler dh = (fire HandlerDisposed CallHandlerDisposed dh)\<lparr>h_rdrs := None, h_evnts := None\<rparr>"

text \<open>How much is left to close: open handlers and attached readers.\<close>

definition pot :: "('i, 'v) dstate \<Rightarrow> nat" where
  "pot d = length (filter (\<lambda>dh. h_rdrs dh \<noteq> None) (hheap d)) + length (filter (\<lambda>rd. dbhndlr rd \<noteq> None) (rdheap d))"

lemma filter_update:
  "i < length xs \<Longrightarrow> length (filter P (xs[i := x])) + (if P (xs ! i) then 1 else 0) = length (filter P xs) + (if P x then 1 else (0::nat))"
proof (induction xs arbitrary: i)
  case (Cons y ys)
  then show ?case by (cases i) auto
qed simp

lemma fire_simps [simp]: "h_rdrs (fire f c dh) = h_rdrs dh" "h_evnts (fire f c dh) = h_evnts dh"
  by (simp_all add: fire_def split: option.split)

lemma closedHandler_simps [simp]: "h_rdrs (closedHandler dh) = None" "h_evnts (closedHandler dh) = None"
  by (simp_all add: closedHandler_def)

lemma rdClose_calls:
  "newCalls rd (rdClose rd) =
     (if stmnt rd \<noteq> None then [StmtClose] else []) @
     (case dbhndlr rd of Some h \<Rightarrow> (if dsphndlr rd then [HandlerClose h] else [DettachReader h]) | None \<Rightarrow> []) @
     (if dbhndlr rd \<noteq> None \<and> dsphndlr rd then [] else case rdevnts rd of Some e \<Rightarrow> (if Disposed e then [CallDisposed] else []) | None \<Rightarrow> [])"
  by (simp add: newCalls_def rdClose_def Let_def split: option.split)

lemma rdClose_tasks:
  "handlerTasks (newCalls rd (rdClose rd)) = (case dbhndlr rd of Some h \<Rightarrow> (if dsphndlr rd then [CloseHandler h] else []) | None \<Rightarrow> [])"
  by (auto simp: rdClose_calls split: option.split)

lemma rdClose_dettach:
  "dettachCalls i (newCalls rd (rdClose rd)) d =
   (case dbhndlr rd of Some h \<Rightarrow> (if dsphndlr rd then d else DettachReaderFrom h i d) | None \<Rightarrow> d)"
  by (auto simp: rdClose_calls split: option.split)

lemma rdClose_simps [simp]: "dbhndlr (rdClose rd) = None" "stmnt (rdClose rd) = None" "rws (rdClose rd) = None"
  by (simp_all add: rdClose_def Let_def split: option.split)

lemma DettachReaderFrom_simps [simp]: "rdheap (DettachReaderFrom h i d) = rdheap d"
  by (simp add: DettachReaderFrom_def setH_def split: option.split)

lemma DettachReaderFrom_pot: "pot (DettachReaderFrom h i d) = pot d"
proof -
  have "length (filter (\<lambda>dh. h_rdrs dh \<noteq> None) ((hheap d)[h := fire f c (dh\<lparr>h_rdrs := Some rs\<rparr>)])) =
      length (filter (\<lambda>dh. h_rdrs dh \<noteq> None) (hheap d))"
    if "hAt d h = Some dh" "h_rdrs dh = Some rs0" for f c dh rs rs0
    using that filter_update [of h "hheap d" "\<lambda>dh. h_rdrs dh \<noteq> None" "fire f c (dh\<lparr>h_rdrs := Some rs\<rparr>)"]
    by (auto simp: hAt_def split: if_splits)
  then show ?thesis by (auto simp: DettachReaderFrom_def pot_def setH_def split: option.split)
qed

lemma pot_close_reader:
  assumes "rdAt d i = Some rd"
  shows "pot (setR i (rdClose rd) d) + (if dbhndlr rd \<noteq> None then 1 else 0) = pot d"
  using assms filter_update [of i "rdheap d" "\<lambda>rd. dbhndlr rd \<noteq> None" "rdClose rd"]
  by (auto simp: pot_def rdAt_def setR_def split: if_splits)

lemma pot_close_handler:
  assumes "hAt d h = Some dh"
  shows "pot (setH h (closedHandler dh) d) + (if h_rdrs dh \<noteq> None then 1 else 0) = pot d"
  using assms filter_update [of h "hheap d" "\<lambda>dh. h_rdrs dh \<noteq> None" "closedHandler dh"]
  by (auto simp: pot_def hAt_def setH_def split: if_splits)

function (sequential) release :: "task list \<Rightarrow> ('i, 'v) dstate \<Rightarrow> ('i, 'v) dstate" where
  "release [] d = d"
| "release (CloseReader i # ts) d =
     (case rdAt d i of
        None \<Rightarrow> release ts d
      | Some rd \<Rightarrow>
          (let cs = newCalls rd (rdClose rd) in release (handlerTasks cs @ ts) (dettachCalls i cs (setR i (rdClose rd) d))))"
| "release (CloseHandler h # ts) d =
     (case hAt d h of
        None \<Rightarrow> release ts d
      | Some dh \<Rightarrow>
          (let rs = (case h_rdrs dh of Some rs \<Rightarrow> rs | None \<Rightarrow> []) in
           release (map CloseReader rs @ ts) (setH h (closedHandler dh) d)))"
  by pat_completeness auto

termination
proof (relation "measures [\<lambda>(ts, d). pot d, \<lambda>(ts, d). length ts]", goal_cases)
  case (3 i ts d rd cs)
  then show ?case
    using pot_close_reader [OF 3(1)] by (auto simp: rdClose_tasks rdClose_dettach DettachReaderFrom_pot split: option.split)
next
  case (5 h ts d dh rs)
  then show ?case using pot_close_handler [OF 5(1)] by (auto split: option.splits)
qed auto


definition closeHandler :: "nat \<Rightarrow> ('i, 'v) dstate \<Rightarrow> ('i, 'v) dstate" where
  "closeHandler h d = release [CloseHandler h] d"

definition closeReaderAt :: "nat \<Rightarrow> ('i, 'v) dstate \<Rightarrow> ('i, 'v) dstate" where
  "closeReaderAt i d = release [CloseReader i] d"

section \<open>What closing closes\<close>

definition registeredWith :: "('i, 'v) dstate \<Rightarrow> nat \<Rightarrow> nat set" where
  "registeredWith d h = (case hAt d h of Some dh \<Rightarrow> (case h_rdrs dh of Some rs \<Rightarrow> set rs | None \<Rightarrow> {}) | None \<Rightarrow> {})"

definition isOpen :: "('i, 'v) dstate \<Rightarrow> nat \<Rightarrow> bool" where
  "isOpen d h \<longleftrightarrow> (case hAt d h of Some dh \<Rightarrow> h_rdrs dh \<noteq> None | None \<Rightarrow> False)"

text \<open>The handler a reader disposes of, and the one it detaches from, when it is closed.\<close>

definition disposes :: "('i, 'v) dstate \<Rightarrow> nat \<Rightarrow> nat \<Rightarrow> bool" where
  "disposes d i h \<longleftrightarrow> (case rdAt d i of Some rd \<Rightarrow> dbhndlr rd = Some h \<and> dsphndlr rd | None \<Rightarrow> False)"

definition detaches :: "('i, 'v) dstate \<Rightarrow> nat \<Rightarrow> nat \<Rightarrow> bool" where
  "detaches d i h \<longleftrightarrow> (case rdAt d i of Some rd \<Rightarrow> dbhndlr rd = Some h \<and> \<not> dsphndlr rd | None \<Rightarrow> False)"

lemma rdAt_set [simp]:
  "rdAt (setR i rd d) j = (if j = i \<and> rdAt d i \<noteq> None then Some rd else rdAt d j)" "rdAt (setH h dh d) j = rdAt d j"
  "rdAt (DettachReaderFrom h i d) j = rdAt d j"
  by (simp_all add: rdAt_def setR_def setH_def)

lemma hAt_set [simp]:
  "hAt (setH h dh d) k = (if k = h \<and> hAt d h \<noteq> None then Some dh else hAt d k)" "hAt (setR i rd d) k = hAt d k"
  by (simp_all add: hAt_def setR_def setH_def)

lemma handlers_dettach [simp]:
  "registeredWith (DettachReaderFrom h i d) k = (if k = h then registeredWith d k - {i} else registeredWith d k)"
  "isOpen (DettachReaderFrom h i d) k = isOpen d k"
  by (auto simp: registeredWith_def isOpen_def DettachReaderFrom_def split: option.split)

lemma handlers_set [simp]:
  "registeredWith (setR i rd d) k = registeredWith d k" "isOpen (setR i rd d) k = isOpen d k"
  "hAt d h \<noteq> None \<Longrightarrow> registeredWith (setH h (closedHandler dh) d) k = (if k = h then {} else registeredWith d k)"
  "hAt d h \<noteq> None \<Longrightarrow> isOpen (setH h (closedHandler dh) d) k = (k \<noteq> h \<and> isOpen d k)"
  by (auto simp: registeredWith_def isOpen_def)

lemma owners_set [simp]:
  "disposes (setH h dh d) j k = disposes d j k" "detaches (setH h dh d) j k = detaches d j k"
  "disposes (DettachReaderFrom h i d) j k = disposes d j k" "detaches (DettachReaderFrom h i d) j k = detaches d j k"
  "rdAt d i \<noteq> None \<Longrightarrow> disposes (setR i (rdClose rd) d) j k = (j \<noteq> i \<and> disposes d j k)"
  "rdAt d i \<noteq> None \<Longrightarrow> detaches (setR i (rdClose rd) d) j k = (j \<noteq> i \<and> detaches d j k)"
  by (auto simp: disposes_def detaches_def)

text \<open>The calls of \<open>Close\<close> that the calls in \<open>T\<close> lead to, read off the state before any of them has run.\<close>

inductive toClose :: "('i, 'v) dstate \<Rightarrow> task set \<Rightarrow> task \<Rightarrow> bool" for d T where
  root: "t \<in> T \<Longrightarrow> toClose d T t"
| registered: "toClose d T (CloseHandler h) \<Longrightarrow> i \<in> registeredWith d h \<Longrightarrow> toClose d T (CloseReader i)"
| owner: "toClose d T (CloseReader i) \<Longrightarrow> disposes d i h \<Longrightarrow> toClose d T (CloseHandler h)"

text \<open>
  A call may be taken off the pending ones if the calls it makes are put in their place and the state keeps what the others
  lead to, except for ways to the call itself.
\<close>

lemma toClose_step:
  assumes sub: "\<And>h. registeredWith d1 h \<subseteq> registeredWith d h" "\<And>i h. disposes d1 i h \<Longrightarrow> disposes d i h"
    and keep: "\<And>h i. i \<in> registeredWith d h \<Longrightarrow> CloseHandler h \<noteq> t \<Longrightarrow> CloseReader i \<noteq> t \<Longrightarrow> i \<in> registeredWith d1 h"
      "\<And>i h. disposes d i h \<Longrightarrow> CloseReader i \<noteq> t \<Longrightarrow> disposes d1 i h"
    and new: "N = {CloseReader i |i h. t = CloseHandler h \<and> i \<in> registeredWith d h} \<union> {CloseHandler h |h i. t = CloseReader i \<and> disposes d i h}"
  shows "toClose d (insert t T) u \<longleftrightarrow> u = t \<or> toClose d1 (N \<union> T) u"
proof
  assume "toClose d (insert t T) u"
  then show "u = t \<or> toClose d1 (N \<union> T) u"
  proof (induction rule: toClose.induct)
    case (root u)
    then show ?case by (auto intro: toClose.root)
  next
    case (registered h i)
    then have "CloseHandler h = t \<Longrightarrow> CloseReader i \<in> N" by (auto simp: new)
    then show ?case using registered keep(1) by (metis UnI1 toClose.root toClose.registered)
  next
    case (owner i h)
    then have "CloseReader i = t \<Longrightarrow> CloseHandler h \<in> N" by (auto simp: new)
    then show ?case using owner keep(2) by (metis UnI1 toClose.root toClose.owner)
  qed
next
  have "toClose d (insert t T) v" if "toClose d1 (N \<union> T) v" for v
    using that
  proof (induction rule: toClose.induct)
    case (root v)
    then show ?case by (auto simp: new intro: toClose.intros)
  next
    case (registered h i)
    then show ?case using sub(1) [of h] by (auto intro: toClose.registered)
  next
    case (owner i h)
    then show ?case using sub(2) by (auto intro: toClose.owner)
  qed
  moreover assume "u = t \<or> toClose d1 (N \<union> T) u"
  ultimately show "toClose d (insert t T) u" by (auto intro: toClose.root)
qed

text \<open>What a sequence of closings should leave of the readers and of the registrations.\<close>

definition closedOff :: "('i, 'v) dstate \<Rightarrow> task set \<Rightarrow> ('i, 'v) dstate \<Rightarrow> bool" where
  "closedOff d T d' \<longleftrightarrow>
     (\<forall>i. rdAt d' i = (if toClose d T (CloseReader i) then map_option rdClose (rdAt d i) else rdAt d i)) \<and>
     (\<forall>h. isOpen d' h \<longleftrightarrow> isOpen d h \<and> \<not> toClose d T (CloseHandler h)) \<and>
     (\<forall>h. registeredWith d' h = (if toClose d T (CloseHandler h) then {}
        else {i \<in> registeredWith d h. \<not> (toClose d T (CloseReader i) \<and> detaches d i h)})) \<and>
     cns d' = cns d \<and> wld d' = wld d"

lemma DettachReaderFrom_rest [simp]: "cns (DettachReaderFrom h i d) = cns d" "wld (DettachReaderFrom h i d) = wld d"
  by (simp_all add: DettachReaderFrom_def setH_def split: option.split)

lemma set_rest [simp]: "cns (setR i rd d) = cns d" "wld (setR i rd d) = wld d" "cns (setH h dh d) = cns d" "wld (setH h dh d) = wld d"
  by (simp_all add: setR_def setH_def)

lemma closedOff_refl: "closedOff d {} d"
proof -
  have "\<not> toClose d {} t" for t by (rule notI, induction rule: toClose.induct) auto
  then show ?thesis by (simp add: closedOff_def)
qed

lemma closedOff_reader:
  assumes r: "rdAt d i = Some rd" and d1: "d1 = dettachCalls i (newCalls rd (rdClose rd)) (setR i (rdClose rd) d)"
    and c: "closedOff d1 (set (handlerTasks (newCalls rd (rdClose rd)) @ ts)) d'"
  shows "closedOff d (set (CloseReader i # ts)) d'"
proof -
  let ?N = "set (handlerTasks (newCalls rd (rdClose rd)))"
  have g: "registeredWith d1 h = registeredWith d h - {j. j = i \<and> detaches d i h}" "isOpen d1 h = isOpen d h"
    "disposes d1 j h \<longleftrightarrow> j \<noteq> i \<and> disposes d j h" "detaches d1 j h \<longleftrightarrow> j \<noteq> i \<and> detaches d j h"
    "rdAt d1 j = (if j = i then Some (rdClose rd) else rdAt d j)" "cns d1 = cns d" "wld d1 = wld d" for h j
    using r by (auto simp: d1 rdClose_dettach detaches_def disposes_def split: option.splits)
  have "?N = {CloseHandler h |h. disposes d i h}"
    using r by (auto simp: rdClose_tasks disposes_def split: option.split)
  then have "toClose d (insert (CloseReader i) (set ts)) u \<longleftrightarrow> u = CloseReader i \<or> toClose d1 (?N \<union> set ts) u" for u
    using g by (intro toClose_step) auto
  then show ?thesis
    using c g r unfolding closedOff_def by (auto simp: rdClose_idem)
qed

lemma closedOff_handler:
  assumes h: "hAt d h = Some dh" and c: "closedOff (setH h (closedHandler dh) d)
      (set (map CloseReader (case h_rdrs dh of Some rs \<Rightarrow> rs | None \<Rightarrow> []) @ ts)) d'"
  shows "closedOff d (set (CloseHandler h # ts)) d'"
proof -
  let ?d1 = "setH h (closedHandler dh) d" and ?N = "set (map CloseReader (case h_rdrs dh of Some rs \<Rightarrow> rs | None \<Rightarrow> []))"
  have "?N = {CloseReader i |i. i \<in> registeredWith d h}" using h by (auto simp: registeredWith_def split: option.splits)
  then have "toClose d (insert (CloseHandler h) (set ts)) u \<longleftrightarrow> u = CloseHandler h \<or> toClose ?d1 (?N \<union> set ts) u" for u
    using h by (intro toClose_step) (auto split: if_splits)
  then show ?thesis using c h unfolding closedOff_def by auto
qed

lemma closedOff_nil:
  assumes "t = CloseReader i \<and> rdAt d i = None \<or> t = CloseHandler h \<and> hAt d h = None" "closedOff d (set ts) d'"
  shows "closedOff d (set (t # ts)) d'"
proof -
  have "toClose d (insert t (set ts)) u \<longleftrightarrow> u = t \<or> toClose d ({} \<union> set ts) u" for u
    using assms(1) by (intro toClose_step) (auto simp: registeredWith_def disposes_def)
  then show ?thesis using assms by (auto simp: closedOff_def isOpen_def registeredWith_def detaches_def)
qed

lemma release_closes: "closedOff d (set ts) (release ts d)"
proof (induction ts d rule: release.induct)
  case (1 d)
  then show ?case by (simp add: closedOff_refl)
next
  case (2 i ts d)
  show ?case
  proof (cases "rdAt d i")
    case None
    then show ?thesis using 2(1) closedOff_nil [of "CloseReader i" i d _ ts] by simp
  next
    case (Some rd)
    then show ?thesis using closedOff_reader [OF Some refl 2(2) [OF Some refl]] by (simp add: Let_def)
  qed
next
  case (3 h ts d)
  show ?case
  proof (cases "hAt d h")
    case None
    then show ?thesis using 3(1) closedOff_nil [of "CloseHandler h" _ d h ts] by simp
  next
    case (Some dh)
    then show ?thesis using closedOff_handler [OF Some 3(2) [OF Some refl]] by (simp add: Let_def)
  qed
qed

section \<open>Queries and executions\<close>

definition modH :: "nat \<Rightarrow> (dbmshandler \<Rightarrow> dbmshandler) \<Rightarrow> ('i, 'v) dstate \<Rightarrow> ('i, 'v) dstate" where
  "modH h f d = (case hAt d h of Some dh \<Rightarrow> setH h (f dh) d | None \<Rightarrow> d)"

text \<open>
  \<open>QueryContext\<close> of a handler.  \<open>rs\<close> is what the database answers with: the rows of the calls that were made of it.  A handler that was
  closed still answers, but registers nothing.
\<close>

definition handlerQuery :: "'w qenv \<Rightarrow> ('w dbcall list \<Rightarrow> ('i, 'v) rows) \<Rightarrow> nat \<Rightarrow> sqltext \<Rightarrow> sqltext \<Rightarrow> 'w sqlarg list \<Rightarrow>
    ('i, 'v) dstate \<Rightarrow> ((nat option \<times> go_err option) \<times> ('i, 'v) dstate) option" where
  "handlerQuery e rs h alias q a d =
     (case hAt d h of
        None \<Rightarrow> Some ((None, Some (Err ''Empty Reader'')), d)
      | Some dh \<Rightarrow>
          do {
            ((got, err), cs, c1, w1) \<leftarrow> onConn (queryConn e q (handlerArgs dh a)) (False, None) alias (cns d) (wld d);
            (let d1 = d\<lparr>cns := c1, wld := w1\<rparr>; i = length (rdheap d) in
             case err of
               Some x \<Rightarrow> Some ((None, err), modH h (fire QueryError (CallQueryError x)) d1)
             | None \<Rightarrow>
                 (if got then Some ((Some i, None), AttachReader h i (d1\<lparr>rdheap := rdheap d @ [newReader (rs cs)]\<rparr>))
                  else Some ((None, None), d1)))
          })"

definition handlerExecute :: "'w qenv \<Rightarrow> nat \<Rightarrow> sqltext \<Rightarrow> sqltext \<Rightarrow> 'w sqlarg list \<Rightarrow>
    ('i, 'v) dstate \<Rightarrow> ((bool \<times> go_err option) \<times> ('i, 'v) dstate) option" where
  "handlerExecute e h alias q a d =
     (case hAt d h of
        None \<Rightarrow> Some ((False, Some (Err ''Invalid Execution'')), d)
      | Some dh \<Rightarrow>
          do {
            ((res, err), cs, c1, w1) \<leftarrow> onConn (executeConn e q (handlerArgs dh a)) (False, None) alias (cns d) (wld d);
            (let d1 = d\<lparr>cns := c1, wld := w1\<rparr> in
             Some ((res, err), case err of Some x \<Rightarrow> modH h (fire ExecuteError (CallExecuteError x)) d1 | None \<Rightarrow> d1))
          })"

text \<open>\<open>Handler\<close> of the \<open>dbms\<close>, and its own queries and executions, each with a handler made for it.\<close>

definition Handler :: "'w sqlarg list \<Rightarrow> ('i, 'v) dstate \<Rightarrow> nat \<times> ('i, 'v) dstate" where
  "Handler a d = (length (hheap d), d\<lparr>hheap := hheap d @ [NewDBMSHandler a]\<rparr>)"

definition dbmsQuery :: "'w qenv \<Rightarrow> ('w dbcall list \<Rightarrow> ('i, 'v) rows) \<Rightarrow> sqltext \<Rightarrow> sqltext \<Rightarrow> 'w sqlarg list \<Rightarrow>
    ('i, 'v) dstate \<Rightarrow> ((nat option \<times> go_err option) \<times> ('i, 'v) dstate) option" where
  "dbmsQuery e rs alias q a d =
     (let (h, d1) = Handler a d in
      do {
        ((ro, err), d2) \<leftarrow> handlerQuery e rs h alias q a d1;
        Some (if err \<noteq> None then ((None, err), d2)
              else ((ro, None),
                case ro of
                  Some i \<Rightarrow> (case rdAt d2 i of Some rd \<Rightarrow> setR i (rd\<lparr>dsphndlr := True\<rparr>) d2 | None \<Rightarrow> d2)
                | None \<Rightarrow> d2))
      })"

definition dbmsExecute :: "'w qenv \<Rightarrow> sqltext \<Rightarrow> sqltext \<Rightarrow> 'w sqlarg list \<Rightarrow>
    ('i, 'v) dstate \<Rightarrow> ((bool \<times> go_err option) \<times> ('i, 'v) dstate) option" where
  "dbmsExecute e alias q a d =
     (let (h, d1) = Handler a d in
      do { (res, d2) \<leftarrow> handlerExecute e h alias q a d1; Some (res, closeHandler h d2) })"

text \<open>\<open>Next\<close> of a reader on the heap; when the rows end the reader closes itself.\<close>

definition nextAt :: "('i, 'v) irows_ops \<Rightarrow> nat \<Rightarrow> ('i, 'v) dstate \<Rightarrow> (bool \<times> ('i, 'v) dstate) option" where
  "nextAt ops i d =
     (case rdAt d i of
        None \<Rightarrow> Some (False, d)
      | Some rd \<Rightarrow>
          do {
            (nxt, rd1) \<leftarrow> readerNext ops rd;
            (let cs = newCalls rd rd1 in Some (nxt, release (handlerTasks cs) (dettachCalls i cs (setR i rd1 d))))
          })"

text \<open>A reader either keeps what it owns or is closed.\<close>

definition keepsOwner :: "('i, 'v) reader \<Rightarrow> ('i, 'v) reader \<Rightarrow> bool" where
  "keepsOwner a b \<longleftrightarrow> stmnt a = stmnt b \<and> dbhndlr a = dbhndlr b \<and> rdevnts a = rdevnts b \<and> dsphndlr a = dsphndlr b \<and> calls a = calls b"

lemma keepsOwner_close: "keepsOwner a b \<Longrightarrow> rdClose a = rdClose b"
  by (cases a, cases b) (simp add: keepsOwner_def rdClose_def Let_def split: option.split)

lemma rdColumns_keeps: "rdColumns ops rd = Some (x, rd1) \<Longrightarrow> keepsOwner rd1 rd"
  "rdColumnTypes ops rd = Some (y, rd2) \<Longrightarrow> keepsOwner rd2 rd"
  by (auto simp: rdColumns_def rdColumnTypes_def keepsOwner_def Option.bind_eq_Some_conv split: option.splits)

lemma prepRecord_keeps:
  assumes "prepRecord ops rd = Some (b, rd1)"
  shows "rd1 = rdClose rd \<and> \<not> b \<or> keepsOwner rd1 rd"
proof (cases "rws rd = None \<or> rc rd \<noteq> None")
  case True
  then show ?thesis using assms by (auto simp: prepRecord_def keepsOwner_def split: option.splits)
next
  case False
  then obtain cs rda ts rdb where p: "rdColumns ops rd = Some (cs, rda)" "rdColumnTypes ops rda = Some (ts, rdb)"
      "\<not> b \<and> rd1 = rdClose rdb \<or> keepsOwner rd1 rdb"
    using assms by (auto simp: prepRecord_def keepsOwner_def Option.bind_eq_Some_conv split: if_splits)
  have "keepsOwner rdb rd" using rdColumns_keeps(1) [OF p(1)] rdColumns_keeps(2) [OF p(2)] by (simp add: keepsOwner_def)
  then show ?thesis using p(3) keepsOwner_close by (auto simp: keepsOwner_def)
qed

lemma readerNext_keeps:
  assumes "readerNext ops rd = Some (b, rd1)"
  shows "if b then keepsOwner rd1 rd \<and> theRows rd \<noteq> None else rd1 = rdClose rd"
proof (cases "theRows rd")
  case None
  then show ?thesis using assms by (auto simp: readerNext_def)
next
  case (Some r)
  have k: "rdClose (rd\<lparr>rws := x\<rparr>) = rdClose rd" for x by (rule keepsOwner_close) (simp add: keepsOwner_def)
  have o: "keepsOwner y (rd\<lparr>rws := x\<rparr>) \<Longrightarrow> keepsOwner y rd \<and> rdClose y = rdClose rd" for x y
    using keepsOwner_close [of y rd] by (simp add: keepsOwner_def)
  have t: "prepRecord ops (rd\<lparr>rws := x\<rparr>) = Some (c, y) \<Longrightarrow> y = rdClose rd \<and> \<not> c \<or> keepsOwner y rd \<and> rdClose y = rdClose rd" for x y c
    using prepRecord_keeps [of ops "rd\<lparr>rws := x\<rparr>" c y] o [of y x] k [of x] by metis
  obtain nxt r1 where n: "(case rowSelection (rdevnts rd) of None \<Rightarrow> Next ops r | Some f \<Rightarrow> SelectNext ops (Some f) r) = Some (nxt, r1)"
    using assms Some by (auto simp: readerNext_def Option.bind_eq_Some_conv)
  show ?thesis
  proof (cases nxt)
    case False
    then show ?thesis using assms Some n k by (simp add: readerNext_def)
  next
    case True
    then obtain c y where y: "prepRecord ops (rd\<lparr>rws := Some r1\<rparr>) = Some (c, y)"
        "b \<and> c \<and> rd1 = y \<or> \<not> b \<and> rd1 = rdClose y"
      using assms Some n by (auto simp: readerNext_def Option.bind_eq_Some_conv split: if_splits)
    show ?thesis using t [OF y(1)] y(2) Some by (auto simp: rdClose_idem)
  qed
qed

section \<open>Runs\<close>

text \<open>
  The steps of a program that uses the handlers: making and closing them, queries and executions through them, open or closed, or through the
  \<open>dbms\<close>, moving and closing readers, asking for their events, attaching readers to handlers, detaching them, attaching handlers to readers,
  and the operations of the connections.  Along with the state goes the set of the strays: the readers of queries that went through a
  handler that was closed or nil, and those that somebody has detached from a handler other than by closing them.
\<close>

inductive dstep :: "'w qenv set \<Rightarrow> ('i, 'v) irows_ops \<Rightarrow> ('i, 'v) dstate \<times> nat set \<Rightarrow> ('i, 'v) dstate \<times> nat set \<Rightarrow> bool" for E ops where
  handler: "dstep E ops (d, S) (snd (Handler (a :: 'w sqlarg list) d), S)"
| query: "e \<in> E \<Longrightarrow> handlerQuery e rs h alias q a d = Some ((ro, err), d1) \<Longrightarrow>
    dstep E ops (d, S) (d1, if isOpen d h then S else S \<union> set_option ro)"
| execute: "e \<in> E \<Longrightarrow> handlerExecute e h alias q a d = Some (res, d1) \<Longrightarrow> dstep E ops (d, S) (d1, S)"
| dquery: "e \<in> E \<Longrightarrow> dbmsQuery e rs alias q a d = Some (res, d1) \<Longrightarrow> dstep E ops (d, S) (d1, S)"
| dexecute: "e \<in> E \<Longrightarrow> dbmsExecute e alias q a d = Some (res, d1) \<Longrightarrow> dstep E ops (d, S) (d1, S)"
| move: "nextAt ops i d = Some (b, d1) \<Longrightarrow> dstep E ops (d, S) (d1, S)"
| events: "rdAt d i = Some rd \<Longrightarrow> dstep E ops (d, S) (setR i (rdEvents rd) d, S)"
| attachHandler: "rdAt d i = Some rd \<Longrightarrow> dstep E ops (d, S) (setR i (AttachHandler ho rd) d, S)"
| attachReader: "dstep E ops (d, S) (AttachReader h i d, S)"
| dettachReader: "dstep E ops (d, S) (DettachReaderFrom h i d, insert i S)"
| closeReaderAt: "dstep E ops (d, S) (closeReaderAt i d, S)"
| closeHandler: "dstep E ops (d, S) (closeHandler h d, S)"
| connections: "cstep E (cns d, wld d) (c, w) \<Longrightarrow> dstep E ops (d, S) (d\<lparr>cns := c, wld := w\<rparr>, S)"

text \<open>The statement of a reader has been closed once if it is gone and not at all otherwise.\<close>

definition once :: "('i, 'v) reader \<Rightarrow> bool" where
  "once rd \<longleftrightarrow> count_list (calls rd) StmtClose = (if stmnt rd = None then 1 else 0) \<and> (stmnt rd = None \<longrightarrow> rws rd = None)"

lemma once_close: "once rd \<Longrightarrow> once (rdClose rd)"
  by (auto simp: once_def rdClose_def Let_def split: option.splits)

lemma once_new: "once (newReader r)"
  by (simp add: once_def newReader_def)

lemma once_next:
  assumes "readerNext ops rd = Some (b, rd1)" "once rd"
  shows "once rd1"
proof (cases b)
  case True
  then show ?thesis using readerNext_keeps [OF assms(1)] assms(2) by (auto simp: once_def keepsOwner_def theRows_def split: option.splits)
next
  case False
  then show ?thesis using readerNext_keeps [OF assms(1)] once_close [OF assms(2)] by simp
qed

lemma once_update: "once rd \<Longrightarrow> once (rd\<lparr>dsphndlr := x\<rparr>)" "once rd \<Longrightarrow> once (AttachHandler ho rd)" "once rd \<Longrightarrow> once (rdEvents rd)"
  by (auto simp: once_def AttachHandler_def rdEvents_def split: option.split)

definition handlers_ok :: "nat set \<Rightarrow> ('i, 'v) dstate \<Rightarrow> bool" where
  "handlers_ok S d \<longleftrightarrow> accounted (cns d, wld d) \<and>
     (\<forall>i rd. rdAt d i = Some rd \<longrightarrow> once rd \<and> (stmnt rd \<noteq> None \<longrightarrow> (\<exists>h. i \<in> registeredWith d h) \<or> i \<in> S))"

lemma handlers_okD:
  assumes "handlers_ok S d"
  shows "accounted (cns d, wld d)" "rdAt d i = Some rd \<Longrightarrow> once rd" "rdAt d i = Some rd \<Longrightarrow> stmnt rd \<noteq> None \<Longrightarrow> (\<exists>h. i \<in> registeredWith d h) \<or> i \<in> S"
  using assms unfolding handlers_ok_def by blast+

lemma registered_isOpen: "i \<in> registeredWith d h \<Longrightarrow> isOpen d h"
  by (auto simp: registeredWith_def isOpen_def split: option.splits)

lemma release_ok:
  assumes "handlers_ok S d"
  shows "handlers_ok S (release ts d)"
  unfolding handlers_ok_def
proof (intro conjI allI impI)
  note c = release_closes [of d ts, unfolded closedOff_def]
  show "accounted (cns (release ts d), wld (release ts d))" using assms c by (simp add: handlers_ok_def)
  fix i rd
  assume r: "rdAt (release ts d) i = Some rd"
  then obtain z where "rdAt d i = Some z" "rd = z \<or> rd = rdClose z" using c by (auto split: if_splits)
  then show "once rd" using assms once_close by (auto simp: handlers_ok_def)
  assume s: "stmnt rd \<noteq> None"
  then have n: "\<not> toClose d (set ts) (CloseReader i)" "rdAt d i = Some rd" using r c by (auto split: if_splits)
  have "i \<in> registeredWith (release ts d) h" if h: "i \<in> registeredWith d h" for h
  proof -
    have "\<not> toClose d (set ts) (CloseHandler h)" using n(1) h toClose.registered by metis
    then show ?thesis using c h n(1) by simp
  qed
  then show "(\<exists>h. i \<in> registeredWith (release ts d) h) \<or> i \<in> S" using handlers_okD(3) [OF assms n(2) s] by blast
qed

lemma close_ok: "handlers_ok S d \<Longrightarrow> handlers_ok S (closeReaderAt i d)" "handlers_ok S d \<Longrightarrow> handlers_ok S (closeHandler h d)"
  unfolding closeReaderAt_def closeHandler_def by (rule release_ok, assumption)+

lemma handlers_okI:
  assumes "accounted (cns d, wld d)" "\<And>i rd. rdAt d i = Some rd \<Longrightarrow> once rd"
    "\<And>i rd. rdAt d i = Some rd \<Longrightarrow> stmnt rd \<noteq> None \<Longrightarrow> (\<exists>h. i \<in> registeredWith d h) \<or> i \<in> S"
  shows "handlers_ok S d"
  using assms by (auto simp: handlers_ok_def)

lemma handlers_ok_setR:
  assumes "handlers_ok S d" "rdAt d i = Some rd" "once rd1" "stmnt rd1 = stmnt rd"
  shows "handlers_ok S (setR i rd1 d)"
  using assms by (auto simp: handlers_ok_def split: if_splits)

text \<open>Changes that leave the readers alone and take no reader off a handler.\<close>

lemma handlers_ok_mono:
  assumes "handlers_ok S d" "accounted (cns d1, wld d1)" "rdheap d1 = rdheap d" "\<And>h. registeredWith d h \<subseteq> registeredWith d1 h"
  shows "handlers_ok S d1"
proof -
  have "rdAt d1 = rdAt d" using assms(3) by (simp add: rdAt_def fun_eq_iff)
  then show ?thesis using assms(1,2,4) unfolding handlers_ok_def by (metis subsetD)
qed

lemma nextAt_close: "readerNext ops rd = Some (False, rd1) \<Longrightarrow> rdAt d i = Some rd \<Longrightarrow> nextAt ops i d = Some (False, closeReaderAt i d)"
  using readerNext_keeps [of ops rd False rd1] by (simp add: nextAt_def closeReaderAt_def Let_def)

lemma nextAt_ok:
  assumes "handlers_ok S d" "nextAt ops i d = Some (b, d1)"
  shows "handlers_ok S d1"
proof (cases "rdAt d i")
  case None
  then show ?thesis using assms by (simp add: nextAt_def)
next
  case (Some rd)
  then obtain rd1 where n: "readerNext ops rd = Some (b, rd1)" using assms(2) by (auto simp: nextAt_def Option.bind_eq_Some_conv Let_def)
  show ?thesis
  proof (cases b)
    case True
    then have k: "keepsOwner rd1 rd" using readerNext_keeps [OF n] by simp
    then have "d1 = setR i rd1 d" using assms(2) Some n by (simp add: nextAt_def newCalls_def keepsOwner_def Let_def)
    moreover have "once rd1" using once_next [OF n] assms(1) Some by (simp add: handlers_ok_def)
    ultimately show ?thesis using handlers_ok_setR [OF assms(1) Some] k by (simp add: keepsOwner_def)
  next
    case False
    then have "nextAt ops i d = Some (False, closeReaderAt i d)" using nextAt_close n Some by simp
    then have "d1 = closeReaderAt i d" using assms(2) by simp
    then show ?thesis using close_ok(1) [OF assms(1)] by simp
  qed
qed

lemma AttachReader_simps:
  "rdheap (AttachReader h i d) = rdheap d" "cns (AttachReader h i d) = cns d" "wld (AttachReader h i d) = wld d"
  "registeredWith (AttachReader h i d) k = (if k = h \<and> isOpen d h then insert i (registeredWith d k) else registeredWith d k)"
  by (auto simp: AttachReader_def setH_def storeRdr_def registeredWith_def isOpen_def hAt_def split: option.splits)

lemma modH_fire_simps:
  "rdheap (modH h (fire f c) d) = rdheap d" "cns (modH h (fire f c) d) = cns d" "wld (modH h (fire f c) d) = wld d"
  "registeredWith (modH h (fire f c) d) k = registeredWith d k"
  by (auto simp: modH_def setH_def registeredWith_def hAt_def nth_list_update split: option.splits)

lemma at_update [simp]:
  "registeredWith (d\<lparr>cns := c, wld := w, rdheap := r\<rparr>) h = registeredWith d h" "isOpen (d\<lparr>cns := c, wld := w, rdheap := r\<rparr>) h = isOpen d h"
  "rdAt (d\<lparr>cns := c, wld := w\<rparr>) i = rdAt d i" "hAt (d\<lparr>cns := c, wld := w\<rparr>) h = hAt d h" "hAt (d\<lparr>rdheap := r\<rparr>) h = hAt d h"
  "registeredWith (d\<lparr>cns := c, wld := w\<rparr>) h = registeredWith d h" "registeredWith (d\<lparr>rdheap := r\<rparr>) h = registeredWith d h"
  "isOpen (d\<lparr>cns := c, wld := w\<rparr>) h = isOpen d h" "isOpen (d\<lparr>rdheap := r\<rparr>) h = isOpen d h"
  by (simp_all add: rdAt_def hAt_def registeredWith_def isOpen_def)

text \<open>A new reader that is registered at once.\<close>

lemma handlers_ok_new:
  assumes "handlers_ok S d" "isOpen d h" "accounted (c, w)"
  shows "handlers_ok S (AttachReader h (length (rdheap d)) (d\<lparr>cns := c, wld := w, rdheap := rdheap d @ [newReader r]\<rparr>))"
proof (rule handlers_okI)
  let ?d = "AttachReader h (length (rdheap d)) (d\<lparr>cns := c, wld := w, rdheap := rdheap d @ [newReader r]\<rparr>)"
  have "rdAt ?d i = (if i = length (rdheap d) then Some (newReader r) else rdAt d i)" for i
    by (simp add: AttachReader_simps rdAt_def nth_append)
  moreover have "registeredWith ?d k = (if k = h then insert (length (rdheap d)) (registeredWith d k) else registeredWith d k)" for k
    using assms(2) by (simp add: AttachReader_simps)
  ultimately have g: "rdAt ?d i = (if i = length (rdheap d) then Some (newReader r) else rdAt d i)"
    "registeredWith ?d k = (if k = h then insert (length (rdheap d)) (registeredWith d k) else registeredWith d k)" for i k
    by blast+
  show "accounted (cns ?d, wld ?d)" using assms(3) by (simp add: AttachReader_simps)
  fix i rd
  assume r: "rdAt ?d i = Some rd"
  then show "once rd" using assms(1) g(1) once_new by (auto simp: handlers_ok_def split: if_splits)
  assume "stmnt rd \<noteq> None"
  then show "(\<exists>k. i \<in> registeredWith ?d k) \<or> i \<in> S"
  proof (cases "i = length (rdheap d)")
    case True
    then show ?thesis by (intro disjI1 exI [of _ h]) (simp add: g)
  next
    case False
    then have "(\<exists>k. i \<in> registeredWith d k) \<or> i \<in> S" using handlers_okD(3) [OF assms(1), of i rd] r g(1) \<open>stmnt rd \<noteq> None\<close> by auto
    moreover have "i \<in> registeredWith d k \<Longrightarrow> i \<in> registeredWith ?d k" for k using g(2) [of k] by (cases "k = h") auto
    ultimately show ?thesis by blast
  qed
qed

text \<open>A new reader that nobody registers is a stray.\<close>

lemma handlers_ok_stray:
  assumes "handlers_ok S d" "accounted (c, w)" "\<not> isOpen d h"
  shows "handlers_ok (insert (length (rdheap d)) S) (AttachReader h (length (rdheap d)) (d\<lparr>cns := c, wld := w, rdheap := rdheap d @ [newReader r]\<rparr>))"
proof (rule handlers_okI)
  let ?d = "AttachReader h (length (rdheap d)) (d\<lparr>cns := c, wld := w, rdheap := rdheap d @ [newReader r]\<rparr>)"
  have g: "rdAt ?d i = (if i = length (rdheap d) then Some (newReader r) else rdAt d i)" for i
    by (simp add: AttachReader_simps rdAt_def nth_append)
  have k: "registeredWith ?d k = registeredWith d k" for k using assms(3) by (simp add: AttachReader_simps)
  show "accounted (cns ?d, wld ?d)" using assms(2) by (simp add: AttachReader_simps)
  fix i rd
  assume r: "rdAt ?d i = Some rd"
  then show "once rd" using handlers_okD(2) [OF assms(1), of i rd] g once_new by (auto split: if_splits)
  assume "stmnt rd \<noteq> None"
  then show "(\<exists>h. i \<in> registeredWith ?d h) \<or> i \<in> insert (length (rdheap d)) S"
    using r g k handlers_okD(3) [OF assms(1), of i rd] by (auto split: if_splits)
qed

lemma handlerQuery_ok:
  assumes "handlers_ok S d" "handlerQuery e rs h alias q a d = Some ((ro, err), d1)"
  shows "handlers_ok (if isOpen d h then S else S \<union> set_option ro) d1"
proof (cases "hAt d h")
  case None
  then show ?thesis using assms by (auto simp: handlerQuery_def isOpen_def)
next
  case (Some dh)
  then obtain got er cs c1 w1 where o: "onConn (queryConn e q (handlerArgs dh a)) (False, None) alias (cns d) (wld d) = Some ((got, er), cs, c1, w1)"
    using assms(2) by (auto simp: handlerQuery_def Option.bind_eq_Some_conv)
  have w: "accounted (c1, w1)" by (rule onConn_accounted [OF handlers_okD(1) [OF assms(1)] o queryConn_books])
  have m: "handlers_ok S (d\<lparr>cns := c1, wld := w1\<rparr>)" by (rule handlers_ok_mono [OF assms(1)]) (simp_all add: w)
  have f: "handlers_ok S (modH h (fire QueryError c) (d\<lparr>cns := c1, wld := w1\<rparr>))" for c
    by (rule handlers_ok_mono [OF assms(1)]) (simp_all add: w modH_fire_simps)
  show ?thesis
    using assms(2) Some o m f handlers_ok_new [OF assms(1) _ w] handlers_ok_stray [OF assms(1) w]
    by (auto simp: handlerQuery_def Let_def split: option.splits if_splits)
qed

lemma handlerExecute_ok:
  assumes "handlers_ok S d" "handlerExecute e h alias q a d = Some (res, d1)"
  shows "handlers_ok S d1"
proof (cases "hAt d h")
  case None
  then show ?thesis using assms by (simp add: handlerExecute_def)
next
  case (Some dh)
  then obtain got err cs c1 w1 where o: "onConn (executeConn e q (handlerArgs dh a)) (False, None) alias (cns d) (wld d) = Some ((got, err), cs, c1, w1)"
    using assms(2) by (auto simp: handlerExecute_def Option.bind_eq_Some_conv)
  have acc: "accounted (cns d, wld d)" using assms(1) by (simp add: handlers_ok_def)
  have w: "accounted (c1, w1)" by (rule onConn_accounted [OF acc o executeConn_books])
  have m: "handlers_ok S (d\<lparr>cns := c1, wld := w1\<rparr>)" by (rule handlers_ok_mono [OF assms(1)]) (simp_all add: w)
  have f: "handlers_ok S (modH h (fire ExecuteError c) (d\<lparr>cns := c1, wld := w1\<rparr>))" for c
    by (rule handlers_ok_mono [OF assms(1)]) (simp_all add: w modH_fire_simps)
  show ?thesis using assms(2) Some o m f by (auto simp: handlerExecute_def Let_def split: option.splits)
qed

lemma NewDBMSHandler_open: "h_rdrs (NewDBMSHandler a) = Some []"
proof -
  have "h_rdrs (takeHandlerArg dh x) = h_rdrs dh" for dh and x :: "'a sqlarg" by (cases x) auto
  then have "h_rdrs (foldl takeHandlerArg dh a) = h_rdrs dh" for dh by (induction a arbitrary: dh) auto
  then show ?thesis by (simp add: NewDBMSHandler_def)
qed

lemma Handler_simps:
  assumes "Handler a d = (h, d1)"
  shows "isOpen d1 h" "rdheap d1 = rdheap d" "cns d1 = cns d" "wld d1 = wld d" "registeredWith d1 k = registeredWith d k"
  using assms NewDBMSHandler_open [of a] by (auto simp: Handler_def isOpen_def hAt_def registeredWith_def nth_append)

lemma Handler_ok: "handlers_ok S d \<Longrightarrow> Handler a d = (h, d1) \<Longrightarrow> handlers_ok S d1"
  using Handler_simps [of a d h d1] by (intro handlers_ok_mono [of S d d1]) (simp_all add: handlers_ok_def)

lemma dbmsQuery_ok:
  assumes "handlers_ok S d" "dbmsQuery e rs alias q a d = Some (res, d1)"
  shows "handlers_ok S d1"
proof -
  obtain h d0 where h: "Handler a d = (h, d0)" by force
  then obtain ro err d2 where q: "handlerQuery e rs h alias q a d0 = Some ((ro, err), d2)"
    using assms(2) by (auto simp: dbmsQuery_def Option.bind_eq_Some_conv)
  have ok: "handlers_ok S d2" using handlerQuery_ok [OF Handler_ok [OF assms(1) h] q] Handler_simps(1) [OF h] by simp
  have "handlers_ok S (setR i (rd\<lparr>dsphndlr := True\<rparr>) d2)" if "rdAt d2 i = Some rd" for i rd
    using handlers_ok_setR [OF ok that once_update(1) [OF handlers_okD(2) [OF ok that]]] by simp
  then show ?thesis using assms(2) h q ok by (auto simp: dbmsQuery_def split: if_splits option.splits)
qed

lemma dettach_ok: "handlers_ok S d \<Longrightarrow> handlers_ok (insert i S) (DettachReaderFrom h i d)"
proof (rule handlers_okI)
  assume ok: "handlers_ok S d"
  show "accounted (cns (DettachReaderFrom h i d), wld (DettachReaderFrom h i d))" using handlers_okD(1) [OF ok] by simp
  fix j rd
  assume r: "rdAt (DettachReaderFrom h i d) j = Some rd"
  then show "once rd" using handlers_okD(2) [OF ok] by simp
  assume "stmnt rd \<noteq> None"
  then have "(\<exists>k. j \<in> registeredWith d k) \<or> j \<in> S" using r handlers_okD(3) [OF ok] by simp
  moreover have "j \<noteq> i \<Longrightarrow> j \<in> registeredWith d k \<Longrightarrow> j \<in> registeredWith (DettachReaderFrom h i d) k" for k by (cases "k = h") simp_all
  ultimately show "(\<exists>k. j \<in> registeredWith (DettachReaderFrom h i d) k) \<or> j \<in> insert i S" by blast
qed

lemma dstep_ok: "dstep E ops x y \<Longrightarrow> handlers_ok (snd x) (fst x) \<Longrightarrow> handlers_ok (snd y) (fst y)"
proof (induction rule: dstep.induct)
  case (handler d S a)
  then show ?case using Handler_ok [of S d a] by (cases "Handler a d") simp
next
  case (query e rs h al q a d ro err d1 S)
  then show ?case using handlerQuery_ok [OF _ query(2)] by simp
next
  case (execute e h al q a d res d1 S)
  then show ?case using handlerExecute_ok [of S d] by simp
next
  case (dquery e rs al q a d res d1 S)
  then show ?case using dbmsQuery_ok [of S d] by simp
next
  case (dexecute e al q a d res d1 S)
  obtain h d0 where h: "Handler a d = (h, d0)" by force
  then obtain d2 where d2: "handlerExecute e h al q a d0 = Some (res, d2)" "d1 = closeHandler h d2"
    using dexecute(2) by (auto simp: dbmsExecute_def Option.bind_eq_Some_conv)
  have "handlers_ok S d0" using Handler_ok [of S d a h d0] dexecute(3) h by simp
  then show ?case using handlerExecute_ok [OF _ d2(1)] d2(2) close_ok(2) [of S d2 h] by simp
next
  case (move i d b d1 S)
  then show ?case using nextAt_ok [of S d] by simp
next
  case (events d i rd S)
  then have "handlers_ok S d" by simp
  note r = handlers_ok_setR [OF this events(1) once_update(3) [OF handlers_okD(2) [OF this events(1)]]]
  show ?case using r by (simp add: rdEvents_def split: option.split)
next
  case (attachHandler d i rd S ho)
  then have "handlers_ok S d" by simp
  note r = handlers_ok_setR [OF this attachHandler(1) once_update(2) [OF handlers_okD(2) [OF this attachHandler(1)]]]
  show ?case using r by (simp add: AttachHandler_def)
next
  case (attachReader d S h i)
  then have ok: "handlers_ok S d" by simp
  have "handlers_ok S (AttachReader h i d)"
    using handlers_okD(1) [OF ok] by (intro handlers_ok_mono [OF ok]) (auto simp: AttachReader_simps)
  then show ?case by simp
next
  case (dettachReader d S h i)
  then show ?case using dettach_ok by simp
next
  case (closeReaderAt d S i)
  then show ?case using close_ok(1) by simp
next
  case (closeHandler d S h)
  then show ?case using close_ok(2) by simp
next
  case (connections d c w S)
  then have ok: "handlers_ok S d" by simp
  have "accounted (c, w)" by (rule cstep_accounted [OF connections(1) handlers_okD(1) [OF ok]])
  then show ?case using handlers_ok_mono [OF ok, of "d\<lparr>cns := c, wld := w\<rparr>"] by simp
qed

section \<open>Properties\<close>

text \<open>
  Claim C9: closing is exact, however handlers and readers refer to each other.  \<open>Close\<close> of a handler returns (the model
  is total), and it closes precisely the readers that its registrations and the ownership of handlers lead to, as
  they were before the call, each as if it had been closed alone; all other readers are untouched.  The same calls
  shut the handlers they lead to, and another handler loses exactly those of the closed readers that were attached to
  it without owning it.  Connections and databases stay as they are.
\<close>

theorem close_exact:
  "(\<forall>i. rdAt (closeHandler h d) i = (if toClose d {CloseHandler h} (CloseReader i) then map_option rdClose (rdAt d i) else rdAt d i)) \<and>
   (\<forall>k. isOpen (closeHandler h d) k \<longleftrightarrow> isOpen d k \<and> \<not> toClose d {CloseHandler h} (CloseHandler k)) \<and>
   (\<forall>k. registeredWith (closeHandler h d) k =
      (if toClose d {CloseHandler h} (CloseHandler k) then {}
       else {i \<in> registeredWith d k. \<not> (toClose d {CloseHandler h} (CloseReader i) \<and> detaches d i k)})) \<and>
   cns (closeHandler h d) = cns d \<and> wld (closeHandler h d) = wld d"
  using release_closes [of d "[CloseHandler h]"] unfolding closeHandler_def closedOff_def by simp

text \<open>
  Claim C8: the statement of a reader is closed once, and the handlers keep track of it.  In any run of handlers, queries, executions and
  readers over connections that come and go, a reader that has given up its statement has closed it exactly once; a reader that
  still has one has not closed it, and it is registered with an open handler, whose \<open>Close\<close> will close it, unless it is a stray: its query went through a
  handler that was already closed (the code answers it but registers nothing), or it was detached by a call other than its own \<open>Close\<close>.
  So without strays, when all handlers are closed, the statement of every reader has been closed, once.  Meanwhile every database that was opened is
  held by one connection or has been closed once.  Statements that never get a reader, those of executions and of failed queries, are
  not part of the claim: the code does not close them at all.
\<close>

theorem statements_closed_once:
  assumes "(dstep E ops)\<^sup>*\<^sup>* (\<lparr>rdheap = [], hheap = [], cns = NewConnections ds fs, wld = \<lparr>opened = 0, dbclosed = []\<rparr>\<rparr>, {}) (d, strays)"
    and "rdAt d i = Some rd"
  shows "(if stmnt rd = None then count_list (calls rd) StmtClose = 1
          else count_list (calls rd) StmtClose = 0 \<and> (i \<in> strays \<or> (\<exists>h. isOpen d h \<and> i \<in> registeredWith d h))) \<and>
    mset (heldBy (cns d)) + mset (dbclosed (wld d)) = mset [0..<opened (wld d)]"
proof -
  have "(dstep E ops)\<^sup>*\<^sup>* x y \<Longrightarrow> handlers_ok (snd x) (fst x) \<Longrightarrow> handlers_ok (snd y) (fst y)" for x y
    by (induction rule: rtranclp_induct) (auto intro: dstep_ok)
  moreover have "accounted (NewConnections ds fs, \<lparr>opened = 0, dbclosed = []\<rparr>)"
    by (simp add: accounted_def conns_ok_def heldBy_def NewConnections_def IterMap.Events_def MapIterator_def)
  ultimately have ok: "handlers_ok strays d" using assms(1) by (fastforce simp: handlers_ok_def rdAt_def)
  have "stmnt rd \<noteq> None \<Longrightarrow> i \<in> strays \<or> (\<exists>h. isOpen d h \<and> i \<in> registeredWith d h)"
    using handlers_okD(3) [OF ok assms(2)] registered_isOpen by blast
  then show ?thesis using handlers_okD(1,2) [OF ok] assms(2) by (auto simp: once_def accounted_def)
qed

definition sampleRun :: "(nat memrows dbirows, nat) dstate" where
  "sampleRun = \<lparr>rdheap = [], hheap = [], cns = NewConnections [csvName \<mapsto> sampleDriver] None, wld = \<lparr>opened = 0, dbclosed = []\<rparr>\<rparr>"

theorem statements_closed_once_witness:
  "\<exists>d rd. (dstep {sampleQenv} (dbOps (memorySql [''name'']) 0))\<^sup>*\<^sup>* (sampleRun, {}) (d, {}) \<and> rdAt d 0 = Some rd \<and> stmnt rd = None \<and> count_list (calls rd) StmtClose = 1 \<and>
     heldBy (cns d) = [0] \<and> opened (wld d) = 1"
proof -
  let ?ops = "dbOps (memorySql [''name'']) 0" and ?rows = "dbRows (memRows [[Some (1 :: nat)]])"
  let ?cn = "NewConnection sampleDriver [120] None"
  let ?c1 = "fst (setConn [97] ?cn (cns sampleRun) (wld sampleRun))"
  let ?c2 = "putConn [97] (?cn\<lparr>c_db := Some 0\<rparr>) ?c1" and ?w2 = "\<lparr>opened = 1, dbclosed = []\<rparr>"
  let ?d1 = "sampleRun\<lparr>cns := ?c1, wld := wld sampleRun\<rparr>"
  let ?d2 = "snd (Handler ([] :: nat sqlarg list) ?d1)"
  let ?d3 = "AttachReader 0 0 (?d2\<lparr>cns := ?c2, wld := ?w2, rdheap := [newReader (?rows)]\<rparr>)"
  let ?d4 = "closeHandler 0 ?d3"
  have "Register [97] csvName [120] None (cns sampleRun) (wld sampleRun) = ((True, None), ?c1, wld sampleRun)"
    by (simp add: sampleRun_def Register_def NewConnections_def getConn_def imGet_def MapIterator_def IterMap.Events_def setConn_def imSet_def handled_def emit_def)
  then have s1: "dstep {sampleQenv} ?ops (sampleRun, {}) (?d1, {})" by (intro dstep.connections cstep.register)
  have s2: "dstep {sampleQenv} ?ops (?d1, {}) (?d2, {})" by (rule dstep.handler)
  have g: "getConn ?c1 [97] = Some ?cn"
    by (simp add: sampleRun_def NewConnections_def getConn_def imGet_def MapIterator_def IterMap.Events_def setConn_def imSet_def emit_def smap.load_store Let_def)
  have "\<exists>cs. queryConn sampleQenv [81] (handlerArgs (NewDBMSHandler ([] :: nat sqlarg list)) []) ?cn \<lparr>opened = 0, dbclosed = []\<rparr> = Some ((True, None), cs, ?cn\<lparr>c_db := Some 0\<rparr>, ?w2)"
    by (simp add: queryConn_def nextdb_def NewConnection_def Invoke_def sampleDriver_def sampleQenv_def statementOf_def nextstatement_def
        sqldriver.truncate_def newStatement_def QueryContext_def Let_def)
  then have hq: "handlerQuery sampleQenv (\<lambda>cs. ?rows) 0 [97] [81] [] ?d2 = Some ((Some 0, None), ?d3)"
    using g by (auto simp: handlerQuery_def Handler_def hAt_def onConn_def sampleRun_def Let_def)
  have o: "isOpen ?d2 0" by (simp add: isOpen_def hAt_def Handler_def sampleRun_def NewDBMSHandler_open)
  have s3: "dstep {sampleQenv} ?ops (?d2, {}) (?d3, {})" using dstep.query [OF _ hq, of "{sampleQenv}" ?ops "{}"] o by simp
  have s4: "dstep {sampleQenv} ?ops (?d3, {}) (?d4, {})" by (rule dstep.closeHandler)
  have r: "(dstep {sampleQenv} ?ops)\<^sup>*\<^sup>* (sampleRun, {}) (?d4, {})" by (rule converse_rtranclp_into_rtranclp, rule s1, rule converse_rtranclp_into_rtranclp, rule s2, rule converse_rtranclp_into_rtranclp, rule s3,
        rule r_into_rtranclp, rule s4)
  have "rdAt ?d4 0 = Some (rdClose (newReader (?rows)))"
    by (simp add: closeHandler_def AttachReader_def Handler_def hAt_def rdAt_def setH_def setR_def NewDBMSHandler_def sampleRun_def storeRdr_def
        fire_def closedHandler_def rdClose_tasks rdClose_dettach newReader_def Let_def)
  then obtain rd where rd: "rdAt ?d4 0 = Some rd" "stmnt rd = None" by simp
  have "heldBy ?c2 = [0]"
    by (simp add: sampleRun_def heldBy_def putConn_def setConn_def NewConnections_def MapIterator_def IterMap.Events_def imSet_def emit_def StoreKey_def handlesOf_def Let_def)
  moreover have "cns ?d4 = ?c2" "wld ?d4 = ?w2" using release_closes [of ?d3 "[CloseHandler 0]"]
    by (simp_all add: closedOff_def closeHandler_def AttachReader_simps)
  ultimately obtain d where d: "(dstep {sampleQenv} ?ops)\<^sup>*\<^sup>* (sampleRun, {}) (d, {})" "rdAt d 0 = Some rd" "heldBy (cns d) = [0]" "opened (wld d) = 1"
    using r rd(1) by (intro that [of ?d4]) simp_all
  then show ?thesis
    using rd(2) statements_closed_once [OF d(1) [unfolded sampleRun_def] d(2)] by (intro exI [of _ d] exI [of _ rd]) simp
qed

text \<open>Defect: a handler that has been closed still answers queries, with readers that nobody closes.\<close>

lemma closed_handler_answers:
  assumes "hAt d h = Some dh" "h_rdrs dh = None"
    "onConn (queryConn e q (handlerArgs dh a)) (False, None) alias (cns d) (wld d) = Some ((True, None), cs, c1, w1)"
  shows "handlerQuery e rs h alias q a d =
    Some ((Some (length (rdheap d)), None), d\<lparr>cns := c1, wld := w1, rdheap := rdheap d @ [newReader (rs cs)]\<rparr>)"
proof -
  have "hAt (d\<lparr>cns := c1, wld := w1, rdheap := rdheap d @ [newReader (rs cs)]\<rparr>) h = Some dh" using assms(1) by (auto simp: hAt_def split: if_splits)
  then show ?thesis using assms by (simp add: handlerQuery_def AttachReader_def Let_def)
qed

text \<open>Defect: a reader is not told its handler, so closing it leaves it registered.\<close>

lemma closed_reader_stays_registered:
  assumes "rdAt d i = Some rd" "dbhndlr rd = None"
  shows "registeredWith (closeReaderAt i d) h = registeredWith d h" "rdAt (closeReaderAt i d) i = Some (rdClose rd)"
proof -
  have n: "\<not> disposes d i k" "\<not> detaches d i k" for k using assms by (simp_all add: disposes_def detaches_def)
  have o: "toClose d {CloseReader i} t \<Longrightarrow> t = CloseReader i" for t
    by (induction rule: toClose.induct) (auto simp: n)
  have c: "\<not> toClose d {CloseReader i} (CloseHandler h)" using o by blast
  have e: "{j \<in> registeredWith d h. \<not> (toClose d {CloseReader i} (CloseReader j) \<and> detaches d j h)} = registeredWith d h"
    using o n(2) by blast
  show "registeredWith (closeReaderAt i d) h = registeredWith d h" "rdAt (closeReaderAt i d) i = Some (rdClose rd)"
    using release_closes [of d "[CloseReader i]"] c e assms(1) toClose.root [of "CloseReader i" "{CloseReader i}" d]
    unfolding closeReaderAt_def closedOff_def by simp_all
qed
end
