(* ===== verification/DbRegistry.thy ===== *)
theory DbRegistry
  imports Connections
begin

text \<open>
  The registry of drivers (\<open>src/dbms/drivers.go\<close>) and the configuration of the databases, \<open>Load\<close> and \<open>Unload\<close>
  (\<open>src/dbms/dbms.go\<close>).  A \<open>dbms\<close> holds the drivers and the connections; the connections look their drivers up in the
  same registry.
\<close>

section \<open>Configuration values\<close>

definition asc :: "string \<Rightarrow> sqltext" where
  "asc s = map of_char s"

text \<open>
  A value of a configuration, or an argument, by its dynamic type.  The entries of a map are in no particular order; the order in which
  a \<open>range\<close> visits them is the parameter \<open>ord\<close> of the operations below.
\<close>

datatype cfgval =
    CMap "(sqltext \<times> cfgval) list" | CArr "cfgval list" | CStr sqltext | CStrs "sqltext list"
  | CInvoke "sqltext \<Rightarrow> go_err + bool" | CParse "nat \<Rightarrow> sqltext" | CFsys "sqltext \<rightharpoonup> sqltext" | COther

type_synonym cfg = "(sqltext \<times> cfgval) list"

definition strAt :: "cfg \<Rightarrow> string \<Rightarrow> sqltext" where
  "strAt m k = (case map_of m (asc k) of Some (CStr s) \<Rightarrow> s | _ \<Rightarrow> [])"

section \<open>Drivers\<close>

record drivers =
  dvmap :: "(sqltext, dbdriver) itermap option"
  dfltinvkbl :: "(sqltext \<Rightarrow> (sqltext \<Rightarrow> go_err + bool) option \<times> (nat \<Rightarrow> sqltext) option) option"
  dv_made :: nat

definition NewDrivers :: drivers where
  "NewDrivers = \<lparr>dvmap = Some MapIterator, dfltinvkbl = None, dv_made = 0\<rparr>"

definition DefaultInvokable :: "(sqltext \<Rightarrow> (sqltext \<Rightarrow> go_err + bool) option \<times> (nat \<Rightarrow> sqltext) option) option \<Rightarrow> drivers \<Rightarrow> drivers" where
  "DefaultInvokable f dr = (if f \<noteq> None then dr\<lparr>dfltinvkbl := f\<rparr> else dr)"

fun firstFsys :: "cfgval list \<Rightarrow> (sqltext \<rightharpoonup> sqltext) option" where
  "firstFsys [] = None"
| "firstFsys (CFsys f # a) = Some f"
| "firstFsys (x # a) = firstFsys a"

text \<open>A driver without a function for its placeholders writes none.\<close>

definition NewDriver :: "nat \<Rightarrow> sqltext \<Rightarrow> (sqltext \<Rightarrow> go_err + bool) \<Rightarrow> (nat \<Rightarrow> sqltext) option \<Rightarrow> cfgval list \<Rightarrow> dbdriver" where
  "NewDriver i name invk prs a =
     \<lparr>d_name = name, d_fsys = firstFsys a, d_arg = (case prs of Some p \<Rightarrow> p | None \<Rightarrow> (\<lambda>_. [])), dv_id = i, dv_invoke = Some invk, dv_datasource = []\<rparr>"

fun takeInvokable :: "(sqltext \<Rightarrow> go_err + bool) option \<times> (nat \<Rightarrow> sqltext) option \<Rightarrow> cfgval \<Rightarrow>
    (sqltext \<Rightarrow> go_err + bool) option \<times> (nat \<Rightarrow> sqltext) option" where
  "takeInvokable (invk, prs) (CInvoke f) = (if invk = None then Some f else invk, prs)"
| "takeInvokable (invk, prs) (CParse p) = (invk, if prs = None then Some p else prs)"
| "takeInvokable ip x = ip"

definition invokable :: "drivers \<Rightarrow> sqltext \<Rightarrow> cfgval list \<Rightarrow> (sqltext \<Rightarrow> go_err + bool) option \<times> (nat \<Rightarrow> sqltext) option" where
  "invokable dr alias a =
     (if 0 < length a then foldl takeInvokable (None, None) a
      else (case dfltinvkbl dr of Some f \<Rightarrow> f alias | None \<Rightarrow> (None, None)))"

definition registerDriver :: "sqltext \<Rightarrow> cfgval list \<Rightarrow> drivers \<Rightarrow> dbdriver option \<times> drivers" where
  "registerDriver alias a dr =
     (case dvmap dr of
        None \<Rightarrow> (None, dr)
      | Some m \<Rightarrow>
          (case invokable dr alias a of (invk, prs) \<Rightarrow>
             case invk of
               None \<Rightarrow> (None, dr)
             | Some f \<Rightarrow>
                 (let d = NewDriver (dv_made dr) alias f prs a in
                  (Some d, dr\<lparr>dvmap := Some (imSet blankName m alias d), dv_made := dv_made dr + 1\<rparr>))))"

definition getDriver :: "drivers \<Rightarrow> sqltext \<Rightarrow> dbdriver option" where
  "getDriver dr name = (case dvmap dr of Some m \<Rightarrow> imGet blankName m name | None \<Rightarrow> None)"

text \<open>\<open>Exist\<close> and \<open>Contains\<close> differ on a registry that was closed.\<close>

definition ExistDriver :: "drivers \<Rightarrow> sqltext \<Rightarrow> bool" where
  "ExistDriver dr name = (case dvmap dr of Some m \<Rightarrow> imContains m name | None \<Rightarrow> True)"

definition ContainsDriver :: "drivers \<Rightarrow> sqltext \<Rightarrow> bool" where
  "ContainsDriver dr name = (case dvmap dr of Some m \<Rightarrow> imContains m name | None \<Rightarrow> False)"

definition EmptyDrivers :: "drivers \<Rightarrow> bool" where
  "EmptyDrivers dr = (case dvmap dr of Some m \<Rightarrow> imEmpty m | None \<Rightarrow> True)"

definition clearDrivers :: "drivers \<Rightarrow> drivers" where
  "clearDrivers dr = dr\<lparr>dvmap := map_option imClear (dvmap dr)\<rparr>"

definition driverEvents :: "drivers \<Rightarrow> drivers" where
  "driverEvents dr = dr\<lparr>dvmap := map_option IterMap.Events (dvmap dr)\<rparr>"

definition closeDrivers :: "drivers \<Rightarrow> drivers" where
  "closeDrivers dr = dr\<lparr>dvmap := None\<rparr>"

section \<open>The dbms\<close>

record dbms =
  d_drvrs :: drivers
  cnctns :: connections

text \<open>The connections see the drivers of the registry, as long as they are not closed.\<close>

definition withDrivers :: "drivers \<Rightarrow> connections \<Rightarrow> connections" where
  "withDrivers dr c = (if cmap c = None then c else c\<lparr>drvrs := getDriver dr\<rparr>)"

definition NewDBMS :: "(sqltext \<rightharpoonup> sqltext) option \<Rightarrow> dbms" where
  "NewDBMS fs = \<lparr>d_drvrs = NewDrivers, cnctns = NewConnections (getDriver NewDrivers) fs\<rparr>"

definition putDrivers :: "drivers \<Rightarrow> dbms \<Rightarrow> dbms" where
  "putDrivers dr d = d\<lparr>d_drvrs := dr, cnctns := withDrivers dr (cnctns d)\<rparr>"

section \<open>Load\<close>

text \<open>The first data source that is not empty.\<close>

definition dataSource :: "cfg \<Rightarrow> sqltext" where
  "dataSource m =
     (if strAt m ''datasource'' \<noteq> [] then strAt m ''datasource''
      else if strAt m ''datassrc'' \<noteq> [] then strAt m ''datassrc''
      else if strAt m ''connectionstring'' \<noteq> [] then strAt m ''connectionstring''
      else strAt m ''cnstring'')"

definition loadConn :: "sqltext \<times> cfgval \<Rightarrow> connections \<times> world \<Rightarrow> connections \<times> world" where
  "loadConn e cw =
     (case e of (cnme, cv) \<Rightarrow>
        case cv of
          CMap m \<Rightarrow>
            (if 0 < length m \<and> dataSource m \<noteq> [] \<and> strAt m ''driver'' \<noteq> []
             then snd (Register cnme (strAt m ''driver'') (dataSource m) None (fst cw) (snd cw)) else cw)
        | _ \<Rightarrow> cw)"

fun driverNames :: "cfgval list \<Rightarrow> sqltext list" where
  "driverNames [] = []"
| "driverNames (CStr s # xs) = (if s \<noteq> [] then s # driverNames xs else driverNames xs)"
| "driverNames (x # xs) = driverNames xs"

definition loadDriver :: "sqltext \<times> cfgval \<Rightarrow> drivers \<Rightarrow> drivers" where
  "loadDriver e dr = (case e of (dk, dv) \<Rightarrow> case dv of CArr a \<Rightarrow> (if 0 < length a then snd (registerDriver dk a dr) else dr) | _ \<Rightarrow> dr)"

definition loadDrivers :: "(cfg \<Rightarrow> cfg) \<Rightarrow> cfgval \<Rightarrow> drivers \<Rightarrow> drivers" where
  "loadDrivers ord v dr =
     (case v of
        CMap m \<Rightarrow> fold loadDriver (ord m) dr
      | CArr a \<Rightarrow> fold (\<lambda>n dr. snd (registerDriver n [] dr)) (driverNames a) dr
      | _ \<Rightarrow> dr)"

definition loadConns :: "(cfg \<Rightarrow> cfg) \<Rightarrow> cfgval \<Rightarrow> connections \<times> world \<Rightarrow> connections \<times> world" where
  "loadConns ord v cw = (case v of CMap m \<Rightarrow> fold loadConn (ord m) cw | _ \<Rightarrow> cw)"

definition isConns :: "sqltext \<Rightarrow> bool" where
  "isConns k \<longleftrightarrow> k = asc ''connections'' \<or> k = asc ''conns''"

definition loadEntry :: "(cfg \<Rightarrow> cfg) \<Rightarrow> sqltext \<times> cfgval \<Rightarrow> dbms \<times> world \<Rightarrow> dbms \<times> world" where
  "loadEntry ord e dw =
     (case e of (k, v) \<Rightarrow> case dw of (d, w) \<Rightarrow>
        if isConns k then (let (c, w1) = loadConns ord v (cnctns d, w) in (d\<lparr>cnctns := c\<rparr>, w1))
        else if k = asc ''drivers'' then (putDrivers (loadDrivers ord v (d_drvrs d)) d, w)
        else (d, w))"

text \<open>
  The configuration: the maps among the arguments, the later entries replacing the earlier, and then what the other arguments are as
  JSON, which \<open>marshal\<close> reads.
\<close>

definition mergeCfg :: "cfg \<Rightarrow> cfg \<Rightarrow> cfg" where
  "mergeCfg old new = foldl (\<lambda>m (k, v). AList.update k v m) old new"

fun isMap :: "cfgval \<Rightarrow> bool" where
  "isMap (CMap m) = True"
| "isMap x = False"

fun mapOf :: "cfgval \<Rightarrow> cfg" where
  "mapOf (CMap m) = m"
| "mapOf x = []"

definition configOf :: "(cfgval list \<Rightarrow> cfgval) \<Rightarrow> cfgval list \<Rightarrow> cfg" where
  "configOf marshal a =
     (let maps = foldl (\<lambda>m x. mergeCfg m (mapOf x)) [] a; rest = filter (\<lambda>x. \<not> isMap x) a in
      if rest = [] then maps else mergeCfg maps (mapOf (marshal rest)))"

definition dbmsLoad :: "(cfg \<Rightarrow> cfg) \<Rightarrow> (cfgval list \<Rightarrow> cfgval) \<Rightarrow> cfgval list \<Rightarrow> dbms \<times> world \<Rightarrow> dbms \<times> world" where
  "dbmsLoad ord marshal a dw = fold (loadEntry ord) (ord (configOf marshal a)) dw"

section \<open>Unload\<close>

text \<open>
  \<open>Unload\<close> waits for the event of the map it changes; where the map emits none it waits for ever, which is \<open>None\<close>.  The same is the
  fate of an argument that is no map, which the loop never gets past.  \<open>None\<close> also stands for the panic on a registry that was closed
  before, whose \<open>Events\<close> are nil; the theorem below is about registries that are open.
\<close>

definition unloadConns :: "connections \<times> world \<Rightarrow> (connections \<times> world) option" where
  "unloadConns cw =
     (case cw of (c, w) \<Rightarrow>
        do { m \<leftarrow> cmap c; if emitted (imClose (IterMap.Events m)) = emitted m then None else Some (closeConns c w) })"

definition unloadDrivers :: "drivers \<Rightarrow> drivers option" where
  "unloadDrivers dr =
     do { m \<leftarrow> dvmap dr; if emitted (imClose (IterMap.Events m)) = emitted m then None else Some (closeDrivers dr) }"

fun unloadNames :: "cfgval \<Rightarrow> sqltext list" where
  "unloadNames (CStrs ss) = filter (\<lambda>s. s \<noteq> []) ss"
| "unloadNames (CArr a) = driverNames a"
| "unloadNames x = []"

definition delcons :: "cfg \<Rightarrow> sqltext list" where
  "delcons m = concat (map (\<lambda>(k, v). if isConns k then unloadNames v else []) m)"

definition deldrvrs :: "cfg \<Rightarrow> sqltext list" where
  "deldrvrs m = concat (map (\<lambda>(k, v). if k = asc ''drivers'' then unloadNames v else []) m)"

definition deleteSome :: "sqltext list \<Rightarrow> connections \<times> world \<Rightarrow> (connections \<times> world) option" where
  "deleteSome names cw =
     (case cw of (c, w) \<Rightarrow>
        if names = [] then Some (c, w)
        else do { m \<leftarrow> cmap c; if emitted (imDelete blankName (IterMap.Events m) names) = emitted m then None else Some (deleteConns names c w) })"

definition deleteDrivers :: "sqltext list \<Rightarrow> drivers \<Rightarrow> drivers option" where
  "deleteDrivers names dr =
     (if names = [] then Some dr
      else do { m \<leftarrow> dvmap dr;
                (let m1 = imDelete blankName (IterMap.Events m) names in
                 if emitted m1 = emitted m then None else Some (dr\<lparr>dvmap := Some m1\<rparr>)) })"

definition dbmsUnload :: "(cfg \<Rightarrow> cfg) \<Rightarrow> cfgval list \<Rightarrow> dbms \<times> world \<Rightarrow> (dbms \<times> world) option" where
  "dbmsUnload ord a dw =
     (case dw of (d, w) \<Rightarrow>
        if a = [] \<or> a = [CMap []] then
          do { (c, w1) \<leftarrow> unloadConns (cnctns d, w);
               dr \<leftarrow> unloadDrivers (d_drvrs d);
               Some (d\<lparr>cnctns := c, d_drvrs := dr\<rparr>, w1) }
        else if \<not> list_all isMap a then None
        else
          (let m = ord (foldl (\<lambda>m x. mergeCfg m (mapOf x)) [] a) in
           do { (c, w1) \<leftarrow> deleteSome (delcons m) (cnctns d, w);
                dr \<leftarrow> deleteDrivers (deldrvrs m) (d_drvrs d);
                Some (putDrivers dr (d\<lparr>cnctns := c\<rparr>), w1) }))"

section \<open>The maps\<close>

definition drivers_ok :: "drivers \<Rightarrow> bool" where
  "drivers_ok dr \<longleftrightarrow> (\<exists>m s. dvmap dr = Some m \<and> orgsncmp m = Some s \<and> smap_ok s)"

lemma imGet_set:
  assumes "orgsncmp m = Some s" "smap_ok s" "k \<noteq> []"
  shows "imGet blankName (imSet blankName m k v) n = (if n = k then Some v else imGet blankName m n)"
  using imSet_entries [of m blankName k v] assms
  by (auto simp: imGet_def imSet_def im_ok_def emit_def smap.load_store split: option.splits)

lemma imGet_delete:
  assumes "orgsncmp m = Some s" "smap_ok s"
  shows "imGet blankName (imDelete blankName m names) n = (if n \<in> set names then None else imGet blankName m n)"
    "\<exists>s1. orgsncmp (imDelete blankName m names) = Some s1 \<and> smap_ok s1"
  using assms dropKeys_props [OF assms(2)]
  by (auto simp: imGet_def imDelete_def Let_def filter_empty_conv)


lemma driverNames_nonempty: "[] \<notin> set (driverNames a)"
  by (induction a rule: driverNames.induct) auto



section \<open>Loading\<close>

lemma registerDriver_get:
  assumes "drivers_ok dr" "n \<noteq> []" "dfltinvkbl dr = Some f"
  shows "drivers_ok (snd (registerDriver n [] dr))" "dfltinvkbl (snd (registerDriver n [] dr)) = Some f"
    "k \<noteq> n \<Longrightarrow> getDriver (snd (registerDriver n [] dr)) k = getDriver dr k"
    "fst (f n) = Some g \<Longrightarrow> \<exists>dv. getDriver (snd (registerDriver n [] dr)) n = Some dv \<and> d_name dv = n \<and> dv_invoke dv = Some g"
proof -
  obtain m s where m: "dvmap dr = Some m" "orgsncmp m = Some s" "smap_ok s" using assms(1) by (auto simp: drivers_ok_def)
  obtain i p where ip: "f n = (i, p)" by force
  have o: "\<exists>s1. orgsncmp (imSet blankName m n v) = Some s1 \<and> smap_ok s1" for v
    using m assms(2) smap.wf_store by (auto simp: imSet_def emit_def split: option.split)
  show "drivers_ok (snd (registerDriver n [] dr))" "dfltinvkbl (snd (registerDriver n [] dr)) = Some f"
    "k \<noteq> n \<Longrightarrow> getDriver (snd (registerDriver n [] dr)) k = getDriver dr k"
    "fst (f n) = Some g \<Longrightarrow> \<exists>dv. getDriver (snd (registerDriver n [] dr)) n = Some dv \<and> d_name dv = n \<and> dv_invoke dv = Some g"
    using m ip o assms imGet_set [OF m(2,3) assms(2)]
    by (auto simp: registerDriver_def invokable_def drivers_ok_def getDriver_def NewDriver_def Let_def split: option.split)
qed

lemma loadNames_get:
  assumes "drivers_ok dr" "dfltinvkbl dr = Some f" "[] \<notin> set ns" "n \<in> set ns" "fst (f n) = Some g"
  shows "\<exists>dv. getDriver (fold (\<lambda>n dr. snd (registerDriver n [] dr)) ns dr) n = Some dv \<and> d_name dv = n \<and> dv_invoke dv = Some g"
proof -
  let ?reg = "\<lambda>n dr. snd (registerDriver n [] dr)" and ?has = "\<lambda>dr. \<exists>dv. getDriver dr n = Some dv \<and> d_name dv = n \<and> dv_invoke dv = Some g"
  have keep: "?has dr \<Longrightarrow> drivers_ok dr \<Longrightarrow> dfltinvkbl dr = Some f \<Longrightarrow> [] \<notin> set ks \<Longrightarrow> ?has (fold ?reg ks dr)" for ks dr
  proof (induction ks arbitrary: dr)
    case (Cons k ks)
    have "?has (?reg k dr)" using registerDriver_get(3,4) [OF Cons.prems(2) _ Cons.prems(3), of k] Cons.prems(1,4) assms(5) by (cases "k = n") auto
    then show ?case using Cons registerDriver_get(1,2) [OF Cons.prems(2) _ Cons.prems(3), of k] by auto
  qed simp
  show ?thesis
    using assms(1-4)
  proof (induction ns arbitrary: dr)
    case (Cons k ks)
    have "k \<noteq> []" using Cons.prems(3) by auto
    note r = registerDriver_get [OF Cons.prems(1) this Cons.prems(2)]
    show ?case
    proof (cases "k = n")
      case True
      then show ?thesis using keep [of "?reg n dr" ks] r assms(5) Cons.prems(3) by simp
    next
      case False
      then show ?thesis using Cons.IH [of "?reg k dr"] r Cons.prems by simp
    qed
  qed simp
qed

text \<open>Registering a connection leaves the drivers and the other connections alone.\<close>

lemma getConn_set:
  assumes "conns_ok c" "cmap c \<noteq> None" "al \<noteq> []"
  shows "getConn (fst (setConn al cn c w)) n = (if n = al then Some cn else getConn c n)"
    "getConn (putConn al cn c) n = (if n = al then Some cn else getConn c n)"
proof -
  obtain m s where m: "cmap c = Some m" "orgsncmp m = Some s" "smap_ok s" using assms(1,2) by (auto simp: conns_ok_def)
  show "getConn (fst (setConn al cn c w)) n = (if n = al then Some cn else getConn c n)"
    using m imGet_set [OF m(2,3) assms(3)] by (simp add: setConn_def getConn_def Let_def)
  show "getConn (putConn al cn c) n = (if n = al then Some cn else getConn c n)"
    using m assms(3) by (simp add: putConn_def getConn_def imGet_def smap.load_store)
qed

lemma getConn_delete:
  assumes "conns_ok c"
  shows "getConn (fst (deleteConns names c w)) n = (if n \<in> set names then None else getConn c n)"
proof (cases "cmap c")
  case None
  then show ?thesis by (simp add: deleteConns_def getConn_def)
next
  case (Some m)
  then obtain s where s: "orgsncmp m = Some s" "smap_ok s" using assms by (auto simp: conns_ok_def)
  show ?thesis using Some imGet_delete(1) [OF s] by (simp add: deleteConns_def getConn_def Let_def)
qed

lemma conns_kept [simp]:
  "drvrs (fst (setConn al cn c w)) = drvrs c" "drvrs (putConn al cn c) = drvrs c" "drvrs (fst (deleteConns names c w)) = drvrs c"
  "cmap (fst (setConn al cn c w)) = None \<longleftrightarrow> cmap c = None" "cmap (putConn al cn c) = None \<longleftrightarrow> cmap c = None"
  "cmap (fst (deleteConns names c w)) = None \<longleftrightarrow> cmap c = None"
  by (simp_all add: setConn_def putConn_def deleteConns_def Let_def split: option.split)

lemma Register_result:
  assumes "Register al drv ds fs c w = (res, c1, w1)"
  shows "c1 \<in> {c, fst (deleteConns [al] c w)} \<or> (\<exists>cn. c1 = putConn al cn c \<or> c1 = fst (setConn al cn c w) \<or>
    c1 = fst (setConn al cn (fst (deleteConns [al] c w)) (snd (deleteConns [al] c w))))"
  using assms unfolding Register_def Let_def case_prod_unfold by (auto split: option.splits) (metis fst_conv)+

lemma Register_kept:
  assumes "Register al drv ds fs c w = (res, c1, w1)"
  shows "drvrs c1 = drvrs c" "cmap c1 = None \<longleftrightarrow> cmap c = None"
  using Register_result [OF assms] by auto

lemma Register_others:
  assumes "accounted (c, w)" "Register al drv ds fs c w = (res, c1, w1)" "n \<noteq> al"
  shows "getConn c1 n = getConn c n"
proof (cases "cmap c = None \<or> al = []")
  case True
  then show ?thesis
    using assms(2,3) by (auto simp: Register_def getConn_def imGet_def setConn_def imSet_def Let_def split: option.splits)
next
  case False
  have ok: "conns_ok c" using assms(1) by (simp add: accounted_def)
  have "conns_ok (fst (deleteConns [al] c w))" using deleteConns_accounted [OF assms(1), of "[al]"] by (simp add: accounted_def)
  then show ?thesis
    using Register_result [OF assms(2)] False assms(3) getConn_set [OF ok] getConn_delete [OF ok] getConn_set(1) [of "fst (deleteConns [al] c w)" al]
    by auto
qed

text \<open>The connections of a configuration, in any order.\<close>

lemma loadConn_kept:
  assumes "accounted (c, w)" "loadConn e (c, w) = (c1, w1)"
  shows "accounted (c1, w1)" "drvrs c1 = drvrs c" "cmap c1 = None \<longleftrightarrow> cmap c = None" "n \<noteq> fst e \<Longrightarrow> getConn c1 n = getConn c n"
proof -
  obtain res c2 w2 where r: "Register (fst e) (strAt (mapOf (snd e)) ''driver'') (dataSource (mapOf (snd e))) None c w = (res, c2, w2)"
    by (metis prod_cases3)
  have "(c1, w1) = (c, w) \<or> (c1, w1) = (c2, w2)"
    using assms(2) r by (auto simp: loadConn_def split: cfgval.splits prod.splits if_splits)
  then show "accounted (c1, w1)" "drvrs c1 = drvrs c" "cmap c1 = None \<longleftrightarrow> cmap c = None" "n \<noteq> fst e \<Longrightarrow> getConn c1 n = getConn c n"
    using assms(1) Register_accounted [OF assms(1) r] Register_kept [OF r] Register_others [OF assms(1) r] by auto
qed

lemma loadConn_new:
  assumes "accounted (c, w)" "cmap c \<noteq> None" "al \<noteq> []" "getConn c al = None" "drvrs c (strAt m ''driver'') = Some dv"
    "dataSource m \<noteq> []" "strAt m ''driver'' \<noteq> []"
  shows "\<exists>cn. getConn (fst (loadConn (al, CMap m) (c, w))) al = Some cn \<and> dvr cn = Some dv \<and> datasource cn = dataSource m"
proof -
  have "0 < length m" using assms(7) by (cases m) (auto simp: strAt_def)
  moreover obtain c1 w1 cn where "Register al (strAt m ''driver'') (dataSource m) None c w = ((True, None), c1, w1)"
      "getConn c1 al = Some cn" "dvr cn = Some dv" "datasource cn = dataSource m"
    using Register_new [of c al "strAt m ''driver''" dv "dataSource m" None w] assms by (auto simp: accounted_def)
  ultimately show ?thesis using assms(6,7) by (simp add: loadConn_def)
qed

lemma loadConns_get:
  assumes "accounted (c, w)" "cmap c \<noteq> None" "al \<noteq> []" "getConn c al = None" "drvrs c (strAt m ''driver'') = Some dv"
    "dataSource m \<noteq> []" "strAt m ''driver'' \<noteq> []" "distinct (map fst cs)" "(al, CMap m) \<in> set cs"
  shows "\<exists>cn. getConn (fst (fold loadConn cs (c, w))) al = Some cn \<and> dvr cn = Some dv \<and> datasource cn = dataSource m"
proof -
  have keep: "getConn (fst (fold loadConn ds (c, w))) al = getConn c al" if "accounted (c, w)" "al \<notin> fst ` set ds" for ds c w
    using that
  proof (induction ds arbitrary: c w)
    case (Cons e ds)
    obtain c1 w1 where e: "loadConn e (c, w) = (c1, w1)" by force
    show ?case using Cons.IH [OF loadConn_kept(1) [OF Cons.prems(1) e]] loadConn_kept(4) [OF Cons.prems(1) e, of al] Cons.prems(2) e by auto
  qed simp
  show ?thesis
    using assms(1-5,8,9)
  proof (induction cs arbitrary: c w)
    case (Cons e cs)
    obtain c1 w1 where e: "loadConn e (c, w) = (c1, w1)" by force
    note k = loadConn_kept [OF Cons.prems(1) e]
    show ?case
    proof (cases "e = (al, CMap m)")
      case True
      then show ?thesis
        using keep [OF k(1), of cs] loadConn_new [OF Cons.prems(1-5) assms(6,7)] e Cons.prems(6) by auto
    next
      case False
      then have "al \<in> set (map fst cs)" using Cons.prems(7) by force
      then have "al \<noteq> fst e" using Cons.prems(6) by (metis distinct.simps(2) list.map(2))
      then show ?thesis using Cons.IH [OF k(1)] k(2,3) k(4) [of al] Cons.prems False e by simp
    qed
  qed simp
qed

section \<open>Unloading\<close>



lemma getConn_withDrivers [simp]: "getConn (withDrivers dr c) n = getConn c n" "heldBy (withDrivers dr c) = heldBy c"
  "accounted (withDrivers dr c, w) = accounted (c, w)"
  by (simp_all add: withDrivers_def getConn_def heldBy_def accounted_def conns_ok_def)




section \<open>Properties\<close>

text \<open>
  Claim C10: a configuration that names its drivers before its connections is put into effect.  The drivers are given as a list of
  names, for which the default is asked; every connection of the configuration that has a new name, a data source under one of the
  four keys and one of these drivers is then registered, with that driver and that data source, in whatever order
  the connections are visited and whatever else is registered before or along with it.
\<close>

theorem Load_registers:
  assumes cfg: "ord (configOf marshal a) = [(asc ''drivers'', CArr ns), (asc ''connections'', CMap cs)]"
    and ord: "mset (ord cs) = mset cs" and cs: "distinct (map fst cs)" "(al, CMap m) \<in> set cs"
    and d: "drivers_ok (d_drvrs d)" "dfltinvkbl (d_drvrs d) = Some f" "accounted (cnctns d, w)" "cmap (cnctns d) \<noteq> None"
    and al: "al \<noteq> []" "getConn (cnctns d) al = None" "dataSource m \<noteq> []" "strAt m ''driver'' \<in> set (driverNames ns)"
    and f: "fst (f (strAt m ''driver'')) = Some g"
  shows "\<exists>cn dv. getConn (cnctns (fst (dbmsLoad ord marshal a (d, w)))) al = Some cn \<and> dvr cn = Some dv \<and> datasource cn = dataSource m \<and>
    d_name dv = strAt m ''driver'' \<and> dv_invoke dv = Some g"
proof -
  let ?dr = "loadDrivers ord (CArr ns) (d_drvrs d)" and ?n = "strAt m ''driver''"
  let ?c = "withDrivers ?dr (cnctns d)"
  obtain dv where dv: "getDriver ?dr ?n = Some dv" "d_name dv = ?n" "dv_invoke dv = Some g"
    using loadNames_get [OF d(1,2) driverNames_nonempty al(4) f] by (auto simp: loadDrivers_def)
  have "accounted (?c, w)" "getConn ?c al = None" using d(3) al(2) by simp_all
  moreover have "cmap ?c \<noteq> None" "drvrs ?c ?n = Some dv" using d(4) dv(1) by (auto simp: withDrivers_def)
  moreover have "?n \<noteq> []" using al(4) driverNames_nonempty [of ns] by auto
  ultimately have c: "accounted (?c, w)" "cmap ?c \<noteq> None" "getConn ?c al = None" "drvrs ?c ?n = Some dv" "?n \<noteq> []" by blast+
  have "distinct (map fst (ord cs))" "(al, CMap m) \<in> set (ord cs)"
    using ord cs by (metis mset_eq_imp_distinct_iff mset_map, metis mset_eq_setD)
  then obtain cn where "getConn (fst (fold loadConn (ord cs) (?c, w))) al = Some cn" "dvr cn = Some dv" "datasource cn = dataSource m"
    using loadConns_get [OF c(1,2) al(1) c(3,4) al(3) c(5)] by blast
  moreover have "cnctns (fst (dbmsLoad ord marshal a (d, w))) = fst (fold loadConn (ord cs) (?c, w))"
    by (simp add: dbmsLoad_def cfg loadEntry_def isConns_def asc_def putDrivers_def loadConns_def Let_def split: prod.split)
  ultimately show ?thesis using dv by auto
qed

definition sampleSettings :: cfg where
  "sampleSettings = [(asc ''driver'', CStr (asc ''pg'')), (asc ''cnstring'', CStr (asc ''host''))]"

definition sampleConfig :: cfg where
  "sampleConfig = [(asc ''drivers'', CArr [COther, CStr (asc ''pg'')]), (asc ''connections'', CMap [(asc ''b'', COther), (asc ''a'', CMap sampleSettings)])]"

definition sampleDbms :: dbms where
  "sampleDbms = putDrivers (DefaultInvokable (Some (\<lambda>n. (Some (\<lambda>ds. Inr True), None))) NewDrivers) (NewDBMS None)"

lemma sampleDbms_ok:
  "drivers_ok (d_drvrs sampleDbms)" "dfltinvkbl (d_drvrs sampleDbms) = Some (\<lambda>n. (Some (\<lambda>ds. Inr True), None))" "cmap (cnctns sampleDbms) \<noteq> None"
  "getConn (cnctns sampleDbms) n = None" "accounted (cnctns sampleDbms, \<lparr>opened = 0, dbclosed = []\<rparr>)"
  by (simp_all add: sampleDbms_def putDrivers_def DefaultInvokable_def NewDBMS_def NewDrivers_def drivers_ok_def smap_ok_def withDrivers_def NewConnections_def
      MapIterator_def IterMap.Events_def getConn_def imGet_def accounted_def conns_ok_def heldBy_def Load_def)

theorem Load_registers_witness:
  "\<exists>cn dv. getConn (cnctns (fst (dbmsLoad id (\<lambda>_. COther) [CMap sampleConfig] (sampleDbms, \<lparr>opened = 0, dbclosed = []\<rparr>)))) (asc ''a'') = Some cn \<and>
     dvr cn = Some dv \<and> datasource cn = asc ''host'' \<and> d_name dv = asc ''pg''"
proof -
  have cfg: "id (configOf (\<lambda>_. COther) [CMap sampleConfig]) =
      [(asc ''drivers'', CArr [COther, CStr (asc ''pg'')]), (asc ''connections'', CMap [(asc ''b'', COther), (asc ''a'', CMap sampleSettings)])]"
    by (simp add: configOf_def mergeCfg_def sampleConfig_def asc_def)
  have m: "strAt sampleSettings ''driver'' = asc ''pg''" "dataSource sampleSettings = asc ''host''"
    by (simp_all add: strAt_def dataSource_def sampleSettings_def asc_def)
  have "distinct (map fst [(asc ''b'', COther), (asc ''a'', CMap sampleSettings)])" by (simp add: asc_def)
  then show ?thesis
    using Load_registers [where ord = id and f = "\<lambda>n. (Some (\<lambda>ds. Inr True), None)", OF cfg _ _ _ sampleDbms_ok(1,2,5,3), of "asc ''a''" sampleSettings] sampleDbms_ok(4) m by (auto simp: asc_def)
qed




section \<open>Defects\<close>

text \<open>
  Defect: the entries of a configuration are visited in the order of a Go map, which is not fixed.  If the connections come first, their
  drivers are not there yet and they are dropped without notice.
\<close>

lemma Load_order_matters:
  assumes "ord (configOf marshal a) = [(asc ''connections'', CMap [(al, CMap m)]), (asc ''drivers'', v)]" "ord [(al, CMap m)] = [(al, CMap m)]"
    "drvrs (cnctns d) (strAt m ''driver'') = None" "getConn (cnctns d) al = None"
  shows "getConn (cnctns (fst (dbmsLoad ord marshal a (d, w)))) al = None"
proof -
  have "snd (Register al (strAt m ''driver'') (dataSource m) None (cnctns d) w) = (cnctns d, w)"
    using assms(3,4) by (simp add: Register_def split: option.split)
  then show ?thesis
    using assms by (simp add: dbmsLoad_def loadEntry_def isConns_def asc_def putDrivers_def loadConns_def loadConn_def Let_def split: prod.split)
qed

text \<open>Defect: a registry of drivers that was closed has every driver, according to \<open>Exist\<close>, and none according to \<open>Contains\<close>.\<close>

lemma closed_drivers_exist: "ExistDriver (closeDrivers dr) n \<and> \<not> ContainsDriver (closeDrivers dr) n"
  by (simp add: ExistDriver_def ContainsDriver_def closeDrivers_def)

text \<open>Defect: an argument of \<open>Unload\<close> that is no map, such as a piece of JSON that \<open>Load\<close> accepts, is never got past.\<close>

lemma Unload_json_hangs: "\<not> isMap x \<Longrightarrow> dbmsUnload ord [x] (d, w) = None"
  by (cases x) (simp_all add: dbmsUnload_def)

end
