(* ===== verification/MultiFs.thy ===== *)
theory MultiFs
  imports Prelude
begin

text \<open>
  Finding a file among mounted file systems (\<open>src/fs/multifilesys.go\<close>).  The mount table and the file systems are
  arguments: \<open>mnt\<close> is the lookup of a mount point, \<open>st\<close> what a file system answers for the rest of the path.  Lookups are pure
  functions: what a file system puts into its cache while it answers is not carried on to the next lookup of the same search.  Paths
  are byte strings.  The loops work on a path and a length \<open>pthl\<close> that the code keeps beside it.
\<close>

section \<open>Paths\<close>

abbreviation sep :: char where "sep \<equiv> CHR ''/''"

text \<open>\<open>filepath.Ext\<close>.\<close>

definition fileExt :: "string \<Rightarrow> string" where
  "fileExt p =
     (let nm = takeWhile (\<lambda>c. c \<noteq> sep) (rev p) in
      if CHR ''.'' \<in> set nm then CHR ''.'' # rev (takeWhile (\<lambda>c. c \<noteq> CHR ''.'') nm) else '''')"

text \<open>Whether the path goes up at position \<open>pn\<close>.\<close>

definition upAt :: "string \<Rightarrow> nat \<Rightarrow> nat \<Rightarrow> bool" where
  "upAt p pthl pn \<longleftrightarrow> pn + 4 < pthl \<and> take 4 (drop pn p) = ''/../''"

definition stripOnce :: "string \<Rightarrow> nat \<Rightarrow> string" where
  "stripOnce p pn = take (pn + 1) p @ drop (pn + 4) p"

text \<open>The loop at \<open>strip\<close>: it removes three bytes and shortens the length by four.\<close>

function stripUp :: "string \<Rightarrow> nat \<Rightarrow> nat \<Rightarrow> string \<times> nat" where
  "stripUp p pthl pn = (if upAt p pthl pn then stripUp (stripOnce p pn) (pthl - 4) pn else (p, pthl))"
  by pat_completeness auto

termination
  by (relation "measure (\<lambda>(p, pthl, pn). pthl)") (auto simp: upAt_def)

declare stripUp.simps [simp del]

section \<open>The search\<close>

text \<open>The mount point that ends at the slash at position \<open>k\<close>.\<close>

definition lookupAt :: "(string \<rightharpoonup> 'f) \<Rightarrow> ('f \<Rightarrow> string \<Rightarrow> 'i option) \<Rightarrow> string \<Rightarrow> nat \<Rightarrow> 'i option" where
  "lookupAt mnt st p k = Option.bind (mnt (take (if k = 0 then 1 else k) p)) (\<lambda>f. st f (drop k p))"

text \<open>
  At a slash from the front: the part after \<open>retry\<close>.  Once everything that goes up has been stripped there is one more try.
\<close>

definition tryFront :: "(string \<rightharpoonup> 'f) \<Rightarrow> ('f \<Rightarrow> string \<Rightarrow> 'i option) \<Rightarrow> string \<Rightarrow> nat \<Rightarrow> nat \<Rightarrow> 'i + string \<times> nat" where
  "tryFront mnt st p pthl pn =
     (case lookupAt mnt st p pn of
        Some fi \<Rightarrow> Inl fi
      | None \<Rightarrow>
          (if upAt p pthl pn then
             (case stripUp p pthl pn of (p1, pthl1) \<Rightarrow>
                (case lookupAt mnt st p1 pn of Some fi \<Rightarrow> Inl fi | None \<Rightarrow> Inr (p1, pthl1)))
           else Inr (p, pthl)))"

text \<open>
  At a slash from the back: the part after \<open>retrytpn\<close> and the loop that goes on to the slash before.  \<open>BackEnd\<close> is that this loop
  has met \<open>pn\<close>, which ends the search; \<open>BackOn\<close> that going up has moved behind \<open>pn\<close>.
\<close>

datatype 'i backres = BackFound 'i | BackEnd | BackOn

function backTry :: "(string \<rightharpoonup> 'f) \<Rightarrow> ('f \<Rightarrow> string \<Rightarrow> 'i option) \<Rightarrow> string \<Rightarrow> nat \<Rightarrow> nat \<Rightarrow> 'i backres"
  and backScan :: "(string \<rightharpoonup> 'f) \<Rightarrow> ('f \<Rightarrow> string \<Rightarrow> 'i option) \<Rightarrow> string \<Rightarrow> nat \<Rightarrow> nat \<Rightarrow> 'i backres" where
  "backTry mnt st p pn tpn =
     (if 3 < tpn \<and> take 4 (drop (tpn - 3) p) = ''/../'' then backTry mnt st p pn (tpn - 3)
      else
        (case Option.bind (mnt (take tpn p)) (\<lambda>f. st f (drop tpn p)) of
           Some fi \<Rightarrow> BackFound fi
         | None \<Rightarrow> (if pn < tpn then backScan mnt st p pn (tpn - 1) else BackOn)))"
| "backScan mnt st p pn tpn =
     (if tpn \<le> pn then BackEnd
      else if p ! tpn = sep then backTry mnt st p pn tpn
      else backScan mnt st p pn (tpn - 1))"
  by pat_completeness auto

termination
  by (relation "measure (\<lambda>x. case x of Inl (mnt, st, p, pn, tpn) \<Rightarrow> 2 * tpn | Inr (mnt, st, p, pn, tpn) \<Rightarrow> 2 * tpn + 1)") auto

declare backTry.simps [simp del] backScan.simps [simp del]

lemma upAt_bound: "upAt p pthl pn \<Longrightarrow> pn + 4 < pthl"
  by (simp add: upAt_def)

lemma stripUp_shorter: "stripUp p pthl pn = (p1, pthl1) \<Longrightarrow> pthl1 \<le> pthl"
proof (induction p pthl pn rule: stripUp.induct)
  case (1 p pthl pn)
  then show ?case by (subst (asm) (2) stripUp.simps) (auto split: if_splits)
qed

lemma tryFront_shorter: "tryFront mnt st p pthl pn = Inr (p1, pthl1) \<Longrightarrow> pthl1 \<le> pthl"
  by (auto simp: tryFront_def dest: stripUp_shorter split: option.splits if_splits prod.splits)

function statLoop :: "(string \<rightharpoonup> 'f) \<Rightarrow> ('f \<Rightarrow> string \<Rightarrow> 'i option) \<Rightarrow> string \<Rightarrow> nat \<Rightarrow> nat \<Rightarrow> 'i option" where
  "statLoop mnt st p pthl pn =
     (if pn < pthl then
        (case (if p ! pn = sep then tryFront mnt st p pthl pn else Inr (p, pthl)) of
           Inl fi \<Rightarrow> Some fi
         | Inr (p1, pthl1) \<Rightarrow>
             (let tpn = pthl1 - (pn + 1) in
              if pn < tpn \<and> p1 ! tpn = sep then
                (case backTry mnt st p1 pn tpn of
                   BackFound fi \<Rightarrow> Some fi
                 | BackEnd \<Rightarrow> None
                 | BackOn \<Rightarrow> statLoop mnt st p1 pthl1 (pn + 1))
              else statLoop mnt st p1 pthl1 (pn + 1)))
      else None)"
  by pat_completeness auto

termination
proof (relation "measure (\<lambda>(mnt, st, p, pthl, pn). pthl - pn)", goal_cases)
  case (2 mnt st p pthl pn x p1 pthl1 tpn)
  then show ?case using tryFront_shorter [of mnt st p pthl pn p1 pthl1] by (auto split: if_splits)
next
  case (3 mnt st p pthl pn x p1 pthl1 tpn)
  then show ?case using tryFront_shorter [of mnt st p pthl pn p1 pthl1] by (auto split: if_splits)
qed simp

declare statLoop.simps [simp del]

text \<open>
  \<open>StatContext\<close>, and \<open>Exist\<close> (\<open>fsExist\<close>), which runs the same loop on the path as it is.  The test for a leading \<open>./\<close> comes after a slash has been
  put in front and never holds.
\<close>

definition StatContext :: "(string \<rightharpoonup> 'f) \<Rightarrow> ('f \<Rightarrow> string \<Rightarrow> 'i option) \<Rightarrow> string \<Rightarrow> 'i option" where
  "StatContext mnt st path =
     (if path = '''' then None
      else
        (let p1 = (if path ! 0 \<noteq> sep then sep # path else path);
             p2 = (if fileExt p1 = '''' \<and> last p1 \<noteq> sep then p1 @ [sep] else p1);
             p3 = (if 2 \<le> length p2 \<and> take 2 p2 = ''./'' then drop 1 p2 else p2) in
         statLoop mnt st p3 (length p3) 0))"

definition fsExist :: "(string \<rightharpoonup> 'f) \<Rightarrow> ('f \<Rightarrow> string \<Rightarrow> bool) \<Rightarrow> string \<Rightarrow> bool" where
  "fsExist mnt ex path =
     (if path = '''' then False
      else statLoop mnt (\<lambda>f r. if ex f r then Some () else None) path (length path) 0 \<noteq> None)"

text \<open>\<open>OpenContext\<close> looks from both ends; from the front the mount point includes the slash.  An empty path is indexed at zero.\<close>

fun openLoop :: "(string \<rightharpoonup> 'f) \<Rightarrow> ('f \<Rightarrow> string \<Rightarrow> 'i option) \<Rightarrow> string \<Rightarrow> string \<Rightarrow> nat list \<Rightarrow> 'i option" where
  "openLoop mnt op prfx p [] = None"
| "openLoop mnt op prfx p (pri # is) =
     (let k = length p - (pri + 1);
          front = (if p ! pri = sep then Option.bind (mnt (prfx @ take (pri + 1) p)) (\<lambda>f. op f (drop pri p)) else None);
          rear = (if p ! k = sep then Option.bind (mnt (prfx @ take k p)) (\<lambda>f. op f (drop k p)) else None) in
      case front of
        Some fl \<Rightarrow> Some fl
      | None \<Rightarrow> (case rear of Some fl \<Rightarrow> Some fl | None \<Rightarrow> openLoop mnt op prfx p is))"

definition OpenContext :: "(string \<rightharpoonup> 'f) \<Rightarrow> ('f \<Rightarrow> string \<Rightarrow> 'i option) \<Rightarrow> string \<Rightarrow> 'i option option" where
  "OpenContext mnt op path =
     do { c \<leftarrow> go_index path 0;
          Some (openLoop mnt op (if c = sep then '''' else [sep]) path [0..<length path]) }"

text \<open>\<open>Set\<close>: the file system of the directory, or of the nearest directory above; the result is its mount point and the path it gets.\<close>

definition dirOf :: "string \<Rightarrow> string" where
  "dirOf p = rev (dropWhile (\<lambda>c. c \<noteq> sep) (rev p))"

fun setLoop :: "(string \<rightharpoonup> 'f) \<Rightarrow> string \<Rightarrow> string \<Rightarrow> nat list \<Rightarrow> (string \<times> string) option" where
  "setLoop mnt root path [] = None"
| "setLoop mnt root path (n # ns) =
     (let k = length root - (n + 1) in
      if root ! k = sep \<and> mnt (take k root) \<noteq> None then Some (take k root, drop k path) else setLoop mnt root path ns)"

text \<open>A path with its leading slash, and the directory of such a path without its last slash.\<close>

definition keyOf :: "string \<Rightarrow> string" where
  "keyOf p = (if p ! 0 \<noteq> sep then sep # p else p)"

definition setRoot :: "string \<Rightarrow> string" where
  "setRoot p =
     (let root = dirOf p in if root \<noteq> ''/'' \<and> root ! 0 = sep \<and> last root = sep then butlast root else root)"

definition setTarget :: "(string \<rightharpoonup> 'f) \<Rightarrow> string \<Rightarrow> (string \<times> string) option" where
  "setTarget mnt path =
     (if path = '''' then None
      else
        (let p = keyOf path; root = setRoot p in
         if mnt root \<noteq> None then Some (root, drop (length root) p)
         else setLoop mnt root p [0..<length root]))"

section \<open>Every mount point is tried\<close>

text \<open>A path that never goes up.\<close>

definition level :: "string \<Rightarrow> bool" where
  "level p \<longleftrightarrow> (\<forall>k < length p. take 4 (drop k p) \<noteq> ''/../'')"

lemma level_at: "level p \<Longrightarrow> take 4 (drop k p) \<noteq> ''/../''"
  by (cases "k < length p") (auto simp: level_def)

lemma level_front: "level p \<Longrightarrow> tryFront mnt st p pthl pn = (case lookupAt mnt st p pn of Some fi \<Rightarrow> Inl fi | None \<Rightarrow> Inr (p, pthl))"
  by (simp add: tryFront_def upAt_def level_at)

definition misses :: "(string \<rightharpoonup> 'f) \<Rightarrow> ('f \<Rightarrow> string \<Rightarrow> 'i option) \<Rightarrow> string \<Rightarrow> (nat \<Rightarrow> bool) \<Rightarrow> bool" where
  "misses mnt st p K \<longleftrightarrow> (\<forall>k < length p. K k \<and> p ! k = sep \<longrightarrow> lookupAt mnt st p k = None)"

definition hits :: "(string \<rightharpoonup> 'f) \<Rightarrow> ('f \<Rightarrow> string \<Rightarrow> 'i option) \<Rightarrow> string \<Rightarrow> 'i \<Rightarrow> bool" where
  "hits mnt st p fi \<longleftrightarrow> (\<exists>k < length p. p ! k = sep \<and> lookupAt mnt st p k = Some fi)"

lemma back_level:
  "level p \<Longrightarrow> 0 < tpn \<Longrightarrow> backTry mnt st p pn tpn =
    (case lookupAt mnt st p tpn of Some fi \<Rightarrow> BackFound fi | None \<Rightarrow> (if pn < tpn then backScan mnt st p pn (tpn - 1) else BackOn))"
  by (subst backTry.simps) (simp add: level_at lookupAt_def)

definition back_ok :: "(string \<rightharpoonup> 'f) \<Rightarrow> ('f \<Rightarrow> string \<Rightarrow> 'i option) \<Rightarrow> string \<Rightarrow> nat \<Rightarrow> nat \<Rightarrow> 'i backres \<Rightarrow> bool" where
  "back_ok mnt st p pn tpn r =
     (case r of BackFound fi \<Rightarrow> hits mnt st p fi | BackEnd \<Rightarrow> misses mnt st p (\<lambda>k. pn < k \<and> k \<le> tpn) | BackOn \<Rightarrow> False)"

lemma back_ok_extend:
  assumes "back_ok mnt st p pn tpn r" "p ! Suc tpn = sep \<longrightarrow> lookupAt mnt st p (Suc tpn) = None"
  shows "back_ok mnt st p pn (Suc tpn) r"
  using assms by (auto simp: back_ok_def misses_def le_Suc_eq split: backres.splits)

lemma backScan_level:
  assumes "level p"
  shows "tpn < length p \<Longrightarrow> back_ok mnt st p pn tpn (backScan mnt st p pn tpn)"
proof (induction tpn)
  case 0
  then show ?case by (subst backScan.simps) (simp add: back_ok_def misses_def)
next
  case (Suc tpn)
  show ?case
  proof (cases "Suc tpn \<le> pn")
    case True
    then show ?thesis by (subst backScan.simps) (auto simp: back_ok_def misses_def)
  next
    case False
    show ?thesis
    proof (cases "p ! Suc tpn = sep \<and> lookupAt mnt st p (Suc tpn) \<noteq> None")
      case True
      then show ?thesis
        using False Suc.prems back_level [OF assms, of "Suc tpn" mnt st pn]
        by (subst backScan.simps) (auto simp: back_ok_def hits_def)
    next
      case miss: False
      then have "backScan mnt st p pn (Suc tpn) = backScan mnt st p pn tpn"
        using False back_level [OF assms, of "Suc tpn" mnt st pn] by (subst backScan.simps) auto
      then show ?thesis using back_ok_extend [OF Suc.IH] Suc.prems miss by auto
    qed
  qed
qed

lemma backTry_level:
  assumes "level p" "pn < tpn" "tpn < length p" "p ! tpn = sep"
  shows "back_ok mnt st p pn tpn (backTry mnt st p pn tpn)"
  using assms(2-4) backScan_level [OF assms(1,3), of mnt st pn] by (subst (asm) backScan.simps) simp

text \<open>What has been tried before position \<open>pn\<close>: the slashes in front of it and their mirror images.\<close>

lemma statLoop_level:
  assumes "level p" "misses mnt st p (\<lambda>k. k < pn \<or> length p \<le> k + pn)"
  shows "case statLoop mnt st p (length p) pn of Some fi \<Rightarrow> hits mnt st p fi | None \<Rightarrow> misses mnt st p (\<lambda>k. True)"
  using assms(2)
proof (induction "length p - pn" arbitrary: pn rule: less_induct)
  case less
  show ?case
  proof (cases "pn < length p")
    case False
    then show ?thesis using less.prems by (subst statLoop.simps) (simp add: misses_def)
  next
    case pn: True
    show ?thesis
    proof (cases "p ! pn = sep \<and> lookupAt mnt st p pn \<noteq> None")
      case True
      then show ?thesis using pn by (subst statLoop.simps) (auto simp: level_front [OF assms(1)] hits_def)
    next
      case miss: False
      let ?t = "length p - (pn + 1)"
      have m: "misses mnt st p (\<lambda>k. k \<le> pn \<or> length p \<le> k + pn)"
        using less.prems miss by (auto simp: misses_def le_less)
      have step: "statLoop mnt st p (length p) pn =
          (if pn < ?t \<and> p ! ?t = sep then
             (case backTry mnt st p pn ?t of BackFound fi \<Rightarrow> Some fi | BackEnd \<Rightarrow> None | BackOn \<Rightarrow> statLoop mnt st p (length p) (pn + 1))
           else statLoop mnt st p (length p) (pn + 1))"
        using pn miss by (subst statLoop.simps) (auto simp: level_front [OF assms(1)])
      show ?thesis
      proof (cases "pn < ?t \<and> p ! ?t = sep")
        case True
        then have b: "back_ok mnt st p pn ?t (backTry mnt st p pn ?t)" using backTry_level [OF assms(1), of pn ?t mnt st] pn by simp
        have all: "k \<le> pn \<or> length p \<le> k + pn \<or> pn < k \<and> k \<le> ?t" for k by linarith
        show ?thesis
        proof (cases "backTry mnt st p pn ?t")
          case (BackFound fi)
          then show ?thesis using b step True by (simp add: back_ok_def)
        next
          case BackEnd
          then have "misses mnt st p (\<lambda>k. True)" using b m all by (fastforce simp: back_ok_def misses_def)
          then show ?thesis using step True BackEnd by simp
        qed (use b in \<open>simp add: back_ok_def\<close>)
      next
        case False
        have "misses mnt st p (\<lambda>k. k < pn + 1 \<or> length p \<le> k + (pn + 1))"
          unfolding misses_def
        proof (intro allI impI)
          fix k
          assume k: "k < length p" "(k < pn + 1 \<or> length p \<le> k + (pn + 1)) \<and> p ! k = sep"
          then consider "k \<le> pn \<or> length p \<le> k + pn" | "k = ?t" "pn < k" by linarith
          then show "lookupAt mnt st p k = None" using k m False by cases (auto simp: misses_def)
        qed
        moreover have "statLoop mnt st p (length p) pn = statLoop mnt st p (length p) (pn + 1)" using step False by (simp only: if_False)
        ultimately show ?thesis using less.hyps [of "pn + 1"] pn by simp
      qed
    qed
  qed
qed

text \<open>The path as it is searched.\<close>

definition searched :: "string \<Rightarrow> string" where
  "searched path =
     (let p1 = (if path ! 0 \<noteq> sep then sep # path else path) in if fileExt p1 = '''' \<and> last p1 \<noteq> sep then p1 @ [sep] else p1)"

lemma searched_front: "path \<noteq> '''' \<Longrightarrow> \<exists>p. searched path = sep # p"
  by (cases path) (auto simp: searched_def Let_def)

lemma StatContext_searched: "path \<noteq> '''' \<Longrightarrow> StatContext mnt st path = statLoop mnt st (searched path) (length (searched path)) 0"
proof -
  assume "path \<noteq> ''''"
  moreover from searched_front [OF this] have "take 2 (searched path) \<noteq> ''./''" by auto
  ultimately show ?thesis unfolding StatContext_def searched_def [symmetric] Let_def
    by (simp add: searched_def Let_def)
qed

text \<open>
  Claim C18: looking for a file among mounted file systems is complete and sound.  For a path that is not empty and has no \<open>/../\<close>, and file
  systems whose answer to a lookup does not depend on the lookups before it, \<open>StatContext\<close> returns; it finds a file exactly if one of the mount
  points that end at a slash of the path has a file system with a file for the rest of the path, and what it returns is the answer of
  such a file system.  Paths that go up are not covered: the search strips them and tries again with what is left.
\<close>

theorem StatContext_finds:
  assumes "path \<noteq> ''''" "level (searched path)"
  shows "(StatContext mnt st path \<noteq> None) =
      (\<exists>k < length (searched path). searched path ! k = sep \<and> lookupAt mnt st (searched path) k \<noteq> None) \<and>
    (\<forall>fi. StatContext mnt st path = Some fi \<longrightarrow>
      (\<exists>k < length (searched path). searched path ! k = sep \<and> lookupAt mnt st (searched path) k = Some fi))"
proof -
  have "misses mnt st (searched path) (\<lambda>k. k < 0 \<or> length (searched path) \<le> k + 0)" by (simp add: misses_def)
  from statLoop_level [OF assms(2) this] show ?thesis
    unfolding StatContext_searched [OF assms(1)] by (auto simp: hits_def misses_def split: option.splits)
qed

theorem StatContext_finds_witness:
  "StatContext [''/'' \<mapsto> (1::nat), ''/app'' \<mapsto> 2] (\<lambda>f r. if f = 2 \<and> r = ''/lib/x.js'' then Some r else None) ''app/lib/x.js'' \<noteq> None"
proof -
  let ?p = "''/app/lib/x.js''" and ?mnt = "[''/'' \<mapsto> (1::nat), ''/app'' \<mapsto> 2]"
  let ?st = "\<lambda>f r. if f = (2::nat) \<and> r = ''/lib/x.js'' then Some r else None"
  have s: "searched ''app/lib/x.js'' = ?p" by (simp add: searched_def fileExt_def)
  have "level ?p" by (simp add: level_def All_less_Suc2 numeral_eq_Suc)
  moreover have "lookupAt ?mnt ?st ?p 4 \<noteq> None" by (simp add: lookupAt_def numeral_eq_Suc)
  ultimately show ?thesis
    using StatContext_finds [of "''app/lib/x.js''" ?mnt ?st] unfolding s
    by (auto intro!: exI [of _ "4::nat"])
qed

section \<open>Going up\<close>

text \<open>
  The cleaning loop of the single file systems (\<open>StatContext\<close> and \<open>List\<close> of \<open>src/fs/filesys.go\<close>), which should take every step up
  out of a path before it is put behind the root directory.
\<close>

function cleanLoop :: "string \<Rightarrow> nat \<Rightarrow> nat \<Rightarrow> string" where
  "cleanLoop p pthl pn =
     (if pn < pthl then
        (case (if p ! pn = sep then stripUp p pthl pn else (p, pthl)) of (p1, pthl1) \<Rightarrow> cleanLoop p1 pthl1 (pn + 1))
      else p)"
  by pat_completeness auto

termination
proof (relation "measure (\<lambda>(p, pthl, pn). pthl - pn)", goal_cases)
  case (2 p pthl pn p1 pthl1)
  then show ?case using stripUp_shorter [of p pthl pn p1 pthl1] by (auto split: if_splits)
qed simp

declare cleanLoop.simps [simp del]

definition cleanPath :: "string \<Rightarrow> string" where
  "cleanPath p = cleanLoop p (length p) 0"

text \<open>The loops read inside the path: the kept length never exceeds that of the path.\<close>

lemma stripUp_length: "stripUp p pthl pn = (p1, pthl1) \<Longrightarrow> pthl \<le> length p \<Longrightarrow> pthl1 \<le> length p1"
proof (induction p pthl pn rule: stripUp.induct)
  case (1 p pthl pn)
  show ?case
  proof (cases "upAt p pthl pn")
    case True
    then have "pthl - 4 \<le> length (stripOnce p pn)" using 1(3) upAt_bound [OF True] by (auto simp: stripOnce_def)
    then show ?thesis using 1(1) [OF True] 1(2) stripUp.simps [of p pthl pn] True by simp
  next
    case False
    then show ?thesis using 1(2,3) by (subst (asm) stripUp.simps) simp
  qed
qed

text \<open>A path that does not go up is left alone.\<close>

lemma stripUp_level: "level p \<Longrightarrow> stripUp p pthl pn = (p, pthl)"
  by (subst stripUp.simps) (simp add: upAt_def level_at)

lemma cleanLoop_level: "level p \<Longrightarrow> cleanLoop p pthl pn = p"
  by (induction "pthl - pn" arbitrary: pn rule: less_induct) (subst cleanLoop.simps, simp add: stripUp_level split: if_splits)

text \<open>
  Defect: each step up that is removed shortens the kept length by one byte too many, so the end of a path with many steps up and a
  short name is never looked at, and some steps up survive.
\<close>

lemma cleanPath_leaves_steps_up: "cleanPath ''/../../../../a.b'' = ''/../a.b''"
  by code_simp

text \<open>Defect: opening the empty path panics.\<close>

lemma OpenContext_empty_panics: "OpenContext mnt op '''' = None"
  by (simp add: OpenContext_def go_index_def)

text \<open>Defect: a file in a directory is never stored in the file system mounted at the root, although it is looked for there.\<close>

lemma setTarget_skips_root: "setTarget [''/'' \<mapsto> f] ''/dir/a.b'' = None"
  by (simp add: setTarget_def setRoot_def keyOf_def dirOf_def upt_rec numeral_eq_Suc)

end
