(* ===== verification/FileSys.thy ===== *)
theory FileSys
  imports MultiFs
begin

text \<open>
  One mounted file system (\<open>src/fs/filesys.go\<close>): files kept in memory (\<open>Set\<close>), the cache, and the files below a root directory of the
  operating system.  The operating system is an argument \<open>os\<close>, the table of media types an argument \<open>media\<close>, the time of a call an
  argument \<open>now\<close>, and what is found in an archive (\<open>ArchiveFiles\<close>) an argument \<open>arch\<close>.

  A file in memory and a cached file both are a pair of a buffer and its information, and the code lets them share the pair, so the pairs
  are objects of a heap and the maps hold references.  A buffer is its text, or \<open>None\<close> once it has been closed: writing to a closed buffer
  panics.  The maps of extensions are lists; where the code ranges over one the list is the order in which the map yields its keys.
\<close>

section \<open>File information\<close>

text \<open>Where the reader of a file takes its bytes from: a buffer, a file of the operating system or one of an archive.\<close>

datatype fsource = Buf nat | OnDisk string | InArchive string

record finfo =
  fi_name :: string
  fi_path :: string
  fi_root :: string
  fi_base :: string
  fi_ext :: string
  fi_size :: int
  fi_modfy :: int
  fi_dir :: bool
  fi_active :: bool
  fi_raw :: bool
  fi_media :: bool
  fi_rdr :: fsource

definition joinBase :: "string \<Rightarrow> string \<Rightarrow> string" where
  "joinBase base p =
     (if p \<noteq> '''' \<and> p ! 0 = sep then (if last base = sep then base @ drop 1 p else base @ p)
      else if last base = sep then base @ p
      else base @ [sep] @ p)"

definition NewFileInfo :: "string \<Rightarrow> int \<Rightarrow> int \<Rightarrow> bool \<Rightarrow> bool \<Rightarrow> bool \<Rightarrow> bool \<Rightarrow> string \<Rightarrow> string \<Rightarrow> fsource \<Rightarrow> finfo" where
  "NewFileInfo nm sz modfy dir active raw med path base rdr =
     (let root = (if sep \<in> set path then dirOf path else [sep]);
          path1 = (if base \<noteq> '''' then (if path = '''' then base else joinBase base path) else path);
          root1 = (if base \<noteq> '''' then joinBase base root else root);
          path2 = (if dir \<and> path1 \<noteq> '''' \<and> last path1 \<noteq> sep then path1 @ [sep] else path1) in
      \<lparr>fi_name = nm, fi_path = path2, fi_root = root1, fi_base = base, fi_ext = (if dir then '''' else fileExt nm), fi_size = sz,
       fi_modfy = modfy, fi_dir = dir, fi_active = active, fi_raw = raw, fi_media = med, fi_rdr = rdr\<rparr>)"

section \<open>State\<close>

record filebuf =
  b_text :: "string option"
  b_info :: finfo

record osinfo =
  os_name :: string
  os_size :: int
  os_mod :: int
  os_dir :: bool

text \<open>A file of an archive; its information is made once, when it is first asked for.\<close>

record archfile =
  ar_name :: string
  ar_path :: string
  ar_size :: int
  ar_mod :: int
  ar_dir :: bool
  ar_info :: "finfo option"

datatype notify = NOTE_CREATE | NOTE_AMMEND | NOTE_REMOVE

text \<open>\<open>noted\<close> are the calls of \<open>Notify\<close>, \<open>watching\<close> the directories handed to the watcher of the file systems this one is attached to.\<close>

record filesys =
  fs_raw :: bool
  mltypath :: string
  fs_root :: string
  archfls :: "(string \<times> archfile) list"
  heap :: "filebuf list"
  embed :: "string \<rightharpoonup> nat"
  cachexts :: "string list"
  cachedfiles :: "string \<rightharpoonup> nat"
  defaultexts :: "string list"
  activexts :: "string list"
  attached :: bool
  noted :: "(finfo option \<times> notify) list"
  watching :: "string list"

text \<open>\<open>strings.Index\<close>.\<close>

fun indexOf :: "string \<Rightarrow> string \<Rightarrow> nat option" where
  "indexOf pat [] = (if pat = [] then Some 0 else None)"
| "indexOf pat (c # cs) = (if take (length pat) (c # cs) = pat then Some 0 else map_option Suc (indexOf pat cs))"

definition lklzpexts :: "string list" where
  "lklzpexts = [''.zip'', ''.tgz'', ''.gz'', ''.tar'', ''.jar'', ''.war'']"

text \<open>The files of the archive a root directory leads into; of two with the same path the later one counts.\<close>

definition rootArchive :: "(string \<Rightarrow> string \<Rightarrow> archfile list) \<Rightarrow> string \<Rightarrow> (string \<times> archfile) list" where
  "rootArchive arch root =
     (case find (\<lambda>e. indexOf e root \<noteq> None) lklzpexts of
        None \<Rightarrow> []
      | Some e \<Rightarrow>
          (let k = the (indexOf e root) + length e in
           rev (map (\<lambda>a. (ar_path a, a\<lparr>ar_info := None\<rparr>)) (arch (take k root) (drop k root)))))"

definition NewFileSystem :: "(string \<Rightarrow> string \<Rightarrow> archfile list) \<Rightarrow> string \<Rightarrow> bool \<Rightarrow> filesys" where
  "NewFileSystem arch root raw =
     (let root1 = map (\<lambda>c. if c = CHR 0x5C then sep else c) root in
      \<lparr>fs_raw = raw, mltypath = '''', fs_root = root1, archfls = rootArchive arch root1, heap = [], embed = Map.empty, cachexts = [],
       cachedfiles = Map.empty, defaultexts = [], activexts = [], attached = False, noted = [], watching = []\<rparr>)"

definition AttachMultiFileSystem :: "filesys \<Rightarrow> filesys" where
  "AttachMultiFileSystem fs = fs\<lparr>attached := True\<rparr>"

definition addExts :: "string list \<Rightarrow> string list \<Rightarrow> string list" where
  "addExts exts known = foldl (\<lambda>ks e. if e \<in> set ks then ks else ks @ [e]) known exts"

definition CacheExtensions :: "string list \<Rightarrow> filesys \<Rightarrow> filesys" where
  "CacheExtensions exts fs = fs\<lparr>cachexts := addExts exts (cachexts fs)\<rparr>"

definition ActiveExtensions :: "string list \<Rightarrow> filesys \<Rightarrow> filesys" where
  "ActiveExtensions exts fs = fs\<lparr>activexts := addExts exts (activexts fs)\<rparr>"

definition DefaultExtensions :: "string list \<Rightarrow> filesys \<Rightarrow> filesys" where
  "DefaultExtensions exts fs = fs\<lparr>defaultexts := addExts exts (defaultexts fs)\<rparr>"

section \<open>Operations\<close>

definition baseName :: "string \<Rightarrow> string" where
  "baseName p = rev (takeWhile (\<lambda>c. c \<noteq> sep) (rev p))"

abbreviation infoOf :: "filesys \<Rightarrow> nat \<Rightarrow> finfo" where "infoOf fs i \<equiv> b_info (heap fs ! i)"
abbreviation textOf :: "filesys \<Rightarrow> nat \<Rightarrow> string option" where "textOf fs i \<equiv> b_text (heap fs ! i)"

text \<open>A file with an extension whose kind is active becomes cached when it is stored.\<close>

definition shareCache :: "string \<Rightarrow> string \<Rightarrow> nat \<Rightarrow> filesys \<Rightarrow> filesys" where
  "shareCache ext p i fs = (if ext \<in> set (activexts fs) then fs\<lparr>cachedfiles := (cachedfiles fs)(p \<mapsto> i)\<rparr> else fs)"

definition notifyAll :: "nat \<Rightarrow> notify \<Rightarrow> filesys \<Rightarrow> filesys" where
  "notifyAll i n fs = (if attached fs then fs\<lparr>noted := noted fs @ [(Some (infoOf fs i), n)]\<rparr> else fs)"

text \<open>\<open>Set\<close>; the result is \<open>None\<close> if the code panics.\<close>

definition fsSet :: "(string \<Rightarrow> bool) \<Rightarrow> int \<Rightarrow> string \<Rightarrow> string \<Rightarrow> filesys \<Rightarrow> (bool \<times> filesys) option" where
  "fsSet media now path cnt fs =
     (if path = '''' \<or> fileExt path = '''' then Some (False, fs)
      else
        (let ext = fileExt path; p = (if path ! 0 \<noteq> sep then sep # path else path) in
         case embed fs p of
           Some i \<Rightarrow>
             (let b = heap fs ! i; b1 = b\<lparr>b_text := map_option (\<lambda>t. cnt) (b_text b), b_info := (b_info b)\<lparr>fi_size := int (length cnt), fi_modfy := now\<rparr>\<rparr> in
              if b_text b = None \<and> cnt \<noteq> '''' then None
              else Some (True, notifyAll i NOTE_AMMEND (shareCache ext p i (fs\<lparr>heap := (heap fs)[i := b1]\<rparr>))))
         | None \<Rightarrow>
             (let i = length (heap fs);
                  fi = NewFileInfo (baseName p) (int (length cnt)) now False (ext \<in> set (activexts fs)) (ext \<notin> set (cachexts fs)) (media ext) p
                         (mltypath fs) (Buf i) in
              Some (True, notifyAll i NOTE_CREATE (shareCache ext p i
                (fs\<lparr>heap := heap fs @ [\<lparr>b_text = Some cnt, b_info = fi\<rparr>], embed := (embed fs)(p \<mapsto> i)\<rparr>))))))"

text \<open>Directory and name of a path; a path without an extension is a directory.\<close>

definition splitPath :: "string \<Rightarrow> string \<times> string" where
  "splitPath p =
     (let (rt, nm) = (if fileExt p = '''' then (if p = '''' \<or> last p \<noteq> sep then p @ [sep] else p, '''')
                      else if sep \<in> set p then (dirOf p, baseName p) else ([sep], p)) in
      (if rt \<noteq> '''' \<and> rt ! 0 \<noteq> sep then sep # rt else rt, nm))"

text \<open>
  The answer from the file in memory \<open>i\<close>; \<open>key\<close> is the path that was asked for, under which the cache is consulted and filled.  The entry is
  made by a goroutine of its own, taken here to be done when the call returns.
\<close>

definition fromEmbed :: "nat \<Rightarrow> string \<Rightarrow> filesys \<Rightarrow> finfo option \<times> filesys" where
  "fromEmbed i key fs =
     (if fi_ext (infoOf fs i) \<in> set (cachexts fs) then
        (case cachedfiles fs key of
           Some c \<Rightarrow> (Some (infoOf fs c), fs)
         | None \<Rightarrow> (Some (infoOf fs i), fs\<lparr>cachedfiles := (cachedfiles fs)(key \<mapsto> i)\<rparr>))
      else (Some (infoOf fs i), fs))"

text \<open>\<open>archiveFileInfo\<close> of the file of the archive under \<open>k\<close>.\<close>

definition fromArchive :: "(string \<Rightarrow> bool) \<Rightarrow> string \<Rightarrow> filesys \<Rightarrow> finfo option \<times> filesys" where
  "fromArchive media k fs =
     (case map_of (archfls fs) k of
        None \<Rightarrow> (None, fs)
      | Some a \<Rightarrow>
          (case ar_info a of
             Some fi \<Rightarrow> (Some fi, fs)
           | None \<Rightarrow>
               (let ext = (if ar_dir a then '''' else fileExt (ar_name a));
                    atv = (ext \<noteq> '''' \<and> \<not> fs_raw fs \<and> ext \<in> set (activexts fs));
                    pth = (if ar_path a \<noteq> '''' \<and> ar_path a ! 0 = sep then drop 1 (ar_path a) else ar_path a);
                    fi = NewFileInfo (ar_name a) (ar_size a) (ar_mod a) (ar_dir a) atv (\<not> atv) (ext \<noteq> '''' \<and> media ext) pth (mltypath fs)
                           (InArchive (ar_path a)) in
                (Some fi, fs\<lparr>archfls := map (\<lambda>(k1, a1). (k1, if k1 = k then a1\<lparr>ar_info := Some fi\<rparr> else a1)) (archfls fs)\<rparr>))))"

text \<open>
  The part of \<open>StatContext\<close> that asks the cache and then the archive or the operating system, for a file \<open>nm\<close> in the directory \<open>rt\<close>.
\<close>

definition fromDisk :: "(string \<rightharpoonup> osinfo) \<Rightarrow> (string \<Rightarrow> bool) \<Rightarrow> string \<Rightarrow> string \<Rightarrow> string \<Rightarrow> filesys \<Rightarrow> finfo option \<times> filesys" where
  "fromDisk os media pthext rt nm fs =
     (let actv = \<not> fs_raw fs \<and> pthext \<in> set (activexts fs) in
      case (if pthext \<noteq> '''' \<and> pthext \<in> set (cachexts fs) then cachedfiles fs (rt @ nm) else None) of
        Some c \<Rightarrow> (Some (infoOf fs c), fs)
      | None \<Rightarrow>
          (if archfls fs \<noteq> [] then fromArchive media (rt @ nm) fs
           else
             (case os (fs_root fs @ rt @ nm) of
                Some oi \<Rightarrow>
                  (if os_dir oi then None
                   else Some (NewFileInfo (os_name oi) (os_size oi) (os_mod oi) False (\<not> fs_raw fs \<and> fileExt (os_name oi) \<in> set (activexts fs)) (\<not> actv)
                           (media (os_name oi)) ((if rt \<noteq> '''' \<and> rt ! 0 = sep then drop 1 rt else rt) @ nm) (mltypath fs)
                           (OnDisk (fs_root fs @ rt @ nm))))
              | None \<Rightarrow> None, fs)))"

text \<open>A directory: the default files of the archive or of the operating system are tried first.\<close>

definition fromDir :: "(string \<rightharpoonup> osinfo) \<Rightarrow> (string \<Rightarrow> bool) \<Rightarrow> string \<Rightarrow> filesys \<Rightarrow> finfo option \<times> filesys" where
  "fromDir os media rt fs =
     (if archfls fs \<noteq> [] then
        (case (if map_option ar_dir (map_of (archfls fs) rt) = Some True \<or> (map_of (archfls fs) rt = None \<and> rt = ''/'')
               then find (\<lambda>e. map_of (archfls fs) (rt @ ''index'' @ e) \<noteq> None) (defaultexts fs) else None) of
           Some e \<Rightarrow> fromArchive media (rt @ ''index'' @ e) fs
         | None \<Rightarrow> fromDisk os media '''' rt '''' fs)
      else
        (case os (fs_root fs @ rt) of
           Some oi \<Rightarrow>
             (if os_dir oi then
                (case find (\<lambda>e. os (fs_root fs @ rt @ ''index'' @ e) \<noteq> None) (defaultexts fs) of
                   Some e \<Rightarrow>
                     (let nm1 = os_name (the (os (fs_root fs @ rt @ ''index'' @ e))) in fromDisk os media (fileExt nm1) rt nm1 fs)
                 | None \<Rightarrow> (if defaultexts fs = [] then fromDisk os media '''' rt '''' fs else (None, fs)))
              else fromDisk os media '''' rt '''' fs)
         | None \<Rightarrow> fromDisk os media '''' rt '''' fs))"

text \<open>\<open>StatContext\<close>.  A path without a name is one without an extension, and its directory ends in a slash.\<close>

definition fsStat :: "(string \<rightharpoonup> osinfo) \<Rightarrow> (string \<Rightarrow> bool) \<Rightarrow> string \<Rightarrow> filesys \<Rightarrow> finfo option \<times> filesys" where
  "fsStat os media path fs =
     (let p = cleanPath path; pthext = fileExt p; (rt, nm) = splitPath p; dir = (nm = '''' \<and> last rt = sep);
          idx = (if dir then find (\<lambda>e. embed fs (rt @ ''index'' @ e) \<noteq> None) (defaultexts fs) else None) in
      case idx of
        Some e \<Rightarrow> fromEmbed (the (embed fs (rt @ ''index'' @ e))) (rt @ nm) fs
      | None \<Rightarrow>
          (case embed fs (rt @ nm) of
             Some i \<Rightarrow> fromEmbed i (rt @ nm) fs
           | None \<Rightarrow> (if dir then fromDir os media rt fs else fromDisk os media pthext rt nm fs)))"

text \<open>
  What a reader of a file delivers: \<open>rd\<close> is what the operating system reads from a file, \<open>ra\<close> what is read from an archive; a closed buffer
  delivers nothing.
\<close>

definition readInfo :: "(string \<rightharpoonup> string) \<Rightarrow> (string \<rightharpoonup> string) \<Rightarrow> filesys \<Rightarrow> finfo \<Rightarrow> string option" where
  "readInfo rd ra fs fi = (case fi_rdr fi of Buf i \<Rightarrow> textOf fs i | OnDisk p \<Rightarrow> rd p | InArchive p \<Rightarrow> ra p)"

section \<open>The invariant\<close>

lemma takeWhile_sep: "takeWhile (\<lambda>c. c \<noteq> sep) (xs @ [sep]) = takeWhile (\<lambda>c. c \<noteq> sep) xs"
  by (induction xs) auto

lemma fileExt_sep: "fileExt (sep # p) = fileExt p"
  by (simp add: fileExt_def takeWhile_sep)

lemma fileExt_base: "fileExt (baseName p) = fileExt p"
  by (simp add: fileExt_def baseName_def takeWhile_idem)

lemma dir_base: "dirOf p @ baseName p = p"
  by (simp add: dirOf_def baseName_def flip: rev_append)

lemma base_ext: "fileExt p \<noteq> '''' \<Longrightarrow> baseName p \<noteq> ''''"
  by (auto simp: fileExt_def baseName_def split: if_splits)

lemma keyOf_ext: "fileExt (keyOf p) = fileExt p"
  by (simp add: keyOf_def fileExt_sep)

lemma splitPath_key:
  assumes "fileExt p \<noteq> ''''" "splitPath p = (rt, nm)"
  shows "rt @ nm = keyOf p" "nm \<noteq> ''''"
proof -
  have p: "p \<noteq> ''''" using assms(1) by (auto simp: fileExt_def)
  show "nm \<noteq> ''''" using assms base_ext [OF assms(1)] p by (auto simp: splitPath_def split: if_splits)
  show "rt @ nm = keyOf p"
  proof (cases "sep \<in> set p")
    case True
    then have "dirOf p \<noteq> ''''" by (simp add: dirOf_def dropWhile_eq_Nil_conv)
    then have "(dirOf p) ! 0 = p ! 0" using dir_base [of p] by (metis length_greater_0_conv nth_append)
    then show ?thesis using assms True dir_base [of p] \<open>dirOf p \<noteq> ''''\<close> by (auto simp: splitPath_def keyOf_def split: if_splits)
  next
    case False
    then have "p ! 0 \<noteq> sep" using p by (cases p) auto
    then show ?thesis using assms False by (auto simp: splitPath_def keyOf_def split: if_splits)
  qed
qed

definition named :: "filesys \<Rightarrow> string \<Rightarrow> nat \<Rightarrow> bool" where
  "named fs k i \<longleftrightarrow> embed fs k = Some i \<or> cachedfiles fs k = Some i"

definition archives_ok :: "(string \<times> archfile) list \<Rightarrow> bool" where
  "archives_ok afs \<longleftrightarrow> list_all (\<lambda>(k, a). \<forall>fi. ar_info a = Some fi \<longrightarrow> (\<exists>p. fi_rdr fi = InArchive p)) afs"

text \<open>
  Files in memory have names with an extension and information that fits their text; every reference leads to an object that reads from
  its own buffer, open where the name has an extension; and two names with extensions never share an object.  The files of
  an archive read from the archive.
\<close>

definition fs_ok :: "filesys \<Rightarrow> bool" where
  "fs_ok fs \<longleftrightarrow>
     (\<forall>k i. embed fs k = Some i \<longrightarrow>
        fileExt k \<noteq> '''' \<and> fi_ext (infoOf fs i) = fileExt k \<and> map_option (\<lambda>t. int (length t)) (textOf fs i) = Some (fi_size (infoOf fs i))) \<and>
     (\<forall>k i. named fs k i \<longrightarrow> i < length (heap fs) \<and> fi_rdr (infoOf fs i) = Buf i \<and> (fileExt k \<noteq> '''' \<longrightarrow> textOf fs i \<noteq> None)) \<and>
     (\<forall>k k' i. named fs k i \<and> named fs k' i \<and> fileExt k \<noteq> '''' \<and> fileExt k' \<noteq> '''' \<longrightarrow> k = k') \<and>
     archives_ok (archfls fs)"

lemma fs_ok_embed:
  assumes "fs_ok fs" "embed fs k = Some i"
  shows "fileExt k \<noteq> ''''" "fi_ext (infoOf fs i) = fileExt k" "map_option (\<lambda>t. int (length t)) (textOf fs i) = Some (fi_size (infoOf fs i))"
  using assms unfolding fs_ok_def by blast+

lemma fs_ok_named:
  assumes "fs_ok fs" "named fs k i"
  shows "i < length (heap fs)" "fi_rdr (infoOf fs i) = Buf i" "fileExt k \<noteq> '''' \<Longrightarrow> textOf fs i \<noteq> None"
  using assms unfolding fs_ok_def by blast+

lemma fs_ok_sole: "fs_ok fs \<Longrightarrow> named fs k i \<Longrightarrow> named fs k' i \<Longrightarrow> fileExt k \<noteq> '''' \<Longrightarrow> fileExt k' \<noteq> '''' \<Longrightarrow> k = k'"
  unfolding fs_ok_def by metis

lemma fs_ok_archives: "fs_ok fs \<Longrightarrow> archives_ok (archfls fs)"
  unfolding fs_ok_def by blast

lemma fs_okI:
  assumes "\<And>k i. embed fs k = Some i \<Longrightarrow>
      fileExt k \<noteq> '''' \<and> fi_ext (infoOf fs i) = fileExt k \<and> map_option (\<lambda>t. int (length t)) (textOf fs i) = Some (fi_size (infoOf fs i))"
    and "\<And>k i. named fs k i \<Longrightarrow> i < length (heap fs) \<and> fi_rdr (infoOf fs i) = Buf i \<and> (fileExt k \<noteq> '''' \<longrightarrow> textOf fs i \<noteq> None)"
    and "\<And>k k' i. named fs k i \<Longrightarrow> named fs k' i \<Longrightarrow> fileExt k \<noteq> '''' \<Longrightarrow> fileExt k' \<noteq> '''' \<Longrightarrow> k = k'"
    and "archives_ok (archfls fs)"
  shows "fs_ok fs"
proof -
  have "\<forall>k i. embed fs k = Some i \<longrightarrow>
        fileExt k \<noteq> '''' \<and> fi_ext (infoOf fs i) = fileExt k \<and> map_option (\<lambda>t. int (length t)) (textOf fs i) = Some (fi_size (infoOf fs i))"
    by (intro allI impI assms(1))
  moreover have "\<forall>k i. named fs k i \<longrightarrow> i < length (heap fs) \<and> fi_rdr (infoOf fs i) = Buf i \<and> (fileExt k \<noteq> '''' \<longrightarrow> textOf fs i \<noteq> None)"
    by (intro allI impI assms(2))
  moreover have "\<forall>k k' i. named fs k i \<and> named fs k' i \<and> fileExt k \<noteq> '''' \<and> fileExt k' \<noteq> '''' \<longrightarrow> k = k'"
    using assms(3) by blast
  ultimately show ?thesis unfolding fs_ok_def using assms(4) by (intro conjI)
qed

lemma rootArchive_ok: "archives_ok (rootArchive arch root)"
  by (auto simp: archives_ok_def rootArchive_def Let_def list_all_iff split: option.splits)

lemma rootArchive_none [simp]: "rootArchive (\<lambda>p r. []) root = []"
  by (simp add: rootArchive_def Let_def split: option.splits)

lemma NewFileSystem_simps [simp]:
  "embed (NewFileSystem arch root raw) = Map.empty" "cachedfiles (NewFileSystem arch root raw) = Map.empty" "heap (NewFileSystem arch root raw) = []"
  "cachexts (NewFileSystem arch root raw) = []" "activexts (NewFileSystem arch root raw) = []" "defaultexts (NewFileSystem arch root raw) = []"
  "attached (NewFileSystem arch root raw) = False" "fs_root (NewFileSystem arch root raw) = map (\<lambda>c. if c = CHR 0x5C then sep else c) root"
  "archfls (NewFileSystem arch root raw) = rootArchive arch (map (\<lambda>c. if c = CHR 0x5C then sep else c) root)"
  by (simp_all add: NewFileSystem_def Let_def)

lemma NewFileSystem_ok: "fs_ok (NewFileSystem arch root raw)"
  by (simp add: fs_ok_def named_def rootArchive_ok)

lemma CacheExtensions_new_ok: "fs_ok (CacheExtensions exts (NewFileSystem arch root raw))"
  by (simp add: fs_ok_def named_def rootArchive_ok CacheExtensions_def)

lemma NewFileInfo_simps [simp]:
  "fi_rdr (NewFileInfo nm sz modfy dir active raw med path base rdr) = rdr"
  "fi_ext (NewFileInfo nm sz modfy False active raw med path base rdr) = fileExt nm"
  "fi_size (NewFileInfo nm sz modfy dir active raw med path base rdr) = sz"
  "fi_modfy (NewFileInfo nm sz modfy dir active raw med path base rdr) = modfy"
  by (simp_all add: NewFileInfo_def Let_def)

lemma notifyAll_simps [simp]:
  "heap (notifyAll i n fs) = heap fs" "embed (notifyAll i n fs) = embed fs" "cachedfiles (notifyAll i n fs) = cachedfiles fs"
  "cachexts (notifyAll i n fs) = cachexts fs" "archfls (notifyAll i n fs) = archfls fs"
  by (simp_all add: notifyAll_def)

text \<open>What storing a file does: the file has an object of its own, all others stay.\<close>

definition stores :: "string \<Rightarrow> string \<Rightarrow> filesys \<Rightarrow> filesys \<Rightarrow> nat \<Rightarrow> bool" where
  "stores path cnt fs fs1 i \<longleftrightarrow>
     embed fs1 = (embed fs)(keyOf path \<mapsto> i) \<and> textOf fs1 i = Some cnt \<and> fi_rdr (infoOf fs1 i) = Buf i \<and>
     fi_ext (infoOf fs1 i) = fileExt path \<and> fi_size (infoOf fs1 i) = int (length cnt) \<and> cachexts fs1 = cachexts fs \<and> archfls fs1 = archfls fs \<and>
     cachedfiles fs1 = (if fileExt path \<in> set (activexts fs) then (cachedfiles fs)(keyOf path \<mapsto> i) else cachedfiles fs) \<and>
     i < length (heap fs1) \<and> length (heap fs) \<le> length (heap fs1) \<and> (\<forall>j < length (heap fs). j \<noteq> i \<longrightarrow> heap fs1 ! j = heap fs ! j) \<and>
     (case embed fs (keyOf path) of Some j \<Rightarrow> i = j | None \<Rightarrow> i = length (heap fs))"

lemma fsSet_stores:
  assumes "fs_ok fs" "fileExt path \<noteq> ''''"
  shows "\<exists>fs1 i. fsSet media now path cnt fs = Some (True, fs1) \<and> stores path cnt fs fs1 i"
proof -
  have p: "path \<noteq> ''''" using assms(2) by (auto simp: fileExt_def)
  have e: "fileExt (baseName (keyOf path)) = fileExt path" by (simp add: fileExt_base keyOf_ext)
  show ?thesis
  proof (cases "embed fs (keyOf path)")
    case None
    then show ?thesis
      using p assms(2) e unfolding fsSet_def keyOf_def [symmetric] by (simp add: stores_def shareCache_def Let_def nth_append)
  next
    case (Some i)
    note ok = fs_ok_embed [OF assms(1) Some] fs_ok_named [OF assms(1), of "keyOf path" i]
    have "textOf fs i \<noteq> None" "i < length (heap fs)" "fi_rdr (infoOf fs i) = Buf i" using ok Some by (auto simp: named_def)
    then show ?thesis
      using p assms(2) ok(2) Some unfolding fsSet_def keyOf_def [symmetric]
      by (auto simp: stores_def shareCache_def Let_def keyOf_ext fun_upd_idem)
  qed
qed

lemma stores_named:
  assumes "fs_ok fs" "stores path cnt fs fs1 i" "named fs1 k j" "fileExt k \<noteq> '''' \<or> j \<noteq> i"
  shows "(j = i \<and> k = keyOf path) \<or> (j \<noteq> i \<and> named fs k j \<and> heap fs1 ! j = heap fs ! j \<and> j < length (heap fs))"
proof (cases "j = i")
  case True
  show ?thesis
  proof (rule ccontr)
    assume "\<not> ?thesis"
    then have k: "k \<noteq> keyOf path" "named fs k i" using True assms(2,3) by (auto simp: stores_def named_def split: if_splits)
    then have "embed fs (keyOf path) = Some i"
      using fs_ok_named(1) [OF assms(1) k(2)] assms(2) by (auto simp: stores_def split: option.splits)
    then have "named fs (keyOf path) i" "fileExt (keyOf path) \<noteq> ''''" using fs_ok_embed(1) [OF assms(1)] by (auto simp: named_def)
    then show False using fs_ok_sole [OF assms(1) k(2)] assms(4) k(1) True by blast
  qed
next
  case False
  then have "named fs k j" using assms(2,3) by (auto simp: stores_def named_def split: if_splits)
  then show ?thesis using fs_ok_named(1) [OF assms(1)] assms(2) False by (auto simp: stores_def)
qed

lemma fsSet_ok:
  assumes "fs_ok fs" "fsSet media now path cnt fs = Some (b, fs1)"
  shows "fs_ok fs1"
proof (cases "fileExt path = ''''")
  case True
  then show ?thesis using assms by (simp add: fsSet_def)
next
  case False
  from fsSet_stores [OF assms(1) False, of media now cnt] assms(2) obtain i where st: "stores path cnt fs fs1 i" by auto
  note nm = stores_named [OF assms(1) st]
  show ?thesis
  proof (rule fs_okI, goal_cases)
    case (1 k j)
    then have "k = keyOf path \<and> j = i \<or> k \<noteq> keyOf path \<and> embed fs k = Some j" using st by (auto simp: stores_def split: if_splits)
    then show ?case
      using False st nm [of k j] 1 fs_ok_embed [OF assms(1), of k j] by (auto simp: stores_def keyOf_ext named_def)
  next
    case (2 k j)
    show ?case
    proof (cases "j = i")
      case True
      then show ?thesis using st by (simp add: stores_def)
    next
      case nj: False
      then show ?thesis using nm [OF 2] fs_ok_named [OF assms(1), of k j] st by (auto simp: stores_def)
    qed
  next
    case (3 k k' j)
    then show ?case using nm [OF 3(1)] nm [OF 3(2)] fs_ok_sole [OF assms(1), of k j k'] by auto
  next
    case 4
    then show ?case using st fs_ok_archives [OF assms(1)] by (simp add: stores_def)
  qed
qed

lemma fromEmbed_ok:
  assumes "fs_ok fs" "embed fs k = Some i" "fileExt key \<noteq> '''' \<longrightarrow> k = key"
  shows "fs_ok (snd (fromEmbed i key fs))"
proof (cases "fi_ext (infoOf fs i) \<in> set (cachexts fs) \<and> cachedfiles fs key = None")
  case True
  let ?fs = "fs\<lparr>cachedfiles := (cachedfiles fs)(key \<mapsto> i)\<rparr>"
  have n: "named ?fs k' j \<longleftrightarrow> named fs k' j \<or> k' = key \<and> j = i" for k' j using True by (auto simp: named_def)
  have ki: "named fs k i" using assms(2) by (simp add: named_def)
  have "fs_ok ?fs"
  proof (rule fs_okI, goal_cases)
    case (1 k' j)
    then show ?case using fs_ok_embed [OF assms(1)] by simp
  next
    case (2 k' j)
    then show ?case using fs_ok_named [OF assms(1)] ki assms(3) unfolding n by auto
  next
    case (3 k1 k2 j)
    then show ?case using fs_ok_sole [OF assms(1)] ki assms(3) unfolding n by metis
  next
    case 4
    then show ?case using fs_ok_archives [OF assms(1)] by simp
  qed
  then show ?thesis using True by (simp add: fromEmbed_def)
next
  case False
  then show ?thesis using assms(1) by (auto simp: fromEmbed_def split: option.splits)
qed

lemma splitPath_dir: "splitPath p = (rt, '''') \<Longrightarrow> fileExt (rt @ '''') = ''''"
proof -
  assume s: "splitPath p = (rt, '''')"
  then have "fileExt p = ''''" using splitPath_key(2) by blast
  then have "last rt = sep \<and> rt \<noteq> ''''" using s by (auto simp: splitPath_def split: if_splits)
  then have "rt = butlast rt @ [sep]" by (metis append_butlast_last_id)
  then obtain r where "rt = r @ [sep]" by blast
  then show ?thesis by (simp add: fileExt_def)
qed

lemma archfls_ok:
  assumes "fs_ok fs" "archives_ok L"
  shows "fs_ok (fs\<lparr>archfls := L\<rparr>)"
proof (rule fs_okI, goal_cases)
  case (1 k i)
  then show ?case using fs_ok_embed [OF assms(1), of k i] by simp
next
  case (2 k i)
  then show ?case using fs_ok_named [OF assms(1), of k i] by (simp add: named_def)
next
  case (3 k k' i)
  then show ?case using fs_ok_sole [OF assms(1), of k i k'] by (simp add: named_def)
qed (simp add: assms(2))

lemma archives_memo:
  "archives_ok L \<Longrightarrow> fi_rdr fi = InArchive p \<Longrightarrow> archives_ok (map (\<lambda>(k1, a1). (k1, if k1 = k then a1\<lparr>ar_info := Some fi\<rparr> else a1)) L)"
  by (auto simp: archives_ok_def list_all_iff split: if_splits)

lemma fromArchive_ok: "fs_ok fs \<Longrightarrow> fs_ok (snd (fromArchive media k fs))"
  by (auto simp: fromArchive_def Let_def split: option.splits intro!: archfls_ok archives_memo [OF fs_ok_archives])

lemma fromDisk_ok: "fs_ok fs \<Longrightarrow> fs_ok (snd (fromDisk os media pthext rt nm fs))"
  by (simp add: fromDisk_def Let_def fromArchive_ok split: option.splits)

lemma fromDir_ok: "fs_ok fs \<Longrightarrow> fs_ok (snd (fromDir os media rt fs))"
  by (simp add: fromDir_def Let_def fromArchive_ok fromDisk_ok split: option.splits)

lemma fsStat_ok:
  assumes "fs_ok fs"
  shows "fs_ok (snd (fsStat os media path fs))"
proof -
  obtain rt nm where s: "splitPath (cleanPath path) = (rt, nm)" by force
  have "nm = '''' \<Longrightarrow> fileExt (rt @ nm) = ''''" using s splitPath_dir by blast
  then show ?thesis
    using assms fromEmbed_ok [OF assms] fromDisk_ok [OF assms] fromDir_ok [OF assms] unfolding fsStat_def s Let_def
    by (auto simp: find_Some_iff split: option.splits if_splits)
qed

text \<open>A name with an extension that does not go up is looked up under itself, in memory first.\<close>

lemma fsStat_level:
  assumes "fileExt path \<noteq> ''''" "level path"
  shows "\<exists>rt nm. rt @ nm = keyOf path \<and> nm \<noteq> '''' \<and> (\<forall>fs. fsStat os media path fs =
    (case embed fs (keyOf path) of Some i \<Rightarrow> fromEmbed i (keyOf path) fs | None \<Rightarrow> fromDisk os media (fileExt path) rt nm fs))"
proof -
  obtain rt nm where s: "splitPath path = (rt, nm)" by force
  have k: "rt @ nm = keyOf path" "nm \<noteq> ''''" using splitPath_key [OF assms(1) s] by auto
  have c: "cleanPath path = path" using cleanLoop_level [OF assms(2)] by (simp add: cleanPath_def)
  show ?thesis using k by (intro exI [of _ rt] exI [of _ nm]) (simp add: fsStat_def c s split: option.splits)
qed

definition unshadowed :: "filesys \<Rightarrow> string \<Rightarrow> bool" where
  "unshadowed fs path \<longleftrightarrow> fileExt path \<in> set (activexts fs) \<or> fileExt path \<notin> set (cachexts fs) \<or> cachedfiles fs (keyOf path) = None \<or>
     cachedfiles fs (keyOf path) = embed fs (keyOf path)"

lemma stored_found:
  assumes "fs_ok fs" "fileExt path \<noteq> ''''" "level path" "unshadowed fs path"
  shows "\<exists>fs1 fi fs2. fsSet media now path cnt fs = Some (True, fs1) \<and> fsStat os media path fs1 = (Some fi, fs2) \<and> readInfo rd ra fs2 fi = Some cnt \<and>
    readInfo rd ra fs1 fi = Some cnt \<and> fi_size fi = int (length cnt) \<and> fi_ext fi = fileExt path"
proof -
  from fsSet_stores [OF assms(1,2), of media now cnt] obtain fs1 i where f: "fsSet media now path cnt fs = Some (True, fs1)" "stores path cnt fs fs1 i"
    by blast
  from fsStat_level [OF assms(2,3), of os media] have st: "fsStat os media path fs1 = fromEmbed i (keyOf path) fs1"
    using f(2) by (auto simp: stores_def)
  have "fileExt path \<in> set (cachexts fs) \<Longrightarrow> cachedfiles fs1 (keyOf path) = None \<or> cachedfiles fs1 (keyOf path) = Some i"
    using assms(4) f(2) by (auto simp: stores_def unshadowed_def split: option.splits)
  then have "\<exists>fs2. fromEmbed i (keyOf path) fs1 = (Some (infoOf fs1 i), fs2) \<and> heap fs2 = heap fs1"
    using f(2) by (auto simp: fromEmbed_def stores_def split: option.splits)
  then show ?thesis using st f by (auto simp: readInfo_def stores_def)
qed

text \<open>
  Claim C17: a file that is stored is found.  In a file system that satisfies the invariant, storing a text under a path with an extension and without
  \<open>/../\<close> succeeds, provided the extension is active or not cached, or the cache holds no other file of that name (\<open>unshadowed\<close>; otherwise
  the cached file is answered, \<open>stale_cache\<close>).  Then \<open>StatContext\<close> of that path answers, whatever the operating system holds, with a file
  of the text's size and the path's extension whose reader delivers exactly the text, also when the path was stored before.
\<close>

theorem set_then_stat:
  assumes "fs_ok fs" "fileExt path \<noteq> ''''" "level path" "unshadowed fs path"
  shows "\<exists>fs1 fi fs2. fsSet media now path cnt fs = Some (True, fs1) \<and> fsStat os media path fs1 = (Some fi, fs2) \<and> readInfo rd ra fs2 fi = Some cnt \<and>
    fi_size fi = int (length cnt) \<and> fi_ext fi = fileExt path"
  using stored_found [OF assms, of media now cnt os rd ra] by blast

theorem set_then_stat_witness:
  "\<exists>fs1 fi fs2. fsSet (\<lambda>e. False) 2 ''lib/a.js'' ''new'' (snd (the (fsSet (\<lambda>e. False) 1 ''lib/a.js'' ''old text''
      (CacheExtensions [''.js''] (NewFileSystem (\<lambda>p r. []) ''/srv'' False))))) = Some (True, fs1) \<and>
     fsStat Map.empty (\<lambda>e. False) ''lib/a.js'' fs1 = (Some fi, fs2) \<and> readInfo Map.empty Map.empty fs2 fi = Some ''new''"
proof -
  let ?blank = "CacheExtensions [''.js''] (NewFileSystem (\<lambda>p r. []) ''/srv'' False)"
  let ?fs = "snd (the (fsSet (\<lambda>e. False) 1 ''lib/a.js'' ''old text'' ?blank))"
  have e: "fileExt ''lib/a.js'' = ''.js''" by (simp add: fileExt_def)
  have b: "fs_ok ?blank" by (rule CacheExtensions_new_ok)
  then have "fs_ok ?fs" using fsSet_stores [OF b, of "''lib/a.js''" "\<lambda>e. False" 1 "''old text''"] fsSet_ok [OF b] e by fastforce
  moreover have "level ''lib/a.js''" by (simp add: level_def All_less_Suc2 numeral_eq_Suc)
  moreover have "cachedfiles ?fs (keyOf ''lib/a.js'') = None"
    by (simp add: fsSet_def shareCache_def notifyAll_def keyOf_def CacheExtensions_def fileExt_def Let_def)
  ultimately show ?thesis
    using set_then_stat [of ?fs "''lib/a.js''" "\<lambda>e. False" 2 "''new''" Map.empty Map.empty Map.empty] e by (auto simp: unshadowed_def)
qed

text \<open>
  Defect: a text stored under a name whose file is already cached from the disk, with an extension that is cached but not active, is not seen: the
  cache answers with the file.
\<close>

lemma stale_cache:
  assumes "fs_ok fs" "fileExt path \<noteq> ''''" "level path" "fileExt path \<in> set (cachexts fs)" "fileExt path \<notin> set (activexts fs)"
    "cachedfiles fs (keyOf path) = Some c" "embed fs (keyOf path) \<noteq> Some c"
  shows "\<exists>fs1. fsSet media now path cnt fs = Some (True, fs1) \<and> fst (fsStat os media path fs1) = Some (infoOf fs c)"
proof -
  from fsSet_stores [OF assms(1,2), of media now cnt] obtain fs1 i where f: "fsSet media now path cnt fs = Some (True, fs1)" "stores path cnt fs fs1 i"
    by blast
  from fsStat_level [OF assms(2,3), of os media] have st: "fsStat os media path fs1 = fromEmbed i (keyOf path) fs1"
    using f(2) by (auto simp: stores_def)
  have "c < length (heap fs)" using fs_ok_named(1) [OF assms(1), of "keyOf path" c] assms(6) by (simp add: named_def)
  then have "c \<noteq> i" using f(2) assms(7) by (auto simp: stores_def split: option.splits)
  then have "heap fs1 ! c = heap fs ! c" using f(2) \<open>c < length (heap fs)\<close> by (simp add: stores_def)
  then show ?thesis using assms(4-6) f st by (auto simp: fromEmbed_def stores_def)
qed

section \<open>Mounted file systems\<close>

text \<open>Where \<open>Set\<close> puts a file is a mount point at a slash of the path, and the rest of the path names the same file.\<close>

lemma dirOf_last: "sep \<in> set p \<Longrightarrow> \<exists>r. dirOf p = r @ [sep]"
proof (cases "dropWhile (\<lambda>c. c \<noteq> sep) (rev p)")
  case (Cons x xs)
  then have "x = sep" using hd_dropWhile [of "\<lambda>c. c \<noteq> sep" "rev p"] by simp
  then show ?thesis using Cons by (simp add: dirOf_def)
qed (auto simp: dropWhile_eq_Nil_conv)

lemma setLoop_split:
  assumes "setLoop mnt r p ns = Some (root, rest)" "\<forall>n \<in> set ns. n < length r"
  shows "\<exists>k < length r. r ! k = sep \<and> root = take k r \<and> rest = drop k p \<and> mnt root \<noteq> None"
  using assms
proof (induction ns)
  case (Cons n ns)
  let ?k = "length r - (n + 1)"
  show ?case
  proof (cases "r ! ?k = sep \<and> mnt (take ?k r) \<noteq> None")
    case True
    then show ?thesis using Cons.prems by (intro exI [of _ ?k]) (auto simp: Let_def)
  next
    case False
    then have "setLoop mnt r p ns = Some (root, rest)" using Cons.prems(1) by (simp only: setLoop.simps Let_def if_False)
    then show ?thesis using Cons.IH Cons.prems(2) by simp
  qed
qed simp

lemma setTarget_split:
  assumes "setTarget mnt path = Some (root, rest)" "mnt '''' = None" "fileExt path \<noteq> ''''"
  shows "\<exists>k < length (keyOf path). keyOf path ! k = sep \<and> take (if k = 0 then 1 else k) (keyOf path) = root \<and> keyOf rest = drop k (keyOf path) \<and>
    mnt root \<noteq> None"
proof -
  let ?p = "keyOf path"
  have p0: "path \<noteq> ''''" "?p \<noteq> ''''" "?p ! 0 = sep" using assms(3) by (auto simp: fileExt_def keyOf_def)
  then have ps: "sep \<in> set ?p" by (cases ?p) auto
  obtain r where r: "dirOf ?p = r @ [sep]" using dirOf_last [OF ps] by blast
  have p: "?p = r @ sep # baseName ?p" using dir_base [of ?p] r by simp
  have b: "baseName ?p \<noteq> ''''" "sep \<notin> set (baseName ?p)"
    using base_ext [of ?p] assms(3) by (auto simp: keyOf_ext baseName_def dest: set_takeWhileD)
  let ?root = "setRoot ?p"
  have t: "setTarget mnt path = (if mnt ?root \<noteq> None then Some (?root, drop (length ?root) ?p) else setLoop mnt ?root ?p [0..<length ?root])"
    using p0(1) by (simp add: setTarget_def Let_def)
  show ?thesis
  proof (cases "r = ''''")
    case True
    then have root: "?root = ''/''" and q: "?p = sep # baseName ?p" using r p by (auto simp: setRoot_def)
    have "mnt ''/'' \<noteq> None" using assms(1,2) t unfolding root by (auto simp: Let_def split: if_splits)
    then have "root = ''/''" "rest = baseName ?p" using assms(1) t q unfolding root by (auto, metis drop_Suc_Cons drop0)
    moreover have "keyOf (baseName ?p) = ?p" using b q by (cases "baseName ?p") (auto simp: keyOf_def)
    ultimately show ?thesis using q p0 \<open>mnt ''/'' \<noteq> None\<close> by (intro exI [of _ 0]) (auto, metis take0 take_Suc_Cons)
  next
    case False
    have r0: "r ! 0 = sep" using p p0(3) False by (metis length_greater_0_conv nth_append)
    then have root: "?root = r" using r False by (simp add: setRoot_def nth_append)
    have "\<exists>k \<le> length r. 0 < k \<and> ?p ! k = sep \<and> root = take k r \<and> rest = drop k ?p \<and> mnt root \<noteq> None"
    proof (cases "mnt r \<noteq> None")
      case True
      have "?p ! length r = sep" using p by (metis nth_append_length)
      then show ?thesis using assms(1) t True False unfolding root by (intro exI [of _ "length r"]) auto
    next
      case mn: False
      then obtain k where k: "k < length r" "r ! k = sep" "root = take k r" "rest = drop k ?p" "mnt root \<noteq> None"
        using setLoop_split [of mnt r ?p "[0..<length r]" root rest] assms(1) t unfolding root by auto
      have "?p ! k = sep" using k(1,2) p by (metis nth_append)
      moreover have "0 < k" using k(3,5) assms(2) by (cases k) auto
      ultimately show ?thesis using k by (intro exI [of _ k]) auto
    qed
    then obtain k where k: "k \<le> length r" "0 < k" "?p ! k = sep" "root = take k r" "rest = drop k ?p" "mnt root \<noteq> None" by blast
    have "length r < length ?p" by (subst p) simp
    then have l: "k < length ?p" using k(1) by simp
    have "take k ?p = take k r" using k(1) p by (metis append_take_drop_id diff_is_0_eq take_0 take_append append_Nil2)
    moreover have "keyOf rest = rest" using k(3,5) l by (simp add: keyOf_def hd_drop_conv_nth)
    ultimately show ?thesis using k l by (intro exI [of _ k]) auto
  qed
qed

lemma level_drop: "level p \<Longrightarrow> level (drop k p)"
  using level_at by (auto simp: level_def)

lemma fileExt_drop:
  assumes "k < length p" "p ! k = sep"
  shows "fileExt (drop k p) = fileExt p"
proof -
  have "sep \<in> set (rev (drop k p))" using assms by (metis hd_drop_conv_nth hd_in_set drop_eq_Nil2 linorder_not_le set_rev)
  moreover have "rev p = rev (drop k p) @ rev (take k p)" by (metis append_take_drop_id rev_append)
  ultimately have "takeWhile (\<lambda>c. c \<noteq> sep) (rev p) = takeWhile (\<lambda>c. c \<noteq> sep) (rev (drop k p))"
    using takeWhile_append1 [of sep "rev (drop k p)" "\<lambda>c. c \<noteq> sep"] by simp
  then show ?thesis unfolding fileExt_def by presburger
qed

lemma keyOf_idem [simp]: "keyOf (keyOf p) = keyOf p"
  by (simp add: keyOf_def)

lemma fsSet_key: "rest \<noteq> '''' \<Longrightarrow> fsSet media now (keyOf rest) cnt fs = fsSet media now rest cnt fs"
  using keyOf_ext [of rest] by (cases "rest ! 0 = sep") (simp_all add: fsSet_def keyOf_def)

text \<open>
  What the mount points need of a file system to find again what they stored: the leading slash of a name does not matter, and an
  admissible name is stored and then found, as a file that holds the text.
\<close>

locale file_store =
  fixes store :: "string \<Rightarrow> string \<Rightarrow> 'f \<Rightarrow> 'f option" and look :: "'f \<Rightarrow> string \<Rightarrow> 'i option"
    and holds :: "'f \<Rightarrow> 'i \<Rightarrow> string \<Rightarrow> bool" and admits :: "'f \<Rightarrow> string \<Rightarrow> bool"
  assumes store_key: "rest \<noteq> '''' \<Longrightarrow> store (keyOf rest) cnt f = store rest cnt f"
    and admits_key: "admits f rest \<Longrightarrow> admits f (keyOf rest)"
    and store_found: "admits f p \<Longrightarrow> fileExt p \<noteq> '''' \<Longrightarrow> level p \<Longrightarrow>
      \<exists>f1 fi. store p cnt f = Some f1 \<and> look f1 p = Some fi \<and> holds f1 fi cnt"
begin

lemma mounted_found:
  assumes "setTarget mnt path = Some (root, rest)" "mnt root = Some f" "mnt '''' = None" "admits f rest" "fileExt path \<noteq> ''''" "level (keyOf path)"
  shows "fileExt rest = fileExt path"
    "\<exists>f1 fi. store rest cnt f = Some f1 \<and> look f1 (keyOf rest) = Some fi \<and> holds f1 fi cnt \<and> StatContext (mnt(root \<mapsto> f1)) look path \<noteq> None \<and>
      (misses (mnt(root \<mapsto> f1)) look (keyOf path) (\<lambda>k. drop k (keyOf path) \<noteq> keyOf rest) \<longrightarrow> StatContext (mnt(root \<mapsto> f1)) look path = Some fi)"
proof -
  obtain k where k: "k < length (keyOf path)" "keyOf path ! k = sep" "take (if k = 0 then 1 else k) (keyOf path) = root"
      "keyOf rest = drop k (keyOf path)"
    using setTarget_split [OF assms(1,3,5)] by blast
  have e: "fileExt (keyOf rest) = fileExt path" "fileExt rest = fileExt path" using fileExt_drop [OF k(1,2)] k(4) keyOf_ext by metis+
  then show "fileExt rest = fileExt path" by simp
  have "rest \<noteq> ''''" using e(2) assms(5) by (auto simp: fileExt_def)
  from store_key [OF this, of cnt f] obtain f1 fi where
    f1: "store rest cnt f = Some f1" "look f1 (keyOf rest) = Some fi" "holds f1 fi cnt"
    using store_found [OF admits_key [OF assms(4)], of cnt] e(1) assms(5) level_drop [OF assms(6), of k] k(4) by auto
  let ?mnt = "mnt(root \<mapsto> f1)"
  have l: "lookupAt ?mnt look (keyOf path) k = Some fi" using f1(2) k(3,4) by (auto simp: lookupAt_def)
  have p: "path \<noteq> ''''" "searched path = keyOf path"
    using assms(5) keyOf_ext [of path] by (auto simp: searched_def keyOf_def Let_def fileExt_def)
  have "case StatContext ?mnt look path of Some fi \<Rightarrow> hits ?mnt look (keyOf path) fi | None \<Rightarrow> misses ?mnt look (keyOf path) (\<lambda>k. True)"
    using statLoop_level [of "keyOf path" ?mnt look 0] StatContext_searched [of path ?mnt look] assms(6) p by (simp add: misses_def)
  then obtain fi1 where s: "StatContext ?mnt look path = Some fi1" "hits ?mnt look (keyOf path) fi1"
    using k(1,2) l by (auto simp: misses_def split: option.splits)
  have "fi1 = fi" if m: "misses ?mnt look (keyOf path) (\<lambda>k. drop k (keyOf path) \<noteq> keyOf rest)"
  proof -
    obtain j where j: "j < length (keyOf path)" "keyOf path ! j = sep" "lookupAt ?mnt look (keyOf path) j = Some fi1"
      using s(2) by (auto simp: hits_def)
    then have "drop j (keyOf path) = drop k (keyOf path)" using m k(4) by (auto simp: misses_def)
    then have "j = k" using j(1) k(1) by (metis diff_diff_cancel length_drop less_or_eq_imp_le)
    then show ?thesis using j(3) l by simp
  qed
  then show "\<exists>f1 fi. store rest cnt f = Some f1 \<and> look f1 (keyOf rest) = Some fi \<and> holds f1 fi cnt \<and> StatContext (mnt(root \<mapsto> f1)) look path \<noteq> None \<and>
      (misses (mnt(root \<mapsto> f1)) look (keyOf path) (\<lambda>k. drop k (keyOf path) \<noteq> keyOf rest) \<longrightarrow> StatContext (mnt(root \<mapsto> f1)) look path = Some fi)"
    using f1 s(1) by (intro exI [of _ f1] exI [of _ fi]) auto
qed

end

interpretation disk: file_store "\<lambda>p cnt f. map_option snd (fsSet media now p cnt f)" "\<lambda>f r. fst (fsStat os media r f)"
  "\<lambda>f fi cnt. readInfo rd ra f fi = Some cnt \<and> fi_size fi = int (length cnt)" "\<lambda>f p. fs_ok f \<and> unshadowed f p" for media now os rd ra
proof unfold_locales
  show "map_option snd (fsSet media now (keyOf rest) cnt f) = map_option snd (fsSet media now rest cnt f)" if "rest \<noteq> ''''" for rest cnt f
    using fsSet_key [OF that] by simp
  show "fs_ok f \<and> unshadowed f (keyOf rest)" if "fs_ok f \<and> unshadowed f rest" for f rest
    using that by (simp add: unshadowed_def keyOf_ext)
  show "\<exists>f1 fi. map_option snd (fsSet media now p cnt f) = Some f1 \<and> fst (fsStat os media p f1) = Some fi \<and>
      readInfo rd ra f1 fi = Some cnt \<and> fi_size fi = int (length cnt)"
    if "fs_ok f \<and> unshadowed f p" "fileExt p \<noteq> ''''" "level p" for f p cnt
    using stored_found [of f p media now cnt os rd ra] that by force
qed

end
