(* ===== verification/FsSync.thy ===== *)
theory FsSync
  imports FileSys "HOL-Library.Monad_Syntax"
begin

text \<open>
  Taking files out of a file system and keeping its cache in step with the disk (\<open>Remove\<close>, \<open>Exist\<close>, \<open>Close\<close>, \<open>AutoSync\<close> and \<open>syncPath\<close> of
  \<open>src/fs/filesys.go\<close>, and the handlers of the watcher's events in \<open>src/fs/multifilesys.go\<close>).  The operating system is given by \<open>os\<close>
  (\<open>Stat\<close>), \<open>rd\<close> (opening and reading a file) and \<open>ls\<close> (\<open>ReadDir\<close>, names with whether they are directories).  A callback is what it
  reports to the notifiers.  Where the code ranges over a map, the order \<open>ks\<close> in which the map yields its keys is an argument.
\<close>

section \<open>Looking and removing\<close>

type_synonym callback = "finfo option \<Rightarrow> notify \<Rightarrow> (finfo option \<times> notify) list"

definition Cached :: "string \<Rightarrow> filesys \<Rightarrow> bool" where
  "Cached path fs \<longleftrightarrow> cachedfiles fs path \<noteq> None"

definition existFs :: "(string \<rightharpoonup> osinfo) \<Rightarrow> string \<Rightarrow> filesys \<Rightarrow> bool" where
  "existFs os path fs \<longleftrightarrow> Cached path fs \<or> embed fs path \<noteq> None \<or>
     (if archfls fs \<noteq> [] then map_of (archfls fs) path \<noteq> None else os (fs_root fs @ path) \<noteq> None)"

definition closeBuf :: "nat \<Rightarrow> filesys \<Rightarrow> filesys" where
  "closeBuf i fs = fs\<lparr>heap := (heap fs)[i := (heap fs ! i)\<lparr>b_text := None\<rparr>]\<rparr>"

definition callBack :: "callback option \<Rightarrow> finfo option \<Rightarrow> notify \<Rightarrow> filesys \<Rightarrow> filesys" where
  "callBack cb fi n fs = (case cb of None \<Rightarrow> fs | Some f \<Rightarrow> fs\<lparr>noted := noted fs @ f fi n\<rparr>)"

definition dropEmbed :: "string \<Rightarrow> filesys \<Rightarrow> filesys" where
  "dropEmbed k fs = fs\<lparr>embed := (embed fs)(k := None)\<rparr>"

definition dropCached :: "string \<Rightarrow> filesys \<Rightarrow> filesys" where
  "dropCached k fs = fs\<lparr>cachedfiles := (cachedfiles fs)(k := None)\<rparr>"

text \<open>
  Removing one file.  Closing the cached entry takes its information away, so when the file is in memory and cached, the second call of
  the callback gets no information.
\<close>

definition removeFile :: "callback option \<Rightarrow> string \<Rightarrow> filesys \<Rightarrow> bool \<times> filesys" where
  "removeFile cb path fs =
     (let ebd = embed fs path; chd = cachedfiles fs path;
          fs1 = (case ebd of
                   None \<Rightarrow> fs
                 | Some i \<Rightarrow>
                     (let a = dropEmbed path fs;
                          b = (case chd of None \<Rightarrow> a | Some c \<Rightarrow> closeBuf c (dropCached path a)) in
                      closeBuf i (callBack cb (Some (infoOf b i)) NOTE_REMOVE b)));
          fs2 = (case chd of
                   None \<Rightarrow> fs1
                 | Some c \<Rightarrow> closeBuf c (callBack cb (if ebd = None then Some (infoOf fs1 c) else None) NOTE_REMOVE (dropCached path fs1))) in
      (ebd \<noteq> None \<or> chd \<noteq> None, fs2))"

text \<open>The two loops over the files in memory below a directory.\<close>

definition below :: "string \<Rightarrow> string \<Rightarrow> bool" where
  "below p k \<longleftrightarrow> length p < length k \<and> take (length p) k = p"

fun removeBelow :: "callback option \<Rightarrow> string \<Rightarrow> string list \<Rightarrow> bool \<times> filesys \<Rightarrow> bool \<times> filesys" where
  "removeBelow cb p [] r = r"
| "removeBelow cb p (k # ks) (did, fs) =
     (case embed fs k of
        Some i \<Rightarrow>
          (if below p k then
             (let a = (case cachedfiles fs k of None \<Rightarrow> fs | Some c \<Rightarrow> closeBuf c (dropCached k fs)); b = dropEmbed k a in
              removeBelow cb p ks (True, closeBuf i (callBack cb (Some (infoOf b i)) NOTE_REMOVE b)))
           else removeBelow cb p ks (did, fs))
      | None \<Rightarrow> removeBelow cb p ks (did, fs))"

fun removeAgain :: "callback option \<Rightarrow> string \<Rightarrow> string list \<Rightarrow> bool \<times> filesys \<Rightarrow> bool \<times> filesys" where
  "removeAgain cb p [] r = r"
| "removeAgain cb p (k # ks) (did, fs) =
     (case embed fs k of
        Some i \<Rightarrow>
          (if below p k then
             (let a = dropCached k (closeBuf i (dropEmbed k fs)) in
              removeAgain cb p ks (True, closeBuf i (callBack cb (Some (infoOf a i)) NOTE_REMOVE a)))
           else removeAgain cb p ks (did, fs))
      | None \<Rightarrow> removeAgain cb p ks (did, fs))"

definition fsRemove :: "callback option \<Rightarrow> string list \<Rightarrow> string \<Rightarrow> filesys \<Rightarrow> bool \<times> filesys" where
  "fsRemove cb ks path fs =
     (if path = '''' then (False, fs)
      else if fileExt path \<noteq> '''' \<and> fileExt path \<in> set (cachexts fs) then removeFile cb path fs
      else if fileExt path = '''' \<and> path ! 0 = sep then
        (let p = (if last path \<noteq> sep then path @ [sep] else path) in removeAgain cb p ks (removeBelow cb p ks (False, fs)))
      else (False, fs))"

text \<open>\<open>Close\<close>: the cached files are closed, the files in memory stay; the file systems it was attached to take it out of their map.\<close>

definition closeFs :: "string list \<Rightarrow> filesys \<Rightarrow> filesys" where
  "closeFs ks fs =
     (foldl (\<lambda>f k. case cachedfiles f k of None \<Rightarrow> f | Some c \<Rightarrow> dropCached k (closeBuf c f)) fs ks)
       \<lparr>attached := False, defaultexts := [], cachexts := [], activexts := [], archfls := []\<rparr>"

section \<open>Synchronising with the disk\<close>

text \<open>The part after \<open>loadchdsts\<close>; \<open>again\<close> is whether the path was cached before.\<close>

definition loadCached :: "(string \<rightharpoonup> string) \<Rightarrow> (string \<Rightarrow> bool) \<Rightarrow> callback option \<Rightarrow> string \<Rightarrow> osinfo \<Rightarrow> bool \<Rightarrow> filesys \<Rightarrow> filesys" where
  "loadCached rd media cb p oi again fs =
     (if os_size oi > 0 then
        (case rd (fs_root fs @ p) of
           None \<Rightarrow> fs
         | Some t \<Rightarrow>
             (let i = length (heap fs); atv = (fileExt p \<in> set (activexts fs) \<and> \<not> fs_raw fs);
                  fi = NewFileInfo (os_name oi) (os_size oi) (os_mod oi) (os_dir oi) atv (\<not> atv) (media (fileExt p)) p (mltypath fs) (Buf i) in
              callBack cb (Some fi) (if again then NOTE_AMMEND else NOTE_CREATE)
                (fs\<lparr>heap := heap fs @ [\<lparr>b_text = Some t, b_info = fi\<rparr>], cachedfiles := (cachedfiles fs)(p \<mapsto> i)\<rparr>)))
      else fs)"

definition syncFile :: "(string \<rightharpoonup> string) \<Rightarrow> (string \<Rightarrow> bool) \<Rightarrow> callback option \<Rightarrow> string \<Rightarrow> osinfo \<Rightarrow> filesys \<Rightarrow> filesys" where
  "syncFile rd media cb p oi fs =
     (if fileExt p \<noteq> '''' \<and> fileExt p \<in> set (cachexts fs) then
        (case cachedfiles fs p of
           None \<Rightarrow> loadCached rd media cb p oi False fs
         | Some c \<Rightarrow>
             (if fi_modfy (infoOf fs c) = os_mod oi then fs
              else
                (let fs1 = (if os_size oi = 0 then callBack cb (Some (infoOf fs c)) NOTE_REMOVE fs else fs) in
                 loadCached rd media cb p oi True (dropCached p (closeBuf c fs1)))))
      else fs)"

text \<open>\<open>syncthis\<close>, which recurses through the directories; the fuel bounds their depth.\<close>

fun syncThis :: "(string \<rightharpoonup> osinfo) \<Rightarrow> (string \<rightharpoonup> string) \<Rightarrow> (string \<Rightarrow> (string \<times> bool) list) \<Rightarrow> (string \<Rightarrow> bool) \<Rightarrow> callback option \<Rightarrow> nat \<Rightarrow> string \<Rightarrow>
    filesys \<Rightarrow> filesys option"
  and syncEntries :: "(string \<rightharpoonup> osinfo) \<Rightarrow> (string \<rightharpoonup> string) \<Rightarrow> (string \<Rightarrow> (string \<times> bool) list) \<Rightarrow> (string \<Rightarrow> bool) \<Rightarrow> callback option \<Rightarrow> nat \<Rightarrow> string \<Rightarrow>
    (string \<times> bool) list \<Rightarrow> filesys \<Rightarrow> filesys option" where
  "syncThis os rd ls media cb 0 sncpath fs = None"
| "syncThis os rd ls media cb (Suc n) sncpath fs =
     (if sncpath = '''' then Some fs
      else
        (let p = keyOf sncpath in
         case os (fs_root fs @ p) of
           None \<Rightarrow> Some fs
         | Some oi \<Rightarrow>
             (if os_dir oi then
                (let d = (if last p \<noteq> sep then p @ [sep] else p);
                     fs1 = (if d \<noteq> ''/'' \<and> cb \<noteq> None \<and> attached fs then fs\<lparr>watching := watching fs @ [fs_root fs @ butlast d]\<rparr> else fs) in
                 syncEntries os rd ls media cb n d (ls (fs_root fs @ d)) fs1)
              else Some (syncFile rd media cb p oi fs))))"
| "syncEntries os rd ls media cb n d [] fs = Some fs"
| "syncEntries os rd ls media cb n d ((nm, isdir) # es) fs =
     do { fs1 \<leftarrow> syncThis os rd ls media cb n (d @ nm @ (if isdir then [sep] else '''')) fs;
          syncEntries os rd ls media cb n d es fs1 }"

section \<open>Events of the watcher\<close>

text \<open>The path of an event without the root directory; shorter paths panic.\<close>

definition eventPath :: "string \<Rightarrow> filesys \<Rightarrow> string option" where
  "eventPath path fs = (if length (fs_root fs) \<le> length path then Some (drop (length (fs_root fs)) path) else None)"

definition EventRemove :: "string list \<Rightarrow> string \<Rightarrow> filesys \<Rightarrow> filesys option" where
  "EventRemove ks path fs =
     do { p \<leftarrow> eventPath path fs;
          Some (if p = '''' then fs else snd (fsRemove (Some (\<lambda>fi n. [(fi, NOTE_REMOVE)])) ks p fs)) }"

text \<open>\<open>EventRename\<close> has the same body.\<close>

definition EventRename :: "string list \<Rightarrow> string \<Rightarrow> filesys \<Rightarrow> filesys option" where
  "EventRename = EventRemove"

definition EventCreate :: "(string \<rightharpoonup> osinfo) \<Rightarrow> (string \<rightharpoonup> string) \<Rightarrow> (string \<Rightarrow> (string \<times> bool) list) \<Rightarrow> (string \<Rightarrow> bool) \<Rightarrow> nat \<Rightarrow> string \<Rightarrow> filesys \<Rightarrow>
    filesys option" where
  "EventCreate os rd ls media fuel path fs =
     do { p \<leftarrow> eventPath path fs;
          if p = '''' then Some fs
          else syncThis os rd ls media (Some (\<lambda>fi n. [(fi, NOTE_CREATE), (fi, NOTE_AMMEND)])) fuel p fs }"

definition EventWrite :: "(string \<rightharpoonup> osinfo) \<Rightarrow> (string \<rightharpoonup> string) \<Rightarrow> (string \<Rightarrow> (string \<times> bool) list) \<Rightarrow> (string \<Rightarrow> bool) \<Rightarrow> nat \<Rightarrow> string \<Rightarrow> filesys \<Rightarrow>
    filesys option" where
  "EventWrite os rd ls media fuel path fs =
     do { p \<leftarrow> eventPath path fs;
          if p = '''' then Some fs else syncThis os rd ls media (Some (\<lambda>fi n. [(fi, n)])) fuel p fs }"

section \<open>Removing keeps the others\<close>

lemma drop_simps [simp]:
  "embed (dropEmbed k fs) = (embed fs)(k := None)" "cachedfiles (dropEmbed k fs) = cachedfiles fs" "heap (dropEmbed k fs) = heap fs"
  "embed (dropCached k fs) = embed fs" "cachedfiles (dropCached k fs) = (cachedfiles fs)(k := None)" "heap (dropCached k fs) = heap fs"
  "embed (closeBuf i fs) = embed fs" "cachedfiles (closeBuf i fs) = cachedfiles fs"
  "heap (closeBuf i fs) = (heap fs)[i := (heap fs ! i)\<lparr>b_text := None\<rparr>]"
  "embed (callBack cb fi n fs) = embed fs" "cachedfiles (callBack cb fi n fs) = cachedfiles fs" "heap (callBack cb fi n fs) = heap fs"
  by (simp_all add: dropEmbed_def dropCached_def closeBuf_def callBack_def split: option.splits)

text \<open>What the operating system is asked and how the answer is presented is fixed by these fields.\<close>

definition settings :: "filesys \<Rightarrow> bool \<times> string \<times> string \<times> string list \<times> string list \<times> string list \<times> bool \<times> (string \<times> archfile) list" where
  "settings fs = (fs_raw fs, mltypath fs, fs_root fs, cachexts fs, defaultexts fs, activexts fs, attached fs, archfls fs)"

lemma settings_simps [simp]:
  "settings (dropEmbed k fs) = settings fs" "settings (dropCached k fs) = settings fs" "settings (closeBuf i fs) = settings fs"
  "settings (callBack cb fi n fs) = settings fs"
  "settings (fs\<lparr>heap := h\<rparr>) = settings fs" "settings (fs\<lparr>embed := e\<rparr>) = settings fs" "settings (fs\<lparr>cachedfiles := c\<rparr>) = settings fs"
  "settings (fs\<lparr>watching := w\<rparr>) = settings fs"
  by (simp_all add: settings_def dropEmbed_def dropCached_def closeBuf_def callBack_def split: option.splits)

text \<open>The step every removal consists of: the name goes, and its objects may be closed.\<close>

definition released :: "string \<Rightarrow> filesys \<Rightarrow> filesys \<Rightarrow> bool" where
  "released k fs fs1 \<longleftrightarrow>
     embed fs1 = (embed fs)(k := None) \<and> cachedfiles fs1 = (cachedfiles fs)(k := None) \<and> settings fs1 = settings fs \<and>
     length (heap fs1) = length (heap fs) \<and>
     (\<forall>j < length (heap fs). infoOf fs1 j = infoOf fs j \<and> (\<not> named fs k j \<longrightarrow> heap fs1 ! j = heap fs ! j))"

lemma released_same:
  assumes "fs_ok fs" "released k fs fs1" "fileExt k \<noteq> ''''" "fileExt q \<noteq> ''''" "q \<noteq> k" "named fs q j"
  shows "heap fs1 ! j = heap fs ! j"
  using assms fs_ok_sole [OF assms(1) assms(6)] fs_ok_named(1) [OF assms(1,6)] unfolding released_def by metis

lemma released_named: "released k fs fs1 \<Longrightarrow> named fs1 q j \<Longrightarrow> q \<noteq> k \<and> named fs q j"
  by (auto simp: released_def named_def split: if_splits)

lemma released_ok:
  assumes "fs_ok fs" "released k fs fs1" "fileExt k \<noteq> ''''"
  shows "fs_ok fs1"
proof (rule fs_okI, goal_cases)
  case (1 q j)
  then have "q \<noteq> k" "embed fs q = Some j" using assms(2) by (auto simp: released_def split: if_splits)
  then show ?case using fs_ok_embed [OF assms(1)] released_same [OF assms, of q j] by (simp add: named_def)
next
  case (2 q j)
  note q = released_named [OF assms(2) 2]
  note ok = fs_ok_named [OF assms(1), of q j]
  show ?case using q ok released_same [OF assms, of q j] assms(2) by (cases "fileExt q = ''''") (auto simp: released_def)
next
  case (3 q q' j)
  then show ?case using released_named [OF assms(2)] fs_ok_sole [OF assms(1), of q j q'] by blast
next
  case 4
  then show ?case using fs_ok_archives [OF assms(1)] assms(2) by (simp add: released_def settings_def)
qed

lemma removeFile_released:
  assumes "fs_ok fs" "removeFile cb path fs = (did, fs1)"
  shows "released path fs fs1" "did \<longleftrightarrow> embed fs path \<noteq> None \<or> cachedfiles fs path \<noteq> None"
proof -
  show "did \<longleftrightarrow> embed fs path \<noteq> None \<or> cachedfiles fs path \<noteq> None" using assms(2) by (simp add: removeFile_def Let_def)
  show "released path fs fs1"
    using assms(2) fs_ok_named(1) [OF assms(1), of path]
    by (cases "embed fs path"; cases "cachedfiles fs path")
      (auto simp: removeFile_def Let_def released_def named_def nth_list_update fun_upd_idem)
qed

section \<open>What is looked up afterwards\<close>

text \<open>The file system as it would be if nothing were in memory or cached.\<close>

definition onlyDisk :: "filesys \<Rightarrow> filesys" where
  "onlyDisk fs = fs\<lparr>embed := Map.empty, cachedfiles := Map.empty\<rparr>"

lemma fromArchive_rdr: "fs_ok fs \<Longrightarrow> fst (fromArchive media p fs) = Some fi \<Longrightarrow> \<exists>p. fi_rdr fi = InArchive p"
  using fs_ok_archives [of fs]
  by (auto simp: fromArchive_def archives_ok_def list_all_iff Let_def split: option.splits dest!: map_of_SomeD)

lemma fromArchive_settings: "settings fs1 = settings fs \<Longrightarrow> fst (fromArchive media p fs1) = fst (fromArchive media p fs)"
  by (simp add: fromArchive_def settings_def Let_def split: option.splits)

lemma fromDisk_settings:
  assumes "settings fs1 = settings fs" "cachedfiles fs1 (rt @ nm) = cachedfiles fs (rt @ nm)"
    "\<And>c. cachedfiles fs (rt @ nm) = Some c \<Longrightarrow> infoOf fs1 c = infoOf fs c"
  shows "fst (fromDisk os media e rt nm fs1) = fst (fromDisk os media e rt nm fs)"
proof -
  have "fs_raw fs1 = fs_raw fs" "cachexts fs1 = cachexts fs" "activexts fs1 = activexts fs" "archfls fs1 = archfls fs" "fs_root fs1 = fs_root fs"
      "mltypath fs1 = mltypath fs"
    using assms(1) by (auto simp: settings_def)
  then show ?thesis
    using assms(2,3) fromArchive_settings [OF assms(1), of media] by (auto simp: fromDisk_def Let_def split: option.splits)
qed

lemma fsStat_gone:
  assumes "fileExt q \<noteq> ''''" "level q" "embed fs1 (keyOf q) = None" "cachedfiles fs1 (keyOf q) = None" "settings fs1 = settings fs"
  shows "fst (fsStat os media q fs1) = fst (fsStat os media q (onlyDisk fs))"
proof -
  obtain rt nm where k: "rt @ nm = keyOf q" "\<And>fs. fsStat os media q fs =
      (case embed fs (keyOf q) of Some i \<Rightarrow> fromEmbed i (keyOf q) fs | None \<Rightarrow> fromDisk os media (fileExt q) rt nm fs)"
    using fsStat_level [OF assms(1,2)] by blast
  have "settings fs1 = settings (onlyDisk fs)" using assms(5) by (simp add: onlyDisk_def settings_def)
  then show ?thesis using fromDisk_settings [of fs1 "onlyDisk fs" rt nm os media "fileExt q"] assms(3,4) by (simp add: k onlyDisk_def)
qed

lemma fsStat_kept:
  assumes "fs_ok fs" "fileExt q \<noteq> ''''" "level q" "embed fs1 (keyOf q) = embed fs (keyOf q)" "cachedfiles fs1 (keyOf q) = cachedfiles fs (keyOf q)"
    "settings fs1 = settings fs" "\<And>j. named fs (keyOf q) j \<Longrightarrow> heap fs1 ! j = heap fs ! j"
  shows "fst (fsStat os media q fs1) = fst (fsStat os media q fs)"
    and "fst (fsStat os media q fs) = Some fi \<Longrightarrow> readInfo rd ra fs1 fi = readInfo rd ra fs fi"
proof -
  obtain rt nm where k: "rt @ nm = keyOf q" "\<And>fs. fsStat os media q fs =
      (case embed fs (keyOf q) of Some i \<Rightarrow> fromEmbed i (keyOf q) fs | None \<Rightarrow> fromDisk os media (fileExt q) rt nm fs)"
    using fsStat_level [OF assms(2,3)] by blast
  show "fst (fsStat os media q fs1) = fst (fsStat os media q fs)"
    using assms(4-7) fromDisk_settings [of fs1 fs rt nm os media "fileExt q"]
    by (auto simp: k fromEmbed_def settings_def named_def split: option.splits)
  assume "fst (fsStat os media q fs) = Some fi"
  then have "(\<exists>p. fi_rdr fi = OnDisk p \<or> fi_rdr fi = InArchive p) \<or> (\<exists>j. named fs (keyOf q) j \<and> fi = infoOf fs j)"
    using fromArchive_rdr [OF assms(1), of media "keyOf q" fi]
    by (auto simp: k fromDisk_def fromEmbed_def named_def Let_def split: option.splits if_splits)
  then show "readInfo rd ra fs1 fi = readInfo rd ra fs fi"
    using assms(7) fs_ok_named(2) [OF assms(1)] by (auto simp: readInfo_def)
qed

text \<open>
  Claim C19: removing a file takes exactly this file out.  For a name that starts with a slash, has an extension that is cached and no \<open>/../\<close>,
  \<open>Remove\<close> reports whether the file was in memory or cached; afterwards \<open>StatContext\<close> of the name answers as if nothing were in memory or
  cached, and for every other name with an extension and without \<open>/../\<close> it gives the same answer as before, with a reader that delivers the
  same text.  Names without an extension (directories, whose answer may be a removed default file) are not covered, and with an
  extension that is not cached \<open>Remove\<close> does nothing.
\<close>

theorem remove_exact:
  assumes "fs_ok fs" "fsRemove cb ks path fs = (did, fs1)" "path ! 0 = sep" "fileExt path \<noteq> ''''" "fileExt path \<in> set (cachexts fs)" "level path"
  shows "fs_ok fs1 \<and> (did \<longleftrightarrow> embed fs path \<noteq> None \<or> Cached path fs) \<and>
    fst (fsStat os media path fs1) = fst (fsStat os media path (onlyDisk fs)) \<and>
    (\<forall>q. fileExt q \<noteq> '''' \<and> level q \<and> keyOf q \<noteq> path \<longrightarrow>
      fst (fsStat os media q fs1) = fst (fsStat os media q fs) \<and>
      (\<forall>fi. fst (fsStat os media q fs) = Some fi \<longrightarrow> readInfo rd ra fs1 fi = readInfo rd ra fs fi))"
proof -
  have "path \<noteq> ''''" and key: "keyOf path = path" using assms(3,4) by (auto simp: fileExt_def keyOf_def)
  then have r: "removeFile cb path fs = (did, fs1)" using assms(2,4,5) by (simp add: fsRemove_def)
  note rel = removeFile_released [OF assms(1) r]
  have gone: "fst (fsStat os media path fs1) = fst (fsStat os media path (onlyDisk fs))"
    using fsStat_gone [OF assms(4,6), of fs1 fs] rel(1) key by (simp add: released_def)
  have kept: "embed fs1 (keyOf q) = embed fs (keyOf q)" "cachedfiles fs1 (keyOf q) = cachedfiles fs (keyOf q)" "settings fs1 = settings fs"
      "\<And>j. named fs (keyOf q) j \<Longrightarrow> heap fs1 ! j = heap fs ! j"
    if "fileExt q \<noteq> ''''" "keyOf q \<noteq> path" for q
    using rel(1) that released_same [OF assms(1) rel(1) assms(4), of "keyOf q"] by (auto simp: released_def keyOf_ext)
  show ?thesis
    using released_ok [OF assms(1) rel(1) assms(4)] rel(2) gone fsStat_kept [OF assms(1) _ _ kept] by (auto simp: Cached_def)
qed

theorem remove_exact_witness:
  "let (did, fs1) = fsRemove None [] ''/a.js'' (snd (the (fsSet (\<lambda>e. False) 1 ''/a.js'' ''x'' (CacheExtensions [''.js''] (NewFileSystem (\<lambda>p r. []) ''/srv'' False)))))
   in did \<and> fst (fsStat Map.empty (\<lambda>e. False) ''/a.js'' fs1) = None"
proof -
  let ?blank = "CacheExtensions [''.js''] (NewFileSystem (\<lambda>p r. []) ''/srv'' False)"
  let ?fs = "snd (the (fsSet (\<lambda>e. False) 1 ''/a.js'' ''x'' ?blank))"
  have e: "fileExt ''/a.js'' = ''.js''" by (simp add: fileExt_def)
  have b: "fs_ok ?blank" by (rule CacheExtensions_new_ok)
  then have ok: "fs_ok ?fs" using fsSet_stores [OF b, of "''/a.js''" "\<lambda>e. False" 1 "''x''"] fsSet_ok [OF b] e by fastforce
  have l: "level ''/a.js''" by (simp add: level_def All_less_Suc2 numeral_eq_Suc)
  have s: "embed ?fs ''/a.js'' = Some 0" "cachexts ?fs = [''.js'']" "archfls ?fs = []"
    by (simp_all add: fsSet_def shareCache_def notifyAll_def CacheExtensions_def addExts_def fileExt_def Let_def)
  obtain did fs1 where r: "fsRemove None [] ''/a.js'' ?fs = (did, fs1)" by force
  have n: "fst (fsStat Map.empty (\<lambda>e. False) ''/a.js'' (onlyDisk ?fs)) = None"
    using fsStat_level [of "''/a.js''" Map.empty "\<lambda>e. False"] e l s(3) by (auto simp: onlyDisk_def fromDisk_def)
  show ?thesis
    using remove_exact [OF ok r, of Map.empty "\<lambda>e. False" Map.empty] e l s n unfolding r by simp
qed

section \<open>Removing a directory\<close>

lemma removeBelow_step:
  assumes "fs_ok fs" "embed fs k = Some i"
  shows "released k fs (let a = (case cachedfiles fs k of None \<Rightarrow> fs | Some c \<Rightarrow> closeBuf c (dropCached k fs)); b = dropEmbed k a in
    closeBuf i (callBack cb (Some (infoOf b i)) NOTE_REMOVE b))"
  using assms(2) fs_ok_named(1) [OF assms(1), of k]
  by (cases "cachedfiles fs k") (auto simp: Let_def released_def named_def nth_list_update fun_upd_idem)

text \<open>What is left by the loop over the files in memory.\<close>

definition swept :: "string \<Rightarrow> string list \<Rightarrow> filesys \<Rightarrow> filesys \<Rightarrow> bool" where
  "swept p ks fs fs1 \<longleftrightarrow> fs_ok fs1 \<and> settings fs1 = settings fs \<and>
     (\<forall>k. let gone = (k \<in> set ks \<and> below p k \<and> embed fs k \<noteq> None) in
        embed fs1 k = (if gone then None else embed fs k) \<and> cachedfiles fs1 k = (if gone then None else cachedfiles fs k) \<and>
        (fileExt k \<noteq> '''' \<and> \<not> gone \<longrightarrow> (\<forall>j. named fs k j \<longrightarrow> heap fs1 ! j = heap fs ! j)))"

lemma swept_at:
  assumes "swept p ks fs fs1" "\<not> (below p k \<and> embed fs k \<noteq> None)"
  shows "embed fs1 k = embed fs k" "cachedfiles fs1 k = cachedfiles fs k" "fileExt k \<noteq> '''' \<Longrightarrow> named fs k j \<Longrightarrow> heap fs1 ! j = heap fs ! j"
  using assms unfolding swept_def Let_def by metis+

lemma swept_step:
  assumes "fs_ok fs" "embed fs k = Some i" "below p k" "released k fs fs1" "swept p ks fs1 fs2"
  shows "swept p (k # ks) fs fs2"
proof -
  have ext: "fileExt k \<noteq> ''''" using fs_ok_embed(1) [OF assms(1,2)] .
  have em: "embed fs1 = (embed fs)(k := None)" "cachedfiles fs1 = (cachedfiles fs)(k := None)" "settings fs1 = settings fs"
    using assms(4) by (auto simp: released_def)
  have "heap fs2 ! j = heap fs ! j" if "fileExt q \<noteq> ''''" "q \<noteq> k" "\<not> (q \<in> set ks \<and> below p q \<and> embed fs q \<noteq> None)" "named fs q j" for q j
  proof -
    have "named fs1 q j" using that(2,4) em by (simp add: named_def)
    then have "heap fs2 ! j = heap fs1 ! j" using assms(5) that(1-3) em by (auto simp: swept_def Let_def)
    then show ?thesis using released_same [OF assms(1,4) ext that(1,2,4)] by simp
  qed
  then show ?thesis using assms(2,3,5) em by (auto simp: swept_def Let_def)
qed

lemma removeBelow_swept:
  assumes "fs_ok fs"
  shows "swept p ks fs (snd (removeBelow cb p ks (did, fs))) \<and>
    (fst (removeBelow cb p ks (did, fs)) \<longleftrightarrow> did \<or> (\<exists>k \<in> set ks. below p k \<and> embed fs k \<noteq> None))"
  using assms
proof (induction ks arbitrary: did fs)
  case Nil
  then show ?case by (simp add: swept_def Let_def)
next
  case (Cons k ks)
  show ?case
  proof (cases "below p k \<and> embed fs k \<noteq> None")
    case True
    then obtain i where i: "embed fs k = Some i" "below p k" by auto
    define fs1 where "fs1 = (let a = (case cachedfiles fs k of None \<Rightarrow> fs | Some c \<Rightarrow> closeBuf c (dropCached k fs)); b = dropEmbed k a in
      closeBuf i (callBack cb (Some (infoOf b i)) NOTE_REMOVE b))"
    have rel: "released k fs fs1" unfolding fs1_def by (rule removeBelow_step [OF Cons.prems i(1)])
    have eq: "removeBelow cb p (k # ks) (did, fs) = removeBelow cb p ks (True, fs1)" using i by (simp add: fs1_def Let_def)
    have ok: "fs_ok fs1" using released_ok [OF Cons.prems rel] fs_ok_embed(1) [OF Cons.prems i(1)] by blast
    show ?thesis using swept_step [OF Cons.prems i rel] Cons.IH [OF ok, of True] i unfolding eq by auto
  next
    case False
    then have eq: "removeBelow cb p (k # ks) (did, fs) = removeBelow cb p ks (did, fs)" by (auto split: option.splits)
    show ?thesis using Cons.IH [OF Cons.prems, of did] False unfolding eq by (auto simp: swept_def Let_def)
  qed
qed

text \<open>The second loop, over the files in memory once more instead of the cached ones, finds nothing left.\<close>

lemma removeAgain_idle: "(\<And>k. k \<in> set ks \<Longrightarrow> below p k \<Longrightarrow> embed fs k = None) \<Longrightarrow> removeAgain cb p ks (did, fs) = (did, fs)"
proof (induction ks)
  case (Cons k ks)
  have "\<not> (below p k \<and> embed fs k \<noteq> None)" using Cons.prems [of k] by auto
  then have "removeAgain cb p (k # ks) (did, fs) = removeAgain cb p ks (did, fs)" by (auto split: option.splits)
  then show ?case using Cons by auto
qed simp

lemma fsRemove_dir:
  assumes "fs_ok fs" "path \<noteq> ''''" "path ! 0 = sep" "fileExt path = ''''"
  shows "fsRemove cb ks path fs = removeBelow cb (if last path \<noteq> sep then path @ [sep] else path) ks (False, fs)"
proof -
  define p where "p = (if last path \<noteq> sep then path @ [sep] else path)"
  obtain did fs1 where r: "removeBelow cb p ks (False, fs) = (did, fs1)" by force
  then have "swept p ks fs fs1" using removeBelow_swept [OF assms(1), of p ks cb False] by simp
  then have "embed fs1 k = None" if "k \<in> set ks" "below p k" for k using that by (auto simp: swept_def Let_def)
  then have "removeAgain cb p ks (did, fs1) = (did, fs1)" by (rule removeAgain_idle)
  then show ?thesis using assms(2-4) r unfolding fsRemove_def Let_def p_def [symmetric] by simp
qed

text \<open>
  Removing a directory takes exactly the files stored below it out.  For a path without an extension, \<open>Remove\<close> reports whether a file
  was in memory below it, in whatever order the map yields the files; afterwards \<open>StatContext\<close> of each of them answers as if
  nothing were in memory or cached, and for every other name with an extension it gives the same answer as before, with a reader that
  delivers the same text.
\<close>

lemma remove_directory:
  assumes "fs_ok fs" "set ks = dom (embed fs)" "path \<noteq> ''''" "path ! 0 = sep" "last path = sep" "fileExt path = ''''"
    "fsRemove cb ks path fs = (did, fs1)"
  shows "fs_ok fs1 \<and> (did \<longleftrightarrow> (\<exists>k. below path k \<and> embed fs k \<noteq> None)) \<and>
    (\<forall>q. fileExt q \<noteq> '''' \<and> level q \<longrightarrow>
      (if below path (keyOf q) \<and> embed fs (keyOf q) \<noteq> None then fst (fsStat os media q fs1) = fst (fsStat os media q (onlyDisk fs))
       else fst (fsStat os media q fs1) = fst (fsStat os media q fs) \<and>
         (\<forall>fi. fst (fsStat os media q fs) = Some fi \<longrightarrow> readInfo rd ra fs1 fi = readInfo rd ra fs fi)))"
proof -
  have r: "removeBelow cb path ks (False, fs) = (did, fs1)" using fsRemove_dir [OF assms(1,3,4,6), of cb ks] assms(5,7) by simp
  have sw: "swept path ks fs fs1" "did \<longleftrightarrow> (\<exists>k. below path k \<and> embed fs k \<noteq> None)"
    using removeBelow_swept [OF assms(1), of path ks cb False] assms(2) unfolding r by auto
  have st: "settings fs1 = settings fs" using sw(1) by (simp add: swept_def)
  have one: "if below path (keyOf q) \<and> embed fs (keyOf q) \<noteq> None then fst (fsStat os media q fs1) = fst (fsStat os media q (onlyDisk fs))
       else fst (fsStat os media q fs1) = fst (fsStat os media q fs) \<and>
         (\<forall>fi. fst (fsStat os media q fs) = Some fi \<longrightarrow> readInfo rd ra fs1 fi = readInfo rd ra fs fi)"
    if "fileExt q \<noteq> ''''" "level q" for q
  proof (cases "below path (keyOf q) \<and> embed fs (keyOf q) \<noteq> None")
    case True
    then have "embed fs1 (keyOf q) = None" "cachedfiles fs1 (keyOf q) = None" using sw(1) assms(2) by (auto simp: swept_def Let_def)
    then show ?thesis using True fsStat_gone [OF that _ _ st, of os media] by simp
  next
    case False
    then have "embed fs1 (keyOf q) = embed fs (keyOf q)" "cachedfiles fs1 (keyOf q) = cachedfiles fs (keyOf q)"
        "\<And>j. named fs (keyOf q) j \<Longrightarrow> heap fs1 ! j = heap fs ! j"
      using swept_at [OF sw(1), of "keyOf q"] that(1) by (auto simp: keyOf_ext)
    then show ?thesis using False fsStat_kept [OF assms(1) that _ _ st, of os media] by auto
  qed
  have "fs_ok fs1" using sw(1) by (simp add: swept_def)
  then show ?thesis using sw(2) one by blast
qed

text \<open>Defect: cached files below the directory that are not in memory stay cached.\<close>

lemma remove_directory_keeps_cached:
  assumes "fs_ok fs" "embed fs k = None" "path \<noteq> ''''" "path ! 0 = sep" "fileExt path = ''''"
  shows "cachedfiles (snd (fsRemove cb ks path fs)) k = cachedfiles fs k"
  using removeBelow_swept [OF assms(1), of "if last path \<noteq> sep then path @ [sep] else path" ks cb False] assms(2)
  unfolding fsRemove_dir [OF assms(1,3-5)] by (auto intro: swept_at(2))

section \<open>The cache after synchronising\<close>

text \<open>
  Nothing in memory shadows the disk; and a cached file with the time of modification of the file on the disk has its text (times of
  modification identify versions).
\<close>

definition clear :: "(string \<rightharpoonup> osinfo) \<Rightarrow> filesys \<Rightarrow> bool" where
  "clear os fs \<longleftrightarrow> (\<forall>k. embed fs k \<noteq> None \<longrightarrow> os (fs_root fs @ k) = None)"

definition honest :: "(string \<rightharpoonup> osinfo) \<Rightarrow> (string \<rightharpoonup> string) \<Rightarrow> filesys \<Rightarrow> bool" where
  "honest os rd fs \<longleftrightarrow> (\<forall>q i oi. fileExt q \<noteq> '''' \<and> cachedfiles fs q = Some i \<and> os (fs_root fs @ q) = Some oi \<and> fi_modfy (infoOf fs i) = os_mod oi \<longrightarrow>
     textOf fs i = rd (fs_root fs @ q))"

definition insync :: "(string \<rightharpoonup> osinfo) \<Rightarrow> (string \<rightharpoonup> string) \<Rightarrow> filesys \<Rightarrow> bool" where
  "insync os rd fs \<longleftrightarrow> fs_ok fs \<and> clear os fs \<and> honest os rd fs"

text \<open>The files that are to be cached, and those whose cached text and time are those of the disk.\<close>

definition wanted :: "(string \<rightharpoonup> osinfo) \<Rightarrow> (string \<rightharpoonup> string) \<Rightarrow> filesys \<Rightarrow> string \<Rightarrow> bool" where
  "wanted os rd fs q \<longleftrightarrow> fileExt q \<noteq> '''' \<and> fileExt q \<in> set (cachexts fs) \<and> rd (fs_root fs @ q) \<noteq> None \<and>
     (\<exists>oi. os (fs_root fs @ q) = Some oi \<and> os_size oi > 0)"

definition fresh :: "(string \<rightharpoonup> osinfo) \<Rightarrow> (string \<rightharpoonup> string) \<Rightarrow> filesys \<Rightarrow> string \<Rightarrow> bool" where
  "fresh os rd fs q \<longleftrightarrow> fileExt q \<noteq> '''' \<and> (\<exists>i oi. cachedfiles fs q = Some i \<and> os (fs_root fs @ q) = Some oi \<and> fi_modfy (infoOf fs i) = os_mod oi)"

definition advances :: "(string \<rightharpoonup> osinfo) \<Rightarrow> (string \<rightharpoonup> string) \<Rightarrow> filesys \<Rightarrow> filesys \<Rightarrow> bool" where
  "advances os rd fs fs1 \<longleftrightarrow> insync os rd fs1 \<and> settings fs1 = settings fs \<and> embed fs1 = embed fs \<and> (\<forall>q. fresh os rd fs q \<longrightarrow> fresh os rd fs1 q)"

lemma advances_refl: "insync os rd fs \<Longrightarrow> advances os rd fs fs"
  by (simp add: advances_def)

lemma advances_trans: "advances os rd fs fs1 \<Longrightarrow> advances os rd fs1 fs2 \<Longrightarrow> advances os rd fs fs2"
  by (simp add: advances_def)

lemma advances_inert:
  assumes "insync os rd fs" "heap fs1 = heap fs" "embed fs1 = embed fs" "cachedfiles fs1 = cachedfiles fs" "settings fs1 = settings fs"
  shows "advances os rd fs fs1"
proof -
  have a: "archfls fs1 = archfls fs" using assms(5) by (simp add: settings_def)
  have "fs_ok fs1 = fs_ok fs" unfolding fs_ok_def named_def assms(2-4) a by (rule refl)
  then show ?thesis
    using assms by (auto simp: advances_def insync_def clear_def honest_def fresh_def settings_def)
qed

text \<open>An entry is added to the cache.\<close>

lemma add_cached:
  assumes "insync os rd fs" "fi_rdr fi = Buf (length (heap fs))" "os (fs_root fs @ p) = Some oi" "fi_modfy fi = os_mod oi"
    "rd (fs_root fs @ p) = Some t" "fileExt p \<noteq> ''''"
  shows "let fs1 = fs\<lparr>heap := heap fs @ [\<lparr>b_text = Some t, b_info = fi\<rparr>], cachedfiles := (cachedfiles fs)(p \<mapsto> length (heap fs))\<rparr>
    in advances os rd fs fs1 \<and> fresh os rd fs1 p"
proof -
  define fs1 where "fs1 = fs\<lparr>heap := heap fs @ [\<lparr>b_text = Some t, b_info = fi\<rparr>], cachedfiles := (cachedfiles fs)(p \<mapsto> length (heap fs))\<rparr>"
  have ok: "fs_ok fs" using assms(1) by (simp add: insync_def)
  have n: "named fs1 k j \<Longrightarrow> k = p \<and> j = length (heap fs) \<or> named fs k j" for k j by (auto simp: fs1_def named_def split: if_splits)
  have h: "j < length (heap fs) \<Longrightarrow> heap fs1 ! j = heap fs ! j" for j by (simp add: fs1_def nth_append)
  have lt: "named fs k j \<Longrightarrow> j < length (heap fs)" for k j using fs_ok_named(1) [OF ok] .
  have new: "heap fs1 ! length (heap fs) = \<lparr>b_text = Some t, b_info = fi\<rparr>" "length (heap fs1) = Suc (length (heap fs))" by (simp_all add: fs1_def)
  have "fs_ok fs1"
  proof (rule fs_okI, goal_cases)
    case (1 k j)
    then have "embed fs k = Some j" by (simp add: fs1_def)
    moreover from this have "heap fs1 ! j = heap fs ! j" using h [of j] lt [of k j] by (simp add: named_def)
    ultimately show ?case using fs_ok_embed [OF ok, of k j] by simp
  next
    case (2 k j)
    from n [OF this] show ?case
    proof
      assume "named fs k j"
      then show ?thesis using fs_ok_named [OF ok, of k j] h [of j] new(2) by simp
    qed (use new assms(2) in simp)
  next
    case (3 k k' j)
    then show ?case using n [OF 3(1)] n [OF 3(2)] fs_ok_sole [OF ok, of k j k'] lt by blast
  next
    case 4
    then show ?case using fs_ok_archives [OF ok] by (simp add: fs1_def)
  qed
  moreover have "cachedfiles fs q = Some i \<Longrightarrow> i < length (heap fs)" for q i using lt [of q i] by (simp add: named_def)
  then have "honest os rd fs1"
    using assms(1,5) new(1) by (auto simp: insync_def honest_def fs1_def nth_append split: if_splits)
  moreover have "fresh os rd fs q \<Longrightarrow> fresh os rd fs1 q" for q
    using assms(3,4,6) lt by (auto simp: fresh_def fs1_def nth_append named_def)
  moreover have "fresh os rd fs1 p" using assms(3,4,6) by (simp add: fresh_def fs1_def)
  moreover have "settings fs1 = settings fs" "embed fs1 = embed fs" "clear os fs1"
    using assms(1) by (simp_all add: fs1_def settings_def insync_def clear_def)
  ultimately show ?thesis unfolding fs1_def [symmetric] by (simp add: advances_def insync_def)
qed

text \<open>An outdated entry is closed and dropped.\<close>

lemma drop_outdated:
  assumes "insync os rd fs" "cachedfiles fs p = Some c" "fileExt p \<noteq> ''''" "os (fs_root fs @ p) = Some oi" "fi_modfy (infoOf fs c) \<noteq> os_mod oi"
  shows "advances os rd fs (dropCached p (closeBuf c fs))"
proof -
  define fs1 where "fs1 = dropCached p (closeBuf c fs)"
  have ok: "fs_ok fs" and e: "embed fs p = None" using assms(1,4) by (auto simp: insync_def clear_def)
  have rel: "released p fs fs1"
    using e assms(2) fs_ok_named(1) [OF ok, of p c] by (auto simp: released_def fs1_def named_def nth_list_update fun_upd_idem)
  have em: "embed fs1 = embed fs" "settings fs1 = settings fs" "fs_root fs1 = fs_root fs" using e
    by (auto simp: fs1_def dropCached_def closeBuf_def settings_def)
  have same: "heap fs1 ! i = heap fs ! i" if "cachedfiles fs q = Some i" "q \<noteq> p" "fileExt q \<noteq> ''''" for q i
    using released_same [OF ok rel assms(3) that(3,2), of i] that(1) by (simp add: named_def)
  have cf: "cachedfiles fs1 = (cachedfiles fs)(p := None)" by (simp add: fs1_def)
  have "honest os rd fs1" unfolding honest_def
  proof (intro allI impI, elim conjE)
    fix q i oi
    assume q: "fileExt q \<noteq> ''''" "cachedfiles fs1 q = Some i" "os (fs_root fs1 @ q) = Some oi" "fi_modfy (infoOf fs1 i) = os_mod oi"
    then have i: "q \<noteq> p" "cachedfiles fs q = Some i" by (auto simp: cf split: if_splits)
    then show "textOf fs1 i = rd (fs_root fs1 @ q)"
      using q same [OF i(2,1) q(1)] em(3) assms(1) by (simp add: insync_def honest_def)
  qed
  moreover have "fresh os rd fs1 q" if "fresh os rd fs q" for q
  proof -
    have "q \<noteq> p" using that assms(2,4,5) by (auto simp: fresh_def)
    then show ?thesis using that same [of q] by (auto simp: fresh_def cf em(3))
  qed
  moreover have "fs_ok fs1" using released_ok [OF ok rel assms(3)] .
  moreover have "clear os fs1" using assms(1) em by (simp add: insync_def clear_def)
  ultimately show ?thesis unfolding fs1_def [symmetric] using em by (simp add: advances_def insync_def)
qed

lemma loadCached_advances:
  assumes "insync os rd fs" "os (fs_root fs @ p) = Some oi" "fileExt p \<noteq> ''''"
  shows "advances os rd fs (loadCached rd media cb p oi again fs)"
    and "wanted os rd fs p \<Longrightarrow> fresh os rd (loadCached rd media cb p oi again fs) p"
proof -
  let ?fs = "loadCached rd media cb p oi again fs"
  have "advances os rd fs ?fs \<and> (wanted os rd fs p \<longrightarrow> fresh os rd ?fs p)"
  proof (cases "os_size oi > 0 \<and> rd (fs_root fs @ p) \<noteq> None")
    case True
    then obtain t where t: "rd (fs_root fs @ p) = Some t" by blast
    define atv where "atv = (fileExt p \<in> set (activexts fs) \<and> \<not> fs_raw fs)"
    define fi where "fi = NewFileInfo (os_name oi) (os_size oi) (os_mod oi) (os_dir oi) atv (\<not> atv) (media (fileExt p)) p (mltypath fs) (Buf (length (heap fs)))"
    define fs1 where "fs1 = fs\<lparr>heap := heap fs @ [\<lparr>b_text = Some t, b_info = fi\<rparr>], cachedfiles := (cachedfiles fs)(p \<mapsto> length (heap fs))\<rparr>"
    have a: "advances os rd fs fs1 \<and> fresh os rd fs1 p"
      using add_cached [OF assms(1) _ assms(2) _ t assms(3), of fi] unfolding Let_def fs1_def [symmetric] by (simp add: fi_def)
    have l: "?fs = callBack cb (Some fi) (if again then NOTE_AMMEND else NOTE_CREATE) fs1"
      using True t by (simp add: loadCached_def Let_def fs1_def fi_def atv_def)
    have "advances os rd fs1 ?fs" unfolding l using a by (intro advances_inert) (auto simp: advances_def)
    then show ?thesis using a advances_trans [of os rd fs fs1 ?fs] by (auto simp: advances_def)
  next
    case False
    then have "?fs = fs" by (auto simp: loadCached_def)
    then show ?thesis using False assms(1,2) by (auto simp: advances_refl wanted_def)
  qed
  then show "advances os rd fs ?fs" "wanted os rd fs p \<Longrightarrow> fresh os rd ?fs p" by auto
qed

lemma wanted_settings: "settings fs1 = settings fs \<Longrightarrow> wanted os rd fs1 q = wanted os rd fs q"
  by (simp add: wanted_def settings_def)

lemma syncFile_advances:
  assumes "insync os rd fs" "os (fs_root fs @ p) = Some oi"
  shows "advances os rd fs (syncFile rd media cb p oi fs)"
    and "wanted os rd fs p \<Longrightarrow> fresh os rd (syncFile rd media cb p oi fs) p"
proof -
  let ?fs = "syncFile rd media cb p oi fs"
  have "advances os rd fs ?fs \<and> (wanted os rd fs p \<longrightarrow> fresh os rd ?fs p)"
  proof (cases "fileExt p \<noteq> '''' \<and> fileExt p \<in> set (cachexts fs)")
    case True
    then have ext: "fileExt p \<noteq> ''''" by simp
    show ?thesis
    proof (cases "cachedfiles fs p")
      case None
      then show ?thesis using True loadCached_advances [OF assms ext] by (simp add: syncFile_def)
    next
      case (Some c)
      show ?thesis
      proof (cases "fi_modfy (infoOf fs c) = os_mod oi")
        case same: True
        then show ?thesis using True Some assms by (auto simp: syncFile_def advances_refl fresh_def)
      next
        case False
        define fs0 where "fs0 = (if os_size oi = 0 then callBack cb (Some (infoOf fs c)) NOTE_REMOVE fs else fs)"
        have f0: "heap fs0 = heap fs" "embed fs0 = embed fs" "cachedfiles fs0 = cachedfiles fs" "settings fs0 = settings fs" by (simp_all add: fs0_def)
        have a0: "advances os rd fs fs0" using advances_inert [OF assms(1) f0] .
        then have i0: "insync os rd fs0" and r0: "os (fs_root fs0 @ p) = Some oi" using assms(2) f0(4) by (auto simp: advances_def settings_def)
        define fs1 where "fs1 = dropCached p (closeBuf c fs0)"
        have a1: "advances os rd fs0 fs1"
          unfolding fs1_def using drop_outdated [OF i0 _ ext r0, of c] Some False f0 by simp
        then have i1: "insync os rd fs1" and r1: "os (fs_root fs1 @ p) = Some oi" and s1: "settings fs1 = settings fs"
          using r0 f0(4) by (auto simp: advances_def settings_def)
        have eq: "?fs = loadCached rd media cb p oi True fs1" using True Some False by (simp add: syncFile_def fs0_def fs1_def)
        show ?thesis
          using advances_trans [OF advances_trans [OF a0 a1] loadCached_advances(1) [OF i1 r1 ext]] loadCached_advances(2) [OF i1 r1 ext]
            wanted_settings [OF s1] unfolding eq by blast
      qed
    qed
  next
    case False
    then show ?thesis using assms(1) by (auto simp: syncFile_def advances_refl wanted_def)
  qed
  then show "advances os rd fs ?fs" "wanted os rd fs p \<Longrightarrow> fresh os rd ?fs p" by auto
qed

text \<open>The files below a path, and that the tree of directories is of bounded depth.\<close>

inductive visits :: "(string \<rightharpoonup> osinfo) \<Rightarrow> (string \<Rightarrow> (string \<times> bool) list) \<Rightarrow> string \<Rightarrow> string \<Rightarrow> string \<Rightarrow> bool" for os ls root where
  visits_file: "p \<noteq> '''' \<Longrightarrow> os (root @ keyOf p) = Some oi \<Longrightarrow> \<not> os_dir oi \<Longrightarrow> visits os ls root p (keyOf p)"
| visits_dir: "p \<noteq> '''' \<Longrightarrow> os (root @ keyOf p) = Some oi \<Longrightarrow> os_dir oi \<Longrightarrow>
    d = (if last (keyOf p) \<noteq> sep then keyOf p @ [sep] else keyOf p) \<Longrightarrow> (nm, isdir) \<in> set (ls (root @ d)) \<Longrightarrow>
    visits os ls root (d @ nm @ (if isdir then [sep] else '''')) q \<Longrightarrow> visits os ls root p q"

lemma visits_below:
  assumes "visits os ls root p q" "os (root @ keyOf p) = Some oi" "os_dir oi"
  shows "\<exists>nm isdir. (nm, isdir) \<in> set (ls (root @ (if last (keyOf p) \<noteq> sep then keyOf p @ [sep] else keyOf p))) \<and>
    visits os ls root ((if last (keyOf p) \<noteq> sep then keyOf p @ [sep] else keyOf p) @ nm @ (if isdir then [sep] else '''')) q"
  using assms(1)
proof (cases rule: visits.cases)
  case (visits_dir oi d nm isdir)
  show ?thesis using visits_dir(5,6) unfolding visits_dir(4) by (intro exI conjI)
qed (use assms in simp)

lemma visits_here: "visits os ls root p q \<Longrightarrow> os (root @ keyOf p) = Some oi \<Longrightarrow> \<not> os_dir oi \<Longrightarrow> q = keyOf p"
  by (erule visits.cases) simp_all

lemma visits_exists: "visits os ls root p q \<Longrightarrow> p \<noteq> '''' \<and> os (root @ keyOf p) \<noteq> None"
  by (erule visits.cases) simp_all

fun shallow :: "(string \<rightharpoonup> osinfo) \<Rightarrow> (string \<Rightarrow> (string \<times> bool) list) \<Rightarrow> string \<Rightarrow> nat \<Rightarrow> string \<Rightarrow> bool" where
  "shallow os ls root 0 p \<longleftrightarrow> False"
| "shallow os ls root (Suc n) p \<longleftrightarrow>
     (p = '''' \<or>
      (case os (root @ keyOf p) of
         None \<Rightarrow> True
       | Some oi \<Rightarrow>
           (if os_dir oi then
              (let d = (if last (keyOf p) \<noteq> sep then keyOf p @ [sep] else keyOf p) in
               list_all (\<lambda>(nm, isdir). shallow os ls root n (d @ nm @ (if isdir then [sep] else ''''))) (ls (root @ d)))
            else True)))"

lemma syncThis_advances:
  "insync os rd fs \<Longrightarrow> syncThis os rd ls media cb n p fs = Some fs1 \<Longrightarrow>
     advances os rd fs fs1 \<and> (\<forall>q. visits os ls (fs_root fs) p q \<and> wanted os rd fs q \<longrightarrow> fresh os rd fs1 q)"
  "insync os rd fs \<Longrightarrow> syncEntries os rd ls media cb n d es fs = Some fs1 \<Longrightarrow>
     advances os rd fs fs1 \<and> (\<forall>(nm, isdir) \<in> set es. \<forall>q. visits os ls (fs_root fs) (d @ nm @ (if isdir then [sep] else '''')) q \<and> wanted os rd fs q \<longrightarrow>
       fresh os rd fs1 q)"
proof (induction os rd ls media cb n p fs and os rd ls media cb n d es fs arbitrary: fs1 and fs1 rule: syncThis_syncEntries.induct)
  case (2 os rd ls media cb n p fs)
  let ?p = "keyOf p"
  show ?case
  proof (cases "p \<noteq> '''' \<and> os (fs_root fs @ ?p) \<noteq> None")
    case True
    then obtain oi where oi: "p \<noteq> ''''" "os (fs_root fs @ ?p) = Some oi" by blast
    show ?thesis
    proof (cases "os_dir oi")
      case dir: True
      define d where "d = (if last ?p \<noteq> sep then ?p @ [sep] else ?p)"
      define fs0 where "fs0 = (if d \<noteq> ''/'' \<and> cb \<noteq> None \<and> attached fs then fs\<lparr>watching := watching fs @ [fs_root fs @ butlast d]\<rparr> else fs)"
      have a0: "advances os rd fs fs0" using 2(2) by (intro advances_inert) (simp_all add: fs0_def)
      then have i0: "insync os rd fs0" and s0: "settings fs0 = settings fs" "fs_root fs0 = fs_root fs" by (auto simp: advances_def settings_def)
      have e: "syncEntries os rd ls media cb n d (ls (fs_root fs @ d)) fs0 = Some fs1"
        using 2(3) unfolding d_def fs0_def
        by (simp only: syncThis.simps Let_def if_not_P [OF oi(1)] oi(2) option.case dir if_True)
      have IH: "advances os rd fs0 fs1 \<and> (\<forall>(nm, isdir) \<in> set (ls (fs_root fs @ d)). \<forall>q. visits os ls (fs_root fs0) (d @ nm @ (if isdir then [sep] else '''')) q \<and>
          wanted os rd fs0 q \<longrightarrow> fresh os rd fs1 q)"
        using 2(1) [OF oi(1) refl oi(2) dir d_def fs0_def i0 e] by simp
      show ?thesis
      proof (intro conjI allI impI)
        show "advances os rd fs fs1" using advances_trans [OF a0] IH by blast
        fix q
        assume v: "visits os ls (fs_root fs) p q \<and> wanted os rd fs q"
        then obtain nm isdir where "(nm, isdir) \<in> set (ls (fs_root fs @ d))" "visits os ls (fs_root fs) (d @ nm @ (if isdir then [sep] else '''')) q"
          using visits_below [OF conjunct1 [OF v] oi(2) dir] unfolding d_def by blast
        then show "fresh os rd fs1 q" using IH v wanted_settings [OF s0(1), of os rd q] unfolding s0(2) by blast
      qed
    next
      case False
      then have "fs1 = syncFile rd media cb ?p oi fs" using 2(3) oi by (simp add: Let_def split: if_splits)
      then show ?thesis using syncFile_advances [OF 2(2) oi(2), of media cb] visits_here [of os ls "fs_root fs" p _ oi] oi(2) False by blast
    qed
  next
    case False
    then have "fs1 = fs" using 2(3) by (cases "p = ''''") (simp_all add: Let_def)
    then show ?thesis using False advances_refl [OF 2(2)] visits_exists by blast
  qed
next
  case (4 os rd ls media cb n d nm isdir es fs)
  from 4(4) obtain fs0 where s: "syncThis os rd ls media cb n (d @ nm @ (if isdir then [sep] else '''')) fs = Some fs0"
      "syncEntries os rd ls media cb n d es fs0 = Some fs1"
    by (auto split: Option.bind_splits)
  note A = 4(1) [OF 4(3) s(1)]
  then have i0: "insync os rd fs0" and s0: "settings fs0 = settings fs" "fs_root fs0 = fs_root fs" by (auto simp: advances_def settings_def)
  note B = 4(2) [OF s(1) i0 s(2)]
  have "advances os rd fs fs1" using A B advances_trans by blast
  moreover have "fresh os rd fs0 q \<Longrightarrow> fresh os rd fs1 q" for q using B by (simp add: advances_def)
  ultimately show ?case using A B wanted_settings [OF s0(1)] s0(2) by auto
qed (auto simp: advances_refl)

text \<open>Enough fuel for the depth of the tree makes the recursion end.\<close>

lemma settings_root: "settings fs1 = settings fs \<Longrightarrow> fs_root fs1 = fs_root fs"
  by (simp add: settings_def)

lemma loadCached_settings [simp]: "settings (loadCached rd media cb p oi again fs) = settings fs"
  by (simp add: loadCached_def Let_def split: option.splits)

lemma syncFile_settings [simp]: "settings (syncFile rd media cb p oi fs) = settings fs"
  by (simp add: syncFile_def Let_def split: option.splits)

lemma syncThis_total:
  "shallow os ls (fs_root fs) n p \<Longrightarrow> \<exists>fs1. syncThis os rd ls media cb n p fs = Some fs1 \<and> settings fs1 = settings fs"
  "list_all (\<lambda>(nm, isdir). shallow os ls (fs_root fs) n (d @ nm @ (if isdir then [sep] else ''''))) es \<Longrightarrow>
     \<exists>fs1. syncEntries os rd ls media cb n d es fs = Some fs1 \<and> settings fs1 = settings fs"
proof (induction os rd ls media cb n p fs and os rd ls media cb n d es fs rule: syncThis_syncEntries.induct)
  case (2 os rd ls media cb n p fs)
  show ?case
  proof (cases "p \<noteq> '''' \<and> (\<exists>oi. os (fs_root fs @ keyOf p) = Some oi \<and> os_dir oi)")
    case True
    then obtain oi where oi: "p \<noteq> ''''" "os (fs_root fs @ keyOf p) = Some oi" "os_dir oi" by blast
    define d where "d = (if last (keyOf p) \<noteq> sep then keyOf p @ [sep] else keyOf p)"
    define fs0 where "fs0 = (if d \<noteq> ''/'' \<and> cb \<noteq> None \<and> attached fs then fs\<lparr>watching := watching fs @ [fs_root fs @ butlast d]\<rparr> else fs)"
    have s0: "settings fs0 = settings fs" by (simp add: fs0_def)
    have e: "syncThis os rd ls media cb (Suc n) p fs = syncEntries os rd ls media cb n d (ls (fs_root fs @ d)) fs0"
      unfolding d_def fs0_def
      by (simp only: syncThis.simps Let_def if_not_P [OF oi(1)] oi(2) option.case oi(3) if_True)
    have "list_all (\<lambda>(nm, isdir). shallow os ls (fs_root fs0) n (d @ nm @ (if isdir then [sep] else ''''))) (ls (fs_root fs @ d))"
      using 2(2) oi settings_root [OF s0] by (simp add: d_def Let_def)
    from 2(1) [OF oi(1) refl oi(2,3) d_def fs0_def this] show ?thesis using s0 unfolding e by simp
  next
    case False
    then show ?thesis by (auto simp: Let_def split: option.splits)
  qed
next
  case (4 os rd ls media cb n d nm isdir es fs)
  then obtain fs0 where s: "syncThis os rd ls media cb n (d @ nm @ (if isdir then [sep] else '''')) fs = Some fs0" "settings fs0 = settings fs" by auto
  then have "list_all (\<lambda>(nm, isdir). shallow os ls (fs_root fs0) n (d @ nm @ (if isdir then [sep] else ''''))) es"
    using 4(3) by (simp add: settings_root [OF s(2)])
  from 4(2) [OF s(1) this] show ?case using s by simp
qed simp_all

lemma fresh_stat:
  assumes "insync os rd fs" "fresh os rd fs q" "wanted os rd fs q" "level q" "q ! 0 = sep"
  shows "\<exists>fi. fst (fsStat os media q fs) = Some fi \<and> readInfo rd ra fs fi = rd (fs_root fs @ q)"
proof -
  have key: "keyOf q = q" using assms(5) by (simp add: keyOf_def)
  have ext: "fileExt q \<noteq> ''''" "fileExt q \<in> set (cachexts fs)" and e: "embed fs q = None"
    using assms(1,3) by (auto simp: wanted_def insync_def clear_def)
  from assms(2) obtain i oi where i: "cachedfiles fs q = Some i" "os (fs_root fs @ q) = Some oi" "fi_modfy (infoOf fs i) = os_mod oi"
    by (auto simp: fresh_def)
  obtain rt nm where k: "rt @ nm = keyOf q" "fsStat os media q fs =
      (case embed fs (keyOf q) of Some i \<Rightarrow> fromEmbed i (keyOf q) fs | None \<Rightarrow> fromDisk os media (fileExt q) rt nm fs)"
    using fsStat_level [OF ext(1) assms(4), of os media] by blast
  have t: "textOf fs i = rd (fs_root fs @ q)" using assms(1) ext(1) i by (simp add: insync_def honest_def)
  have r: "fi_rdr (infoOf fs i) = Buf i" using assms(1) fs_ok_named(2) [of fs q i] i(1) by (simp add: insync_def named_def)
  show ?thesis using k e ext i(1) t r by (simp add: key fromDisk_def readInfo_def)
qed

text \<open>
  Claim C14: synchronising brings the cache up to date.  If nothing in memory shadows the disk and times of modification identify versions,
  synchronising a path whose directories are less deep than the fuel returns, keeps the invariant of the file system, and afterwards
  \<open>StatContext\<close> of every non-empty, readable file below the path with a cached extension (not going up) answers with a file whose reader
  delivers the text the disk holds, whether the file was cached before, cached in an older version or not at all.
\<close>

theorem sync_serves_disk:
  assumes "insync os rd fs" "shallow os ls (fs_root fs) n p"
  shows "\<exists>fs1. syncThis os rd ls media cb n p fs = Some fs1 \<and> insync os rd fs1 \<and>
    (\<forall>q. visits os ls (fs_root fs) p q \<and> wanted os rd fs q \<and> level q \<longrightarrow>
      (\<exists>fi. fst (fsStat os media q fs1) = Some fi \<and> readInfo rd ra fs1 fi = rd (fs_root fs @ q)))"
proof -
  obtain fs1 where s: "syncThis os rd ls media cb n p fs = Some fs1" using syncThis_total(1) [OF assms(2)] by blast
  note a = syncThis_advances(1) [OF assms(1) s]
  then have st: "insync os rd fs1" "settings fs1 = settings fs" by (auto simp: advances_def)
  have sl: "visits os ls root p' q \<Longrightarrow> q ! 0 = sep" for root p' q by (induction rule: visits.induct) (auto simp: keyOf_def)
  have "\<exists>fi. fst (fsStat os media q fs1) = Some fi \<and> readInfo rd ra fs1 fi = rd (fs_root fs @ q)"
    if "visits os ls (fs_root fs) p q" "wanted os rd fs q" "level q" for q
    using fresh_stat [OF st(1), of q media] a that sl [OF that(1)] wanted_settings [OF st(2), of os rd q] settings_root [OF st(2)] by simp
  then show ?thesis using s st(1) by blast
qed

theorem sync_serves_disk_witness:
  "\<exists>fs1 fi. let os = [''/srv/'' \<mapsto> \<lparr>os_name = ''srv'', os_size = 0, os_mod = 1, os_dir = True\<rparr>, ''/srv/a.js'' \<mapsto> \<lparr>os_name = ''a.js'', os_size = 3, os_mod = 2, os_dir = False\<rparr>];
       rd = [''/srv/a.js'' \<mapsto> ''x=1'']
     in syncThis os rd (\<lambda>d. [(''a.js'', False)]) (\<lambda>e. False) None 2 ''/'' (CacheExtensions [''.js''] (NewFileSystem (\<lambda>p r. []) ''/srv'' False)) = Some fs1 \<and>
       fst (fsStat os (\<lambda>e. False) ''/a.js'' fs1) = Some fi \<and> readInfo rd Map.empty fs1 fi = Some ''x=1''"
proof -
  let ?os = "[''/srv/'' \<mapsto> \<lparr>os_name = ''srv'', os_size = 0, os_mod = 1, os_dir = True\<rparr>, ''/srv/a.js'' \<mapsto> \<lparr>os_name = ''a.js'', os_size = 3, os_mod = 2, os_dir = False\<rparr>]"
  let ?rd = "[''/srv/a.js'' \<mapsto> ''x=1'']" and ?ls = "\<lambda>d::string. [(''a.js'', False)]"
  let ?fs = "CacheExtensions [''.js''] (NewFileSystem (\<lambda>p r. []) ''/srv'' False)"
  have fs: "fs_root ?fs = ''/srv''" "embed ?fs = Map.empty" "cachedfiles ?fs = Map.empty" "cachexts ?fs = [''.js'']"
    by (simp_all add: CacheExtensions_def addExts_def)
  have "fs_ok ?fs" by (rule CacheExtensions_new_ok)
  then have i: "insync ?os ?rd ?fs" by (simp add: insync_def clear_def honest_def fs)
  have sh: "shallow ?os ?ls (fs_root ?fs) 2 ''/''" unfolding fs by (simp add: numeral_2_eq_2 keyOf_def)
  have va: "visits ?os ?ls ''/srv'' ''/a.js'' (keyOf ''/a.js'')" by (rule visits_file [where oi = "the (?os ''/srv/a.js'')"]) (simp_all add: keyOf_def)
  have v: "visits ?os ?ls (fs_root ?fs) ''/'' ''/a.js''"
    unfolding fs by (rule visits_dir [where nm = "''a.js''" and isdir = False and oi = "the (?os ''/srv/'')" and d = "''/''"]) (use va in \<open>simp_all add: keyOf_def\<close>)
  have w: "wanted ?os ?rd ?fs ''/a.js''" by (simp add: wanted_def fs fileExt_def)
  have l: "level ''/a.js''" by (simp add: level_def All_less_Suc2 numeral_eq_Suc)
  from sync_serves_disk [OF i sh, of "\<lambda>e. False" None] obtain fs1 where f:
      "syncThis ?os ?rd ?ls (\<lambda>e. False) None 2 ''/'' ?fs = Some fs1"
      "\<And>q. visits ?os ?ls (fs_root ?fs) ''/'' q \<Longrightarrow> wanted ?os ?rd ?fs q \<Longrightarrow> level q \<Longrightarrow>
        \<exists>fi. fst (fsStat ?os (\<lambda>e. False) q fs1) = Some fi \<and> readInfo ?rd Map.empty fs1 fi = ?rd (fs_root ?fs @ q)"
    by blast
  from f(2) [OF v w l] obtain fi where "fst (fsStat ?os (\<lambda>e. False) ''/a.js'' fs1) = Some fi" "readInfo ?rd Map.empty fs1 fi = Some ''x=1''"
    unfolding fs(1) by auto
  then show ?thesis using f(1) unfolding Let_def by blast
qed

text \<open>
  Defect: when a file in memory that is cached has a namesake on the disk, synchronising closes the buffer the two share; storing the file
  again then panics.
\<close>

lemma sync_closes_memory:
  assumes "embed fs p = Some i" "cachedfiles fs p = Some i" "i < length (heap fs)" "fileExt p \<noteq> ''''" "fileExt p \<in> set (cachexts fs)" "p ! 0 = sep"
    "fi_modfy (infoOf fs i) \<noteq> os_mod oi" "cnt \<noteq> ''''"
  shows "fsSet media now p cnt (syncFile rd media cb p oi fs) = None"
proof -
  have p: "p \<noteq> ''''" using assms(4) by (auto simp: fileExt_def)
  have "embed (loadCached rd media cb p oi again f) = embed f" for again f by (simp add: loadCached_def Let_def split: option.splits)
  moreover have "heap (loadCached rd media cb p oi again f) ! i = heap f ! i" if "i < length (heap f)" for again f
    using that by (simp add: loadCached_def Let_def nth_append split: option.splits)
  ultimately show ?thesis using assms p by (simp add: fsSet_def syncFile_def Let_def)
qed

end
