(* ===== verification/MountFs.thy ===== *)
theory MountFs
  imports FsSync
begin

text \<open>
  The table of mounted file systems (\<open>multifilesys\<close> of \<open>src/fs/multifilesys.go\<close>): mounting (\<open>Map\<close>, \<open>Load\<close>), the extensions new file systems
  start with, storing (\<open>Set\<close>), and the states these and the events of the watcher lead to.  What is in an archive is the argument \<open>arch\<close>; the watcher is the argument \<open>wadd\<close>, whether it
  takes a directory.  \<open>ntyfiers\<close> is left out: the calls of \<open>Notify\<close> are recorded in the file systems.
\<close>

section \<open>State and mounting\<close>

record multifilesys =
  fsystms :: "string \<rightharpoonup> filesys"
  chdexts :: "string list"
  actvexts :: "string list"
  dfltexts :: "string list"
  wtchdfsys :: "(string \<times> string) list"

definition NewMultiFileSystem :: multifilesys where
  "NewMultiFileSystem = \<lparr>fsystms = Map.empty, chdexts = [], actvexts = [], dfltexts = [], wtchdfsys = []\<rparr>"

definition onlyExts :: "string list \<Rightarrow> string list" where
  "onlyExts exts = filter (\<lambda>e. e \<noteq> '''') (map fileExt exts)"

definition mCacheExtensions :: "string list \<Rightarrow> multifilesys \<Rightarrow> multifilesys" where
  "mCacheExtensions exts m = m\<lparr>chdexts := addExts (onlyExts exts) (chdexts m)\<rparr>"

definition mActiveExtensions :: "string list \<Rightarrow> multifilesys \<Rightarrow> multifilesys" where
  "mActiveExtensions exts m = m\<lparr>actvexts := addExts (onlyExts exts) (actvexts m)\<rparr>"

definition mDefaultExtensions :: "string list \<Rightarrow> multifilesys \<Rightarrow> multifilesys" where
  "mDefaultExtensions exts m = m\<lparr>dfltexts := addExts (onlyExts exts) (dfltexts m)\<rparr>"

text \<open>\<open>strings.Replace\<close> of the first occurrence by nothing; \<open>None\<close> if there is none.\<close>

fun cutFirst :: "string \<Rightarrow> string \<Rightarrow> string option" where
  "cutFirst pat s =
     (if take (length pat) s = pat then Some (drop (length pat) s)
      else (case s of [] \<Rightarrow> None | c # cs \<Rightarrow> map_option (\<lambda>r. c # r) (cutFirst pat cs)))"

declare cutFirst.simps [simp del]

text \<open>The arguments of \<open>Map\<close>: strings, callbacks of two types, booleans, others.\<close>

datatype maparg = ArgStr string | ArgNotify callback | ArgFsNotify callback | ArgBool bool | ArgOther

fun argStrs :: "maparg list \<Rightarrow> string list" where
  "argStrs [] = []"
| "argStrs (ArgStr s # as) = (if s = '''' then argStrs as else s # argStrs as)"
| "argStrs (_ # as) = argStrs as"

fun firstNotify :: "maparg list \<Rightarrow> callback option" where
  "firstNotify [] = None"
| "firstNotify (ArgNotify f # as) = Some f"
| "firstNotify (_ # as) = firstNotify as"

fun firstFsNotify :: "maparg list \<Rightarrow> callback option" where
  "firstFsNotify [] = None"
| "firstFsNotify (ArgFsNotify f # as) = Some f"
| "firstFsNotify (_ # as) = firstFsNotify as"

definition mountPath :: "string \<Rightarrow> string" where
  "mountPath nm = (if nm \<noteq> '''' \<and> last nm \<noteq> sep then nm @ [sep] else nm)"

definition mounted :: "(string \<Rightarrow> string \<Rightarrow> archfile list) \<Rightarrow> string \<Rightarrow> string \<Rightarrow> bool \<Rightarrow> multifilesys \<Rightarrow> filesys" where
  "mounted arch nm root raw m =
     (NewFileSystem arch root raw)\<lparr>attached := True, mltypath := mountPath nm, activexts := actvexts m, cachexts := chdexts m, defaultexts := dfltexts m\<rparr>"

text \<open>The marks in a mount point: its name without them, whether it is raw, whether it is kept in step with the disk.\<close>

definition mapName :: "string \<Rightarrow> string \<times> bool \<times> bool" where
  "mapName p0 =
     (let p1 = (case cutFirst ''/raw:'' p0 of Some s \<Rightarrow> s | None \<Rightarrow> p0);
          nm = (case cutFirst ''/sync:'' p1 of Some s \<Rightarrow> s | None \<Rightarrow> p1) in
      (nm, cutFirst ''/raw:'' p0 \<noteq> None, cutFirst ''/sync:'' p1 \<noteq> None))"

text \<open>Mounting a new file system; \<open>None\<close> is only that the fuel of the first synchronisation was too little.\<close>

definition mountNew :: "(string \<Rightarrow> string \<Rightarrow> archfile list) \<Rightarrow> (string \<rightharpoonup> osinfo) \<Rightarrow> (string \<rightharpoonup> string) \<Rightarrow> (string \<Rightarrow> (string \<times> bool) list) \<Rightarrow> (string \<Rightarrow> bool) \<Rightarrow> (string \<Rightarrow> bool) \<Rightarrow> callback option \<Rightarrow> nat \<Rightarrow>
    string \<Rightarrow> string \<Rightarrow> bool \<Rightarrow> bool \<Rightarrow> multifilesys \<Rightarrow> multifilesys option" where
  "mountNew arch os rd ls media wadd cb fuel nm root raw syn m =
     (let fs = mounted arch nm root raw m in
      if syn \<and> archfls fs = [] then
        do { fs1 \<leftarrow> syncThis os rd ls media cb fuel ''/'' fs;
             Some (m\<lparr>fsystms := (fsystms m)(nm \<mapsto> fs1), wtchdfsys := wtchdfsys m @ (if wadd root then [(root, nm)] else [])\<rparr>) }
      else Some (m\<lparr>fsystms := (fsystms m)(nm \<mapsto> fs)\<rparr>))"

text \<open>\<open>Map\<close>; a boolean argument sets \<open>async\<close>, which is then overwritten.  A mount point that is taken is left as it is.\<close>

definition mapFs :: "(string \<Rightarrow> string \<Rightarrow> archfile list) \<Rightarrow> (string \<rightharpoonup> osinfo) \<Rightarrow> (string \<rightharpoonup> string) \<Rightarrow> (string \<Rightarrow> (string \<times> bool) list) \<Rightarrow> (string \<Rightarrow> bool) \<Rightarrow> (string \<Rightarrow> bool) \<Rightarrow> nat \<Rightarrow> maparg list \<Rightarrow>
    multifilesys \<Rightarrow> multifilesys option" where
  "mapFs arch os rd ls media wadd fuel args m =
     (case argStrs args of
        [] \<Rightarrow> Some m
      | p0 # rest \<Rightarrow>
          (case mapName p0 of (nm, raw, async) \<Rightarrow>
             if fsystms m nm \<noteq> None then Some m
             else
               mountNew arch os rd ls media wadd (case firstNotify args of Some f \<Rightarrow> Some f | None \<Rightarrow> firstFsNotify args) fuel nm
                 (case rest of [] \<Rightarrow> '''' | r # _ \<Rightarrow> r) raw (async \<and> length rest = 1) m))"

text \<open>\<open>Load\<close> of a configuration, the pairs in the order in which the map yields them.\<close>

fun loadFs :: "(string \<Rightarrow> string \<Rightarrow> archfile list) \<Rightarrow> (string \<rightharpoonup> osinfo) \<Rightarrow> (string \<rightharpoonup> string) \<Rightarrow> (string \<Rightarrow> (string \<times> bool) list) \<Rightarrow> (string \<Rightarrow> bool) \<Rightarrow> (string \<Rightarrow> bool) \<Rightarrow> nat \<Rightarrow>
    (string \<times> string) list \<Rightarrow> multifilesys \<Rightarrow> multifilesys option" where
  "loadFs arch os rd ls media wadd fuel [] m = Some m"
| "loadFs arch os rd ls media wadd fuel ((path, pths) # conf) m =
     do { m1 \<leftarrow> mapFs arch os rd ls media wadd fuel [ArgStr path, ArgStr pths] m; loadFs arch os rd ls media wadd fuel conf m1 }"

text \<open>\<open>Set\<close>.\<close>

definition mSet :: "(string \<Rightarrow> bool) \<Rightarrow> int \<Rightarrow> string \<Rightarrow> string \<Rightarrow> multifilesys \<Rightarrow> (bool \<times> multifilesys) option" where
  "mSet media now path cnt m =
     (case setTarget (fsystms m) path of
        None \<Rightarrow> Some (False, m)
      | Some (root, rest) \<Rightarrow>
          do { (b, fs) \<leftarrow> fsSet media now rest cnt (the (fsystms m root));
               Some (b, m\<lparr>fsystms := (fsystms m)(root \<mapsto> fs)\<rparr>) })"

section \<open>Reachable states\<close>

text \<open>
  Every step may meet another state of the operating system.  Write and create events, which synchronise, are steps only where nothing in
  memory shadows the disk (\<open>clear\<close>) and times of modification identify versions (\<open>honest\<close>).  The code does not check this: elsewhere it may close
  a buffer that a file in memory still uses (\<open>sync_closes_memory\<close>).  \<open>Unload\<close> and \<open>Close\<close> are not steps.
\<close>

inductive mreach :: "multifilesys \<Rightarrow> bool" where
  reach_new: "mreach NewMultiFileSystem"
| reach_cache: "mreach m \<Longrightarrow> mreach (mCacheExtensions exts m)"
| reach_active: "mreach m \<Longrightarrow> mreach (mActiveExtensions exts m)"
| reach_default: "mreach m \<Longrightarrow> mreach (mDefaultExtensions exts m)"
| reach_map: "mreach m \<Longrightarrow> mapFs arch os rd ls media wadd fuel args m = Some m1 \<Longrightarrow> mreach m1"
| reach_set: "mreach m \<Longrightarrow> mSet media now path cnt m = Some (b, m1) \<Longrightarrow> mreach m1"
| reach_stat: "mreach m \<Longrightarrow> fsystms m root = Some fs \<Longrightarrow> mreach (m\<lparr>fsystms := (fsystms m)(root \<mapsto> snd (fsStat os media path fs))\<rparr>)"
| reach_remove: "mreach m \<Longrightarrow> fsystms m root = Some fs \<Longrightarrow> EventRemove ks path fs = Some fs1 \<Longrightarrow>
    mreach (m\<lparr>fsystms := (fsystms m)(root \<mapsto> fs1)\<rparr>)"
| reach_write: "mreach m \<Longrightarrow> fsystms m root = Some fs \<Longrightarrow> clear os fs \<Longrightarrow> honest os rd fs \<Longrightarrow> EventWrite os rd ls media fuel path fs = Some fs1 \<Longrightarrow>
    mreach (m\<lparr>fsystms := (fsystms m)(root \<mapsto> fs1)\<rparr>)"
| reach_create: "mreach m \<Longrightarrow> fsystms m root = Some fs \<Longrightarrow> clear os fs \<Longrightarrow> honest os rd fs \<Longrightarrow> EventCreate os rd ls media fuel path fs = Some fs1 \<Longrightarrow>
    mreach (m\<lparr>fsystms := (fsystms m)(root \<mapsto> fs1)\<rparr>)"

definition mount_ok :: "string \<Rightarrow> filesys \<Rightarrow> bool" where
  "mount_ok root fs \<longleftrightarrow> fs_ok fs \<and> attached fs \<and> mltypath fs = mountPath root"

definition mounts_ok :: "multifilesys \<Rightarrow> bool" where
  "mounts_ok m \<longleftrightarrow> (\<forall>root fs. fsystms m root = Some fs \<longrightarrow> mount_ok root fs)"

lemma mounts_ok_upd: "mounts_ok m \<Longrightarrow> mount_ok root fs \<Longrightarrow> fsystms m1 = (fsystms m)(root \<mapsto> fs) \<Longrightarrow> mounts_ok m1"
  by (auto simp: mounts_ok_def)

lemma mount_ok_settings: "mount_ok root fs \<Longrightarrow> fs_ok fs1 \<Longrightarrow> settings fs1 = settings fs \<Longrightarrow> mount_ok root fs1"
  by (simp add: mount_ok_def settings_def)

lemma mounted_insync: "insync os rd (mounted arch nm root raw m)"
  unfolding insync_def fs_ok_def named_def clear_def honest_def by (simp add: mounted_def rootArchive_ok)

lemma mounted_ok: "mount_ok nm (mounted arch nm root raw m)"
  using mounted_insync [of Map.empty Map.empty arch nm root raw m] by (simp add: mount_ok_def insync_def mounted_def)

lemma mountNew_ok:
  assumes "mounts_ok m" "mountNew arch os rd ls media wadd cb fuel nm root raw syn m = Some m1"
  shows "mounts_ok m1"
proof -
  obtain fs where fs: "fsystms m1 = (fsystms m)(nm \<mapsto> fs)"
      "fs = mounted arch nm root raw m \<or> syncThis os rd ls media cb fuel ''/'' (mounted arch nm root raw m) = Some fs"
    using assms(2) by (auto simp: mountNew_def Let_def split: if_splits Option.bind_splits)
  from fs(2) have "mount_ok nm fs"
  proof
    assume "syncThis os rd ls media cb fuel ''/'' (mounted arch nm root raw m) = Some fs"
    from syncThis_advances(1) [OF mounted_insync this] show ?thesis
      using mount_ok_settings [OF mounted_ok] by (auto simp: advances_def insync_def)
  qed (simp add: mounted_ok)
  then show ?thesis using mounts_ok_upd [OF assms(1) _ fs(1)] by blast
qed

lemma mapFs_ok: "mounts_ok m \<Longrightarrow> mapFs arch os rd ls media wadd fuel args m = Some m1 \<Longrightarrow> mounts_ok m1"
  by (auto simp: mapFs_def split: list.splits if_splits prod.splits intro: mountNew_ok)

lemma loadFs_ok: "mounts_ok m \<Longrightarrow> loadFs arch os rd ls media wadd fuel conf m = Some m1 \<Longrightarrow> mounts_ok m1"
proof (induction conf arbitrary: m)
  case (Cons a conf)
  obtain path pths where a: "a = (path, pths)" by force
  from Cons.prems(2) obtain m2 where "mapFs arch os rd ls media wadd fuel [ArgStr path, ArgStr pths] m = Some m2" "loadFs arch os rd ls media wadd fuel conf m2 = Some m1"
    unfolding a by (auto split: Option.bind_splits)
  then show ?case using Cons.IH mapFs_ok [OF Cons.prems(1)] by blast
qed simp

lemma setLoop_mounted: "setLoop mnt root path ns = Some (r, rest) \<Longrightarrow> mnt r \<noteq> None"
  by (induction ns) (auto simp: Let_def split: if_splits)

lemma setTarget_mounted: "setTarget mnt path = Some (r, rest) \<Longrightarrow> mnt r \<noteq> None"
  using setLoop_mounted [of mnt _ _ _ r rest] by (auto simp: setTarget_def Let_def split: if_splits)

lemma fsSet_settings: "fsSet media now path cnt fs = Some (b, fs1) \<Longrightarrow> settings fs1 = settings fs"
  by (auto simp: fsSet_def shareCache_def notifyAll_def settings_def Let_def split: if_splits option.splits)

definition mountOf :: "filesys \<Rightarrow> bool \<times> string" where
  "mountOf fs = (attached fs, mltypath fs)"

lemma fromArchive_mount: "mountOf (snd (fromArchive media k fs)) = mountOf fs"
  by (simp add: fromArchive_def mountOf_def Let_def split: option.splits)

lemma fromDisk_mount: "mountOf (snd (fromDisk os media e rt nm fs)) = mountOf fs"
  by (simp add: fromDisk_def fromArchive_mount Let_def split: option.splits)

lemma fromDir_mount: "mountOf (snd (fromDir os media rt fs)) = mountOf fs"
  by (simp add: fromDir_def fromArchive_mount fromDisk_mount Let_def split: option.splits)

lemma fromEmbed_mount: "mountOf (snd (fromEmbed i key fs)) = mountOf fs"
  by (simp add: fromEmbed_def mountOf_def split: option.splits)

lemma fsStat_mount: "mountOf (snd (fsStat os media path fs)) = mountOf fs"
  by (simp add: fsStat_def fromEmbed_mount fromDir_mount fromDisk_mount Let_def split: option.splits prod.splits)

lemma mSet_ok:
  assumes "mounts_ok m" "mSet media now path cnt m = Some (b, m1)"
  shows "mounts_ok m1"
proof (cases "setTarget (fsystms m) path")
  case None
  then show ?thesis using assms by (simp add: mSet_def)
next
  case (Some t)
  obtain root rest where t: "t = (root, rest)" by force
  with Some obtain fs where fs: "fsystms m root = Some fs" using setTarget_mounted [of "fsystms m" path] by blast
  then obtain fs1 where f: "fsSet media now rest cnt fs = Some (b, fs1)" "fsystms m1 = (fsystms m)(root \<mapsto> fs1)"
    using assms(2) Some t by (auto simp: mSet_def split: Option.bind_splits)
  have "mount_ok root fs" using assms(1) fs by (simp add: mounts_ok_def)
  then have "mount_ok root fs1" using fsSet_ok [OF _ f(1)] mount_ok_settings fsSet_settings [OF f(1)] by (auto simp: mount_ok_def settings_def)
  then show ?thesis using mounts_ok_upd [OF assms(1) _ f(2)] by blast
qed

lemma fsRemove_ok:
  assumes "fs_ok fs"
  shows "fs_ok (snd (fsRemove cb ks path fs)) \<and> settings (snd (fsRemove cb ks path fs)) = settings fs"
proof -
  consider (single) "path \<noteq> ''''" "fileExt path \<noteq> ''''" "fileExt path \<in> set (cachexts fs)" | (dir) "path \<noteq> ''''" "path ! 0 = sep" "fileExt path = ''''"
    | (idle) "fsRemove cb ks path fs = (False, fs)"
    by (cases "path = ''''"; cases "fileExt path = ''''"; cases "path ! 0 = sep"; cases "fileExt path \<in> set (cachexts fs)") (auto simp: fsRemove_def)
  then show ?thesis
  proof cases
    case single
    then have r: "fsRemove cb ks path fs = removeFile cb path fs" by (simp add: fsRemove_def)
    obtain did fs1 where d: "removeFile cb path fs = (did, fs1)" by force
    from removeFile_released(1) [OF assms d] show ?thesis
      unfolding r d using released_ok [OF assms _ single(2)] by (auto simp: released_def)
  next
    case dir
    then show ?thesis using removeBelow_swept [OF assms] unfolding fsRemove_dir [OF assms dir] by (auto simp: swept_def)
  qed (use assms in simp)
qed

lemma mount_ok_event:
  assumes "mounts_ok m" "fsystms m root = Some fs" "fs_ok fs \<Longrightarrow> fs_ok fs1 \<and> settings fs1 = settings fs"
  shows "mounts_ok (m\<lparr>fsystms := (fsystms m)(root \<mapsto> fs1)\<rparr>)"
proof -
  have "mount_ok root fs" using assms(1,2) by (simp add: mounts_ok_def)
  moreover from this have "fs_ok fs" by (simp add: mount_ok_def)
  ultimately have "mount_ok root fs1" using assms(3) mount_ok_settings by blast
  then show ?thesis using mounts_ok_upd [OF assms(1)] by simp
qed

lemma sync_event: "clear os fs \<Longrightarrow> honest os rd fs \<Longrightarrow> fs_ok fs \<Longrightarrow> syncThis os rd ls media cb fuel p fs = Some fs1 \<Longrightarrow> fs_ok fs1 \<and> settings fs1 = settings fs"
  using syncThis_advances(1) [of os rd fs ls media cb fuel p fs1] by (auto simp: insync_def advances_def)

lemma mounts_reach:
  assumes "mreach m"
  shows "mounts_ok m"
  using assms
proof induction
  case (reach_remove m root fs ks path fs1)
  then have "fs_ok fs \<Longrightarrow> fs_ok fs1 \<and> settings fs1 = settings fs" using fsRemove_ok [of fs] by (auto simp: EventRemove_def split: Option.bind_splits if_splits)
  then show ?case using mount_ok_event reach_remove by blast
next
  case (reach_write m root fs os rd ls media fuel path fs1)
  then have "fs_ok fs \<Longrightarrow> fs_ok fs1 \<and> settings fs1 = settings fs"
    using sync_event [of os fs rd] by (auto simp: EventWrite_def split: Option.bind_splits if_splits)
  then show ?case using mount_ok_event reach_write by blast
next
  case (reach_create m root fs os rd ls media fuel path fs1)
  then have "fs_ok fs \<Longrightarrow> fs_ok fs1 \<and> settings fs1 = settings fs"
    using sync_event [of os fs rd] by (auto simp: EventCreate_def split: Option.bind_splits if_splits)
  then show ?case using mount_ok_event reach_create by blast
next
  case (reach_stat m root fs os media path)
  then have "mount_ok root (snd (fsStat os media path fs))"
    using fsStat_ok [of fs os media path] fsStat_mount [of os media path fs] by (simp add: mounts_ok_def mount_ok_def mountOf_def)
  then show ?case using mounts_ok_upd [OF reach_stat.IH] by simp
next
  case (reach_map m os rd ls media wadd fuel args m1)
  then show ?case using mapFs_ok by blast
next
  case (reach_set m media now path cnt b m1)
  then show ?case using mSet_ok by blast
qed (simp_all add: mounts_ok_def NewMultiFileSystem_def mCacheExtensions_def mActiveExtensions_def mDefaultExtensions_def)



lemma map_app: "mapFs (\<lambda>p r. []) os rd ls media wadd fuel [ArgStr ''/app'', ArgStr ''/srv''] NewMultiFileSystem =
    Some (NewMultiFileSystem\<lparr>fsystms := [''/app'' \<mapsto> mounted (\<lambda>p r. []) ''/app'' ''/srv'' False NewMultiFileSystem]\<rparr>)"
  by (simp add: mapFs_def mapName_def mountNew_def cutFirst.simps NewMultiFileSystem_def)


text \<open>
  Claim C15: storing and looking up through the mount points agree.  In every reachable state (\<open>mreach\<close>), let \<open>Set\<close> choose a file system for a
  path with an extension that does not go up, while no file system is mounted under the empty name and the chosen one is not shadowed
  for the rest of the path (its extension is active or not cached, or the cache holds no other file of that name).  Then storing succeeds, the
  new state is reachable, and the chosen file system answers for the rest of the path with a file whose reader delivers exactly the
  stored text and which has its size, whatever the operating system holds.  \<open>StatContext\<close> of the same path finds a file, and it is this
  file unless another mount point on the path has a file for the part of the path behind it.
\<close>

theorem mounted_set_stat:
  assumes "mreach m" "setTarget (fsystms m) path = Some (root, rest)" "fsystms m root = Some fs" "fsystms m '''' = None"
    and "fileExt path \<noteq> ''''" "level (keyOf path)" "unshadowed fs rest"
  shows "\<exists>m1 fs1 fi. mSet media now path cnt m = Some (True, m1) \<and> mreach m1 \<and> fsystms m1 = (fsystms m)(root \<mapsto> fs1) \<and>
    fst (fsStat os media (keyOf rest) fs1) = Some fi \<and> readInfo rd ra fs1 fi = Some cnt \<and> fi_size fi = int (length cnt) \<and>
    StatContext (fsystms m1) (\<lambda>f r. fst (fsStat os media r f)) path \<noteq> None \<and>
    ((\<forall>k < length (keyOf path). drop k (keyOf path) \<noteq> keyOf rest \<and> keyOf path ! k = sep \<longrightarrow>
        lookupAt (fsystms m1) (\<lambda>f r. fst (fsStat os media r f)) (keyOf path) k = None) \<longrightarrow>
      StatContext (fsystms m1) (\<lambda>f r. fst (fsStat os media r f)) path = Some fi)"
proof -
  have ok: "fs_ok fs" using mounts_reach [OF assms(1)] assms(3) by (auto simp: mounts_ok_def mount_ok_def)
  note found = disk.mounted_found [OF assms(2-4) conjI [OF ok assms(7)] assms(5,6)]
  obtain fs1 where f: "fsSet media now rest cnt fs = Some (True, fs1)"
    using fsSet_stores [OF ok, of rest media now cnt] found(1) assms(5) by auto
  let ?m = "m\<lparr>fsystms := (fsystms m)(root \<mapsto> fs1)\<rparr>"
  have s: "mSet media now path cnt m = Some (True, ?m)" using assms(2,3) f by (simp add: mSet_def)
  from found(2) [of media now cnt os rd ra] f obtain fi where
    fi: "fst (fsStat os media (keyOf rest) fs1) = Some fi" "readInfo rd ra fs1 fi = Some cnt" "fi_size fi = int (length cnt)"
      "StatContext (fsystms ?m) (\<lambda>f r. fst (fsStat os media r f)) path \<noteq> None"
      "misses (fsystms ?m) (\<lambda>f r. fst (fsStat os media r f)) (keyOf path) (\<lambda>k. drop k (keyOf path) \<noteq> keyOf rest) \<longrightarrow>
        StatContext (fsystms ?m) (\<lambda>f r. fst (fsStat os media r f)) path = Some fi"
    by auto
  show ?thesis using s reach_set [OF assms(1) s] fi unfolding misses_def by (intro exI [of _ ?m] exI [of _ fs1] exI [of _ fi]) simp
qed

theorem mounted_set_stat_witness:
  "\<exists>m1 fs1 fi. mSet (\<lambda>e. False) 1 ''/app/lib/a.js'' ''new''
       (NewMultiFileSystem\<lparr>fsystms := [''/app'' \<mapsto> mounted (\<lambda>p r. []) ''/app'' ''/srv'' False NewMultiFileSystem]\<rparr>) = Some (True, m1) \<and>
     fsystms m1 = [''/app'' \<mapsto> fs1] \<and> readInfo Map.empty Map.empty fs1 fi = Some ''new'' \<and>
     StatContext (fsystms m1) (\<lambda>f r. fst (fsStat Map.empty (\<lambda>e. False) r f)) ''/app/lib/a.js'' = Some fi"
proof -
  let ?m = "NewMultiFileSystem\<lparr>fsystms := [''/app'' \<mapsto> mounted (\<lambda>p r. []) ''/app'' ''/srv'' False NewMultiFileSystem]\<rparr>" and ?p = "''/app/lib/a.js''"
  have "mreach ?m" using reach_map [OF reach_new map_app] .
  moreover have "setTarget (fsystms ?m) ?p = Some (''/app'', ''/lib/a.js'')"
    by (simp add: setTarget_def setRoot_def dirOf_def keyOf_def Let_def upt_rec)
  moreover have "fileExt ?p \<noteq> ''''" by (simp add: fileExt_def)
  moreover have "level (keyOf ?p)" by (simp add: keyOf_def level_def All_less_Suc2 numeral_eq_Suc)
  moreover have "unshadowed (mounted (\<lambda>p r. []) ''/app'' ''/srv'' False NewMultiFileSystem) ''/lib/a.js''"
    by (simp add: unshadowed_def mounted_def NewMultiFileSystem_def)
  moreover have "\<forall>k < length (keyOf ?p). drop k (keyOf ?p) \<noteq> keyOf ''/lib/a.js'' \<and> keyOf ?p ! k = sep \<longrightarrow> lookupAt [''/app'' \<mapsto> f] st (keyOf ?p) k = None"
    for f :: filesys and st :: "filesys \<Rightarrow> string \<Rightarrow> finfo option"
    by (simp add: keyOf_def lookupAt_def All_less_Suc2 numeral_eq_Suc)
  ultimately show ?thesis
    using mounted_set_stat [of ?m ?p "''/app''" "''/lib/a.js''" "mounted (\<lambda>p r. []) ''/app'' ''/srv'' False NewMultiFileSystem" "\<lambda>e. False" 1 "''new''"
        Map.empty Map.empty Map.empty]
    by fastforce
qed

text \<open>Defect: a mount point that consists of a mark only is mounted under the empty name.\<close>

lemma map_mark_only: "fsystms (the (mapFs arch os rd ls media wadd fuel [ArgStr ''/raw:''] NewMultiFileSystem)) '''' \<noteq> None"
  by (simp add: mapFs_def mapName_def mountNew_def cutFirst.simps NewMultiFileSystem_def)

end
