(* ===== verification/Spec2Isabelle.thy ===== *)
theory Spec2Isabelle
  imports Prelude Buffer BufferOutput Runes BufferText Cursor Search BuffReader Store IterMap Parameters TextParsing TemplateParser MapReader RuneIO RuneReader CodeParsing AttributeParser ElementParsing Rows DbReader SqlStatement Connections DbHandler DbRegistry MultiFs FileSys FsSync MountFs
begin

text \<open>
  A verification development for \<open>lnksnk\<close>, a web application framework in Go.  A request becomes a
  set of parameters, selects a file, and the file is run through a template engine: markup names
  further template files, text between \<open><%\<close> and \<open>%>\<close> is script, everything else is content.  All text
  moves through a chunked buffer and through readers that deliver it rune by rune.  The
  development models this core, from the bytes upwards; the definitions keep the names of the
  source, and a panic of the source is the value \<open>None\<close>.

  \<^bold>\<open>The buffer\<close> (\<open>src/ioext/buffer.go\<close>).  \<open>Buffer\<close> holds the record of the struct, \<open>Write\<close> and its
  parts, \<open>Clear\<close>, \<open>Close\<close>, \<open>Clone\<close>; \<open>buf_inv\<close> is its invariant (full chunks of the size of the array)
  and \<open>contents\<close> the byte list it stands for.  The lemmas show that every operation keeps the
  invariant and acts on the contents as it should.  \<open>BufferOutput\<close> has the range output
  (\<open>WriteTo\<close>, \<open>WriteSubOffsetTo\<close>), proved once against the locale \<open>byte_sink\<close> of writers, which is
  interpreted by byte lists, by buffers and by the string builder of \<open>BufferText\<close>.  \<open>BufferText\<close> has
  the text operations (\<open>WriteRunes\<close>, \<open>String\<close>, \<open>LastByte\<close>) over the UTF-8 model of \<open>Runes\<close>.  \<open>Cursor\<close>
  has the walks over the segments in both directions, \<open>Search\<close> the scanners and every search
  over them, \<open>BuffReader\<close> the reader with its budget, seeking and copying.

  \<^bold>\<open>Runes in and out\<close> (\<open>src/ioext/adhoc.go\<close>, \<open>src/ioext/mapreader.go\<close>).  \<open>RuneIO\<close> states the
  contract of a rune reader as the locale \<open>rune_source\<close> and proves reading, line splitting,
  \<open>ReadRunesFrom\<close> and \<open>Fprint\<close> in it.  The contract is discharged for string readers and the
  escaping map reader there, for the reader over a buffer behind \<open>bufio\<close> in \<open>RuneReader\<close>, and for the
  reader with one rune handed back in \<open>CodeParsing\<close>.  \<open>MapReader\<close> models the two replacing readers;
  their \<open>goto\<close> labels are a program counter.

  \<^bold>\<open>The template engine\<close> (\<open>src/template\<close>).  \<open>TextParsing\<close> recognises quoted text.  \<open>TemplateParser\<close> is
  the label parser with its callbacks, a reference lexer without callbacks, and the locale
  \<open>template_client\<close>: a client whose callbacks behave as a step function on some view of its state is
  driven through exactly the events of the lexer.  The lexer loses nothing (\<open>lex_lossless\<close>) and
  cuts documents into their segments, also where runes of a label occur outside of labels (\<open>lex_passive\<close>, \<open>lex_code\<close>).  \<open>CodeParsing\<close> is the code parser: three
  interpretations of \<open>template_client\<close> (inline expressions, code inside an open element, code outside)
  give its specification \<open>acode\<close> and what pages become.  \<open>AttributeParser\<close> and \<open>ElementParsing\<close> are
  the attribute parser and the element test of the content parser.

  \<^bold>\<open>Containers\<close>.  \<open>Store\<close> models \<open>sync.Map\<close>; \<open>IterMap\<close> is the observable map of
  \<open>src/ioext/itermap.go\<close>, whose events replay to its contents; \<open>Parameters\<close> is the container of
  \<open>src/parameters/parameters.go\<close> with its loaders and the invariant of its cached counts.

  \<^bold>\<open>Databases\<close> (\<open>src/dbms\<close>).  \<open>Rows\<close> has the rows of a result set with their look-ahead and the wrapper over
  \<open>database/sql\<close>; what the wrapper relies on is the predicate \<open>sql_contract\<close> (a result set delivered without an error: \<open>Scan\<close> works behind a \<open>Next\<close> that
  answered true, and nothing is assumed once \<open>Next\<close> has answered false), what a reader relies on the locale \<open>row_source\<close>, and a result set
  held in memory (\<open>memorySql\<close>, interpreted as \<open>people\<close>), which closes itself behind its last row and then fails every call, shows that the contract can be met.
  Each selected row comes out once, in order, with its number and the first and last flags.  \<open>DbReader\<close> has the
  reader and its records: iterating ends and shows exactly the selected records.  \<open>SqlStatement\<close> has the
  preparation of queries with named arguments over the label parser: values never reach the text of a query,
  and a document of statements is sent with its placeholders and arguments in order.  \<open>Connections\<close> has the
  connections kept in the observable map, as a step relation in which every opened database is held by exactly
  one connection or was closed exactly once.  \<open>DbHandler\<close> has the handlers, which register readers and close them; readers and
  handlers can close each other, so both are on a heap and the nested calls are a list of tasks (\<open>release\<close>), with a
  measure that shows that they end.  Closing reaches exactly what the registrations lead to, and in every run no
  statement of a reader is closed twice, and none is left without an open handler, apart from those of strays: readers queried through a closed
  handler, or detached by hand.  Statements of executions and failed queries have no reader and are not tracked.  \<open>DbRegistry\<close> has the drivers and the configuration: what
  \<open>Load\<close> registers, and when \<open>Unload\<close> returns.

  \<^bold>\<open>File systems\<close> (\<open>src/fs\<close>).  \<open>MultiFs\<close> is the search for a path among mount points, complete and sound for paths
  that do not go up.  \<open>FileSys\<close> is one file system: files in memory, the cache, archives and the disk.  Buffers are shared
  between a file in memory and its cache entry, so both refer to objects of a heap, and \<open>fs_ok\<close> says that no
  reference dangles, is closed or shared by two names.  What is stored is found; the mount points need no more than the
  locale \<open>file_store\<close>, interpreted by this file system (\<open>disk\<close>).  \<open>FsSync\<close> has removal, which takes out exactly what was asked for,
  and synchronising with the disk, after which the cache serves what the disk holds.  \<open>MountFs\<close> has the table of
  mounted file systems, with the states that mounting, storing, looking up and the events of the watcher lead to (\<open>mreach\<close>; write and create
  events only where nothing in memory shadows the disk and modification times identify versions; unloading and closing are not steps).  A stored file
  is found with its text through the mount points.

  \<^bold>\<open>Loops and bounds\<close>.  Loops that may not end in Go are \<open>partial_function (option)\<close>, and each theorem
  about them shows that they return.  There is fuel in two places: in \<open>fillB\<close>, where \<open>bufio.Reader\<close> gives up after
  100 empty reads, and the source theorem needs one; and in \<open>syncThis\<close>, where it bounds the depth of the directories
  (\<open>shallow\<close>), and \<open>syncThis_total\<close> shows that it is enough.  Chunk and block sizes (8192, 4096, 1024) are
  those of the source.  Offsets and counts are unbounded integers: contents of \<open>2 ^ 63\<close> bytes are out
  of reach.

  \<^bold>\<open>Outside code\<close>.  \<open>unicode.IsSpace\<close>, \<open>utf8\<close>, \<open>bufio\<close>, \<open>sync.Map\<close>, \<open>strings\<close> and \<open>filepath.Ext\<close> are modelled as the Go
  library documents them; decoding of multipart forms, name normalisation, uploaded
  files, case folding, \<open>database/sql\<close>, the opening of data sources, the operating system's files and directories, the
  contents of archives and the table of media types are arguments of the definitions that use them.  Where Go ranges over a map, the
  order is an argument or the theorem holds for every order.

  \<^bold>\<open>Not modelled\<close>.  Of the template engine: \<open>matchPost\<close>, \<open>Close\<close> and \<open>capturekeyval\<close> of the content
  parser and the driver \<open>markup.go\<close>, which open template files and recurse through the stack of open
  elements while the outer parse is under way: their state is a stack of parsers that hold each other's callbacks.  Of the
  buffer: \<open>Equals\<close> and the JSON accessors, which go through \<open>encoding/json\<close>.  Of the file systems: listing, unloading, the open file with its \<open>http.File\<close> interface, the watcher
  itself and the formats of archives.  Request handling, sessions and scheduling are glue over \<open>net/http\<close>, the script
  engine and timers.  \<open>src/iorw\<close> and \<open>src/database\<close> are the predecessors of \<open>src/ioext\<close> and \<open>src/dbms\<close>.  Goroutines and
  locks appear only as far as a released lock panics.  The forks of
  other projects in the tree (the script engine \<open>es\<close>, \<open>excelize\<close>, \<open>pdf\<close>, \<open>barcode\<close>, mail and socket
  libraries) are left aside.
\<close>

section \<open>From a request to a query\<close>

text \<open>
  The parameters of a request as a statement sees them: the names it lists, and the values of a name.  \<open>dec\<close> and \<open>enc\<close> turn strings
  into runes and back.
\<close>

definition requestParams :: "(string \<Rightarrow> string) \<Rightarrow> (string \<Rightarrow> sqltext) \<Rightarrow> (sqltext \<Rightarrow> string) \<Rightarrow> parameters \<Rightarrow> sqlparams" where
  "requestParams nm dec enc p = \<lparr>p_keys = map dec (Keys p), p_get = (\<lambda>n. map dec (pGet nm p (enc n) []))\<rparr>"

text \<open>
  Claim C5: the values of a request never become part of a query.  For any two query strings with the same names in the same order, both
  well-formed (segments \<open>a=b\<close> whose parts all decode), loaded into the same container of parameters, the text of any statement is prepared to
  the same query texts with the same number of arguments each, whatever the decoded values of the two requests are.  A query string with a part
  that does not decode is not covered: the loader drops all its parameters, so that their names are unknown and become null.
\<close>

theorem request_values_stay_arguments:
  assumes "query_ok q kvs" "query_ok q' kvs'" "q \<noteq> []" "map fst kvs = map fst kvs'"
  shows "\<exists>s t. prepText (env\<lparr>e_params := Some (requestParams nm dec enc (LoadParametersFromRawURL nm p (joined ''&'' (map seg_of q))))\<rparr>) sql = Some s \<and>
    prepText (env\<lparr>e_params := Some (requestParams nm dec enc (LoadParametersFromRawURL nm p (joined ''&'' (map seg_of q'))))\<rparr>) sql = Some t \<and>
    prpdqry s = prpdqry t \<and> qerr s = qerr t \<and> (\<forall>i. map_option length (prpdargs s i) = map_option length (prpdargs t i))"
proof (rule prepText_names)
  show "same_names (env\<lparr>e_params := Some (requestParams nm dec enc (LoadParametersFromRawURL nm p (joined ''&'' (map seg_of q))))\<rparr>)
      (env\<lparr>e_params := Some (requestParams nm dec enc (LoadParametersFromRawURL nm p (joined ''&'' (map seg_of q'))))\<rparr>)"
    using LoadParametersFromRawURL_keys [OF assms, of nm p] by (simp add: same_names_def requestParams_def)
qed

theorem request_values_stay_arguments_witness:
  "\<exists>s t. prepText ((sampleEnv [])\<lparr>e_params := Some (requestParams id (map of_char) (map char_of) (LoadParametersFromRawURL id NewParameters ''a=1''))\<rparr>) [64, 97, 64] = Some s \<and>
    prepText ((sampleEnv [])\<lparr>e_params := Some (requestParams id (map of_char) (map char_of) (LoadParametersFromRawURL id NewParameters ''a=%27--''))\<rparr>) [64, 97, 64] = Some t \<and>
    prpdqry s = prpdqry t"
proof -
  have "query_ok [(''a'', ''1'')] [(''a'', ''1'')]" "query_ok [(''a'', ''%27--'')] [(''a'', [CHR 0x27, CHR 0x2D, CHR 0x2D])]"
    by (simp_all add: query_ok_Cons unhex_def char_of_def bit_0)
  from request_values_stay_arguments [OF this, where env = "sampleEnv []" and sql = "[64, 97, 64]" and nm = id and dec = "map of_char" and enc = "map char_of"
      and p = NewParameters]
  show ?thesis by (auto simp: seg_of_def)
qed

end
